(* ===== verification/Prelude.thy ===== *)
theory Prelude
  imports Main "HOL-Library.Word"
begin

text \<open>
  Shared ground of the development: the machine types of the C++ code as word types,
  the fact collections the components extend, and the generic lemmas on lists and words
  the component proofs rest on.
\<close>

unbundle bit_operations_syntax

section \<open>Machine types\<close>

text \<open>A \<open>char\<close> of a buffer, \<open>uint32_t\<close> and \<open>uint64_t\<close>. A \<open>Slice\<close>
  or \<open>std::string\<close> is the list of its bytes.\<close>

type_synonym byte = "8 word"
type_synonym u32 = "32 word"
type_synonym u64 = "64 word"
type_synonym slice = "byte list"

section \<open>Collections\<close>

named_theorems codec_simps \<open>decoders applied to the bytes their encoders wrote\<close>
named_theorems codec_len \<open>lengths of encodings\<close>

section \<open>Words\<close>

lemma and_127 [simp]: "w AND 127 = take_bit 7 (w :: 'a::len word)"
proof -
  have "(127 :: 'a word) = mask 7" by (simp add: mask_eq_exp_minus_1)
  then show ?thesis by (simp add: take_bit_eq_mask)
qed

lemma and_255: "w AND 255 = take_bit 8 (w :: 'a::len word)"
proof -
  have "(255 :: 'a word) = mask 8" by (simp add: mask_eq_exp_minus_1)
  then show ?thesis by (simp add: take_bit_eq_mask)
qed

lemma and_128_eq_0_iff [simp]: "w AND 128 = 0 \<longleftrightarrow> \<not> bit (w :: 'a::len word) 7"
  using bit_iff_and_push_bit_not_eq_0 [of w 7] by simp

lemma bit_128_int: "bit (128 :: int) n \<longleftrightarrow> n = 7"
proof -
  have "(128 :: int) = push_bit 7 1" by simp
  then show ?thesis by (auto simp only: bit_simps) auto
qed

lemma bit_128_iff: "bit (128 :: 'a::len word) n \<longleftrightarrow> n = 7 \<and> 7 < LENGTH('a)"
proof -
  have "(128 :: 'a word) = push_bit 7 1" by simp
  then show ?thesis by (auto simp only: bit_simps) auto
qed

text \<open>A byte with the high bit set carries the low seven bits of the word it was cut from.\<close>

lemma bit_cont_byte [simp]: "bit (ucast (w OR 128) :: byte) 7" if "7 < LENGTH('a)"
  for w :: "'a::len word"
  using that by (simp add: bit_simps bit_128_iff bit_128_int)

lemma take_bit_cont_byte [simp]:
  "take_bit 7 (ucast (ucast (w OR 128) :: byte) :: 'b::len word) = ucast (take_bit 7 w)"
  if "7 < LENGTH('a)" for w :: "'a::len word"
  using that by (intro bit_word_eqI) (auto simp: bit_simps bit_128_int)

lemma take_bit_7_or_128 [simp]: "7 < LENGTH('a) \<Longrightarrow>
   ucast (take_bit 7 w OR 128) = (ucast (w OR 128) :: byte)" for w :: "'a::len word"
  by (intro bit_word_eqI) (auto simp: bit_simps bit_128_int)

lemma take_bit_word_eq_self_iff: "take_bit n w = w \<longleftrightarrow> unat w < 2 ^ n" for w :: "'a::len word"
  by (simp add: word_unat_eq_iff unsigned_take_bit_eq take_bit_nat_eq_self_iff)

lemma take_bit_32_u32 [simp]: "take_bit 32 v = v" for v :: u32
  using take_bit_word_eq_self_iff [of 32 v] unsigned_less [where ?'b = 32 and ?'a = nat, of v] by simp

lemma take_bit_64_u64 [simp]: "take_bit 64 v = v" for v :: u64
  using take_bit_word_eq_self_iff [of 64 v] unsigned_less [where ?'b = 64 and ?'a = nat, of v] by simp

lemma unat_u32_bound: "unat v < 2 ^ 32" for v :: u32
  using unsigned_less [where ?'b = 32 and ?'a = nat, of v] by simp

lemma unat_u64_bound: "unat v < 2 ^ 64" for v :: u64
  using unsigned_less [where ?'b = 64 and ?'a = nat, of v] by simp

lemma unat_ucast_32_64 [simp]: "unat (ucast v :: u64) = unat v" for v :: u32
  using unat_u32_bound [of v] by (simp add: unsigned_ucast_eq take_bit_nat_eq_self_iff)

lemma ucast_ucast_32: "(ucast (ucast v :: u64) :: u32) = v" for v :: u32
  by (intro bit_word_eqI) (auto simp: bit_simps)

lemma bit_imp_less_exp: "unat w < 2 ^ n \<Longrightarrow> bit w m \<Longrightarrow> m < n" for w :: "'a::len word"
  by (metis bit_take_bit_iff take_bit_word_eq_self_iff)

lemma less_128_iff: "w < 128 \<longleftrightarrow> unat w < 2 ^ 7" if "7 < LENGTH('a)" for w :: "'a::len word"
proof -
  have "(2 :: nat) ^ 7 < 2 ^ LENGTH('a)"
    using that by (intro power_strict_increasing) simp_all
  then have "unat (128 :: 'a word) = 128"
    by (simp add: unsigned_numeral take_bit_eq_mod)
  then show ?thesis by (simp add: word_less_nat_alt)
qed

lemma small_word_byte_bit7: "\<not> bit (ucast w :: byte) 7" if "unat w < 2 ^ 7"
  for w :: "'a::len word"
  using bit_imp_less_exp [OF that] by (auto simp: bit_simps)

lemma small_word_byte_cast: "(ucast (ucast w :: byte) :: 'a word) = w" if "unat w < 2 ^ 8"
  for w :: "'a::len word"
  using bit_imp_less_exp [OF that] by (intro bit_word_eqI) (auto simp: bit_simps)

lemma unat_of_nat_u64: "n < 2 ^ 64 \<Longrightarrow> unat (of_nat n :: u64) = n"
  by (simp add: unat_of_nat take_bit_eq_mod)

lemma unat_add_nat: "unat w + n < 2 ^ 64 \<Longrightarrow> unat (w + of_nat n) = unat w + n" for w :: u64
  by (simp add: unat_word_ariths unat_of_nat take_bit_eq_mod mod_simps)

section \<open>Literals and decimal numbers\<close>

text \<open>The bytes of a string literal, and what \<^verbatim>\<open>printf\<close> writes for
  \<^verbatim>\<open>%u\<close> and \<^verbatim>\<open>%d\<close>.\<close>

definition str :: "string \<Rightarrow> slice" where
  "str s = map of_char s"

fun dec_digits :: "nat \<Rightarrow> slice" where
  "dec_digits n = (if n < 10 then [of_nat (48 + n)] else dec_digits (n div 10) @ [of_nat (48 + n mod 10)])"

declare dec_digits.simps [simp del]

definition dec_int :: "int \<Rightarrow> slice" where
  "dec_int i = (if i < 0 then str ''-'' @ dec_digits (nat (- i)) else dec_digits (nat i))"

lemma length_str [simp]: "length (str s) = length s"
  by (simp add: str_def)

lemma str_append: "str (s @ t) = str s @ str t"
  by (simp add: str_def)

end
