(* ===== verification/Coding.thy ===== *)
theory Coding
  imports Prelude
begin

text \<open>
  The byte encodings of \<^verbatim>\<open>util/coding.{h,cc}\<close>: fixed-width and variable-length
  integers and length-prefixed slices. A pointer into a buffer is the list of bytes from
  it up to \<^verbatim>\<open>limit\<close>; a decoder that advances its input returns the value and the
  bytes left, and \<open>None\<close> where the code returns \<^verbatim>\<open>NULL\<close> or \<^verbatim>\<open>false\<close>.
  The locale \<open>prefix_codec\<close> is the contract every on-disk format above relies on.
\<close>

section \<open>Fixed-width integers\<close>

text \<open>The object representation of an integer on a little-endian host, which the
  \<^verbatim>\<open>memcpy\<close> branches copy, and the load of such a representation.\<close>

definition native_bytes :: "nat \<Rightarrow> 'a::len word \<Rightarrow> slice" where
  "native_bytes n v = map (\<lambda>i. ucast (drop_bit (8 * i) v)) [0..<n]"

fun native_word :: "slice \<Rightarrow> 'a::len word" where
  "native_word [] = 0"
| "native_word (b # bs) = ucast b OR push_bit 8 (native_word bs)"

text \<open>The first argument is \<^verbatim>\<open>port::kLittleEndian\<close>.\<close>

definition EncodeFixed32_port :: "bool \<Rightarrow> u32 \<Rightarrow> slice" where
  "EncodeFixed32_port kLittleEndian value =
     (if kLittleEndian then native_bytes 4 value
      else [ucast (value AND 255), ucast (drop_bit 8 value AND 255),
            ucast (drop_bit 16 value AND 255), ucast (drop_bit 24 value AND 255)])"

definition EncodeFixed64_port :: "bool \<Rightarrow> u64 \<Rightarrow> slice" where
  "EncodeFixed64_port kLittleEndian value =
     (if kLittleEndian then native_bytes 8 value
      else [ucast (value AND 255), ucast (drop_bit 8 value AND 255),
            ucast (drop_bit 16 value AND 255), ucast (drop_bit 24 value AND 255),
            ucast (drop_bit 32 value AND 255), ucast (drop_bit 40 value AND 255),
            ucast (drop_bit 48 value AND 255), ucast (drop_bit 56 value AND 255)])"

definition DecodeFixed32_port :: "bool \<Rightarrow> slice \<Rightarrow> u32" where
  "DecodeFixed32_port kLittleEndian ptr =
     (if kLittleEndian then native_word [ptr ! 0, ptr ! 1, ptr ! 2, ptr ! 3]
      else ucast (ptr ! 0) OR push_bit 8 (ucast (ptr ! 1)) OR
           push_bit 16 (ucast (ptr ! 2)) OR push_bit 24 (ucast (ptr ! 3)))"

definition DecodeFixed64_port :: "bool \<Rightarrow> slice \<Rightarrow> u64" where
  "DecodeFixed64_port kLittleEndian ptr =
     (if kLittleEndian
      then native_word [ptr ! 0, ptr ! 1, ptr ! 2, ptr ! 3, ptr ! 4, ptr ! 5, ptr ! 6, ptr ! 7]
      else (let lo = ucast (DecodeFixed32_port kLittleEndian ptr);
                hi = ucast (DecodeFixed32_port kLittleEndian (drop 4 ptr))
            in push_bit 32 hi OR lo))"

text \<open>The build the repository targets is little-endian.\<close>

abbreviation EncodeFixed32 :: "u32 \<Rightarrow> slice" where
  "EncodeFixed32 \<equiv> EncodeFixed32_port True"
abbreviation EncodeFixed64 :: "u64 \<Rightarrow> slice" where
  "EncodeFixed64 \<equiv> EncodeFixed64_port True"
abbreviation DecodeFixed32 :: "slice \<Rightarrow> u32" where
  "DecodeFixed32 \<equiv> DecodeFixed32_port True"
abbreviation DecodeFixed64 :: "slice \<Rightarrow> u64" where
  "DecodeFixed64 \<equiv> DecodeFixed64_port True"

definition PutFixed32 :: "slice \<Rightarrow> u32 \<Rightarrow> slice" where
  "PutFixed32 dst value = dst @ EncodeFixed32 value"

definition PutFixed64 :: "slice \<Rightarrow> u64 \<Rightarrow> slice" where
  "PutFixed64 dst value = dst @ EncodeFixed64 value"

section \<open>Varints\<close>

definition EncodeVarint32 :: "u32 \<Rightarrow> slice" where
  "EncodeVarint32 v =
     (if v < 2 ^ 7 then [ucast v]
      else if v < 2 ^ 14 then [ucast (v OR 128), ucast (drop_bit 7 v)]
      else if v < 2 ^ 21 then [ucast (v OR 128), ucast (drop_bit 7 v OR 128),
                               ucast (drop_bit 14 v)]
      else if v < 2 ^ 28 then [ucast (v OR 128), ucast (drop_bit 7 v OR 128),
                               ucast (drop_bit 14 v OR 128), ucast (drop_bit 21 v)]
      else [ucast (v OR 128), ucast (drop_bit 7 v OR 128), ucast (drop_bit 14 v OR 128),
            ucast (drop_bit 21 v OR 128), ucast (drop_bit 28 v)])"

definition PutVarint32 :: "slice \<Rightarrow> u32 \<Rightarrow> slice" where
  "PutVarint32 dst v = dst @ EncodeVarint32 v"

lemma unat_drop_bit_7_less: "unat (drop_bit 7 v) < unat v" if "128 \<le> v" for v :: u64
proof -
  have "128 \<le> unat v" using that by (simp add: word_le_nat_alt)
  then show ?thesis by (simp only: unat_drop_bit_eq) (simp add: drop_bit_eq_div)
qed

function EncodeVarint64 :: "u64 \<Rightarrow> slice" where
  "EncodeVarint64 v =
     (if v \<ge> 128 then ucast ((v AND 127) OR 128) # EncodeVarint64 (drop_bit 7 v)
      else [ucast v])"
  by pat_completeness auto
termination
  by (relation "measure unat") (simp_all add: unat_drop_bit_7_less)

definition PutVarint64 :: "slice \<Rightarrow> u64 \<Rightarrow> slice" where
  "PutVarint64 dst v = dst @ EncodeVarint64 v"

function VarintLength_loop :: "u64 \<Rightarrow> nat \<Rightarrow> nat" where
  "VarintLength_loop v len =
     (if v \<ge> 128 then VarintLength_loop (drop_bit 7 v) (len + 1) else len)"
  by pat_completeness auto
termination
  by (relation "measure (\<lambda>(v, len). unat v)") (simp_all add: unat_drop_bit_7_less)

definition VarintLength :: "u64 \<Rightarrow> nat" where
  "VarintLength v = VarintLength_loop v 1"

declare EncodeVarint64.simps [simp del] VarintLength_loop.simps [simp del]

text \<open>The loop that \<^verbatim>\<open>GetVarint32PtrFallback\<close> and \<^verbatim>\<open>GetVarint64Ptr\<close> run, at the
  width of its result and with the last shift it accepts.\<close>

fun varint_loop :: "nat \<Rightarrow> nat \<Rightarrow> 'a::len word \<Rightarrow> slice \<Rightarrow> ('a word \<times> slice) option" where
  "varint_loop last_shift shift result [] = None"
| "varint_loop last_shift shift result (b # p) =
     (if shift \<le> last_shift then
        (let byte = ucast b in
         if byte AND 128 \<noteq> 0
         then varint_loop last_shift (shift + 7) (result OR push_bit shift (byte AND 127)) p
         else Some (result OR push_bit shift byte, p))
      else None)"

definition GetVarint32PtrFallback :: "slice \<Rightarrow> (u32 \<times> slice) option" where
  "GetVarint32PtrFallback p = varint_loop 28 0 0 p"

definition GetVarint32Ptr :: "slice \<Rightarrow> (u32 \<times> slice) option" where
  "GetVarint32Ptr p =
     (case p of
        b # p' \<Rightarrow> (let result = ucast b in
                   if result AND 128 = 0 then Some (result, p') else GetVarint32PtrFallback p)
      | [] \<Rightarrow> GetVarint32PtrFallback p)"

definition GetVarint32 :: "slice \<Rightarrow> (u32 \<times> slice) option" where
  "GetVarint32 input = GetVarint32Ptr input"

definition GetVarint64Ptr :: "slice \<Rightarrow> (u64 \<times> slice) option" where
  "GetVarint64Ptr p = varint_loop 63 0 0 p"

definition GetVarint64 :: "slice \<Rightarrow> (u64 \<times> slice) option" where
  "GetVarint64 input = GetVarint64Ptr input"

section \<open>Length-prefixed slices\<close>

definition PutLengthPrefixedSlice :: "slice \<Rightarrow> slice \<Rightarrow> slice" where
  "PutLengthPrefixedSlice dst value = PutVarint32 dst (of_nat (length value)) @ value"

text \<open>The \<^verbatim>\<open>Slice\<close> variant and the pointer variant, which reads \<^verbatim>\<open>[p, limit)\<close>.\<close>

definition GetLengthPrefixedSlice :: "slice \<Rightarrow> (slice \<times> slice) option" where
  "GetLengthPrefixedSlice input =
     (case GetVarint32 input of
        None \<Rightarrow> None
      | Some (len, input') \<Rightarrow>
          if length input' \<ge> unat len then Some (take (unat len) input', drop (unat len) input')
          else None)"

definition GetLengthPrefixedSlicePtr :: "slice \<Rightarrow> (slice \<times> slice) option" where
  "GetLengthPrefixedSlicePtr p =
     (case GetVarint32Ptr p of
        None \<Rightarrow> None
      | Some (len, p') \<Rightarrow>
          if unat len > length p' then None else Some (take (unat len) p', drop (unat len) p'))"

section \<open>The fixed-width encodings are inverse and endian-neutral\<close>

lemma native_bytes_4: "native_bytes 4 v =
    [ucast v, ucast (drop_bit 8 v), ucast (drop_bit 16 v), ucast (drop_bit 24 v)]"
  by (simp add: native_bytes_def upt_rec)

lemma native_bytes_8: "native_bytes 8 v =
    [ucast v, ucast (drop_bit 8 v), ucast (drop_bit 16 v), ucast (drop_bit 24 v),
     ucast (drop_bit 32 v), ucast (drop_bit 40 v), ucast (drop_bit 48 v), ucast (drop_bit 56 v)]"
  by (simp add: native_bytes_def upt_rec)

lemma ucast_and_255 [simp]: "(ucast (w AND 255) :: byte) = ucast w" for w :: "'a::len word"
  unfolding and_255 by (intro bit_word_eqI) (auto simp: bit_simps)

lemma length_EncodeFixed32 [simp, codec_len]: "length (EncodeFixed32_port le v) = 4"
  by (simp add: EncodeFixed32_port_def native_bytes_4)

lemma length_EncodeFixed64 [simp, codec_len]: "length (EncodeFixed64_port le v) = 8"
  by (simp add: EncodeFixed64_port_def native_bytes_8)

lemma EncodeFixed32_endian: "EncodeFixed32_port le v = EncodeFixed32 v"
  by (simp add: EncodeFixed32_port_def native_bytes_4)

lemma EncodeFixed64_endian: "EncodeFixed64_port le v = EncodeFixed64 v"
  by (simp add: EncodeFixed64_port_def native_bytes_8)

lemma push_bit_or_word: "push_bit n (a OR b) = push_bit n a OR push_bit n b" for a b :: "'a::len word"
  by (intro bit_word_eqI) (auto simp: bit_simps)

lemma DecodeFixed32_endian: "DecodeFixed32_port le p = DecodeFixed32 p"
  by (simp add: DecodeFixed32_port_def or.assoc push_bit_or_word)

lemma ucast_push_bit_byte: "k + 8 \<le> 32 \<Longrightarrow>
    (ucast (push_bit k (ucast (b :: byte) :: u32)) :: u64) = push_bit k (ucast b)"
  by (intro bit_word_eqI) (auto simp: bit_simps dest: bit_imp_le_length)

lemma DecodeFixed64_halves:
  assumes "8 \<le> length p"
  shows "DecodeFixed64 p = push_bit 32 (ucast (DecodeFixed32 (drop 4 p))) OR ucast (DecodeFixed32 p)"
  using assms
  by (simp add: DecodeFixed64_port_def DecodeFixed32_port_def push_bit_or_word unsigned_or_eq
      ucast_push_bit_byte ucast_push_bit_byte [of 0, simplified] or.assoc or.commute or.left_commute)

lemma DecodeFixed64_endian: "8 \<le> length p \<Longrightarrow> DecodeFixed64_port le p = DecodeFixed64 p"
proof (cases le)
  case False
  assume "8 \<le> length p"
  then show ?thesis
    using False by (subst DecodeFixed64_halves)
      (simp_all add: DecodeFixed64_port_def DecodeFixed32_endian [of False] Let_def)
qed simp

lemma native_bytes_Suc: "native_bytes (Suc n) v = ucast v # native_bytes n (drop_bit 8 v)"
proof -
  have "[0..<Suc n] = 0 # map Suc [0..<n]" by (simp add: map_Suc_upt upt_conv_Cons)
  then show ?thesis by (simp only: native_bytes_def) (simp add: comp_def add.commute)
qed

lemma native_word_bytes: "native_word (native_bytes n v) = take_bit (8 * n) v"
proof (induction n arbitrary: v)
  case 0
  then show ?case by (simp add: native_bytes_def)
next
  case (Suc n)
  have "ucast (ucast v :: byte) OR push_bit 8 (take_bit (8 * n) (drop_bit 8 v)) = take_bit (8 * Suc n) v"
    by (intro bit_word_eqI) (auto simp: bit_simps)
  then show ?case by (simp add: native_bytes_Suc Suc.IH)
qed

lemma DecodeFixed32_EncodeFixed32 [simp, codec_simps]:
  "DecodeFixed32 (EncodeFixed32 v @ rest) = v"
  using native_word_bytes [of 4 v]
  by (simp add: DecodeFixed32_port_def EncodeFixed32_port_def native_bytes_4)

lemma DecodeFixed64_EncodeFixed64 [simp, codec_simps]:
  "DecodeFixed64 (EncodeFixed64 v @ rest) = v"
  using native_word_bytes [of 8 v]
  by (simp add: DecodeFixed64_port_def EncodeFixed64_port_def native_bytes_8)

lemmas DecodeFixed_Nil [simp, codec_simps] =
  DecodeFixed32_EncodeFixed32 [where rest = "[]", simplified]
  DecodeFixed64_EncodeFixed64 [where rest = "[]", simplified]

section \<open>Varints decode to what was encoded\<close>

lemma ge_128_iff: "128 \<le> v \<longleftrightarrow> 128 \<le> unat v" for v :: u64
  by (simp add: word_le_nat_alt)

lemma unat_drop_bit_7: "unat (drop_bit 7 v) = unat v div 128" for v :: "'a::len word"
  by (simp only: unat_drop_bit_eq) (simp add: drop_bit_eq_div)

lemma varint_step_bits:
  "(acc OR push_bit s (ucast (take_bit 7 v))) OR push_bit (s + 7) (ucast (drop_bit 7 v)) =
   (acc OR push_bit s (ucast v) :: 'a::len word)" for v :: u64
proof (rule bit_word_eqI)
  fix n
  have "7 \<le> n - s \<Longrightarrow> 7 + (n - (s + 7)) = n - s" by arith
  then show "bit ((acc OR push_bit s (ucast (take_bit 7 v))) OR push_bit (s + 7) (ucast (drop_bit 7 v))) n
      = bit (acc OR push_bit s (ucast v) :: 'a word) n"
    by (cases "7 \<le> n - s") (auto simp: bit_simps)
qed

lemma varint_loop_EncodeVarint64:
  fixes acc :: "'a::len word"
  assumes "7 < LENGTH('a)" "LENGTH('a) \<le> last_shift + 7" "7 dvd last_shift"
    and "7 dvd shift" "shift \<le> last_shift" "unat v < 2 ^ (LENGTH('a) - shift)"
  shows "varint_loop last_shift shift acc (EncodeVarint64 v @ rest) =
         Some (acc OR push_bit shift (ucast v), rest)"
  using assms(4-6)
proof (induction v arbitrary: shift acc rule: EncodeVarint64.induct)
  case (1 v)
  show ?case
  proof (cases "128 \<le> v")
    case False
    then have v: "unat v < 2 ^ 7" by (simp add: ge_128_iff)
    then have v8: "unat v < 2 ^ 8" by simp
    have "\<not> bit (ucast (ucast v :: byte) :: 'a word) 7"
      using small_word_byte_bit7 [OF v] by (simp add: bit_simps)
    moreover have "(ucast (ucast v :: byte) :: 'a word) = ucast v"
      using bit_imp_less_exp [OF v8] by (intro bit_word_eqI) (auto simp: bit_simps)
    ultimately show ?thesis
      using False "1.prems" by (simp add: EncodeVarint64.simps [of v])
  next
    case True
    then have ge: "128 \<le> unat v" by (simp add: ge_128_iff)
    have "7 < LENGTH('a) - shift"
    proof (rule ccontr)
      assume "\<not> 7 < LENGTH('a) - shift"
      then have "(2::nat) ^ (LENGTH('a) - shift) \<le> 2 ^ 7" by (intro power_increasing) simp_all
      then show False using ge "1.prems"(3) by simp
    qed
    then have lt: "shift + 7 \<le> last_shift"
      using assms(2,3) "1.prems"(1,2) by (auto simp: dvd_def) presburger
    have "LENGTH('a) - shift = LENGTH('a) - (shift + 7) + 7"
      using \<open>7 < LENGTH('a) - shift\<close> by arith
    then have "2 ^ (LENGTH('a) - shift) = (2::nat) ^ (LENGTH('a) - (shift + 7)) * 2 ^ 7"
      by (simp only: power_add)
    then have "unat (drop_bit 7 v) < 2 ^ (LENGTH('a) - (shift + 7))"
      using "1.prems"(3) by (simp add: unat_drop_bit_7 less_mult_imp_div_less)
    moreover have "7 dvd shift + 7" using "1.prems"(1) by simp
    ultimately have "varint_loop last_shift (shift + 7) (acc OR push_bit shift (ucast (take_bit 7 v)))
        (EncodeVarint64 (drop_bit 7 v) @ rest) = Some (acc OR push_bit shift (ucast v), rest)"
      using "1.IH" [OF True] lt by (simp only: varint_step_bits)
    then show ?thesis
      using True "1.prems" assms(1) by (simp add: EncodeVarint64.simps [of v] bit_ucast_iff bit_or_iff bit_128_iff Let_def)
  qed
qed

lemma EncodeVarint64_unat:
  "EncodeVarint64 x = (if unat x < 128 then [ucast x]
     else ucast (x OR 128) # EncodeVarint64 (drop_bit 7 x))"
  by (simp add: EncodeVarint64.simps [of x] ge_128_iff)

text \<open>One step of the 64-bit loop on a value that fits 32 bits.\<close>

lemma EncodeVarint64_ucast_step:
  "EncodeVarint64 (drop_bit k (ucast v)) =
     (if unat v < 2 ^ (k + 7) then [ucast (drop_bit k v)]
      else ucast (drop_bit k v OR 128) # EncodeVarint64 (drop_bit (k + 7) (ucast v)))" for v :: u32
proof -
  let ?x = "ucast v :: u64"
  have "(ucast (drop_bit k ?x) :: byte) = ucast (drop_bit k v)"
    "(ucast (drop_bit k ?x OR 128) :: byte) = ucast (drop_bit k v OR 128)"
    by (intro bit_word_eqI; auto simp: bit_simps dest: bit_imp_le_length)+
  moreover have "unat (drop_bit k ?x) = unat v div 2 ^ k"
    by (simp only: unat_drop_bit_eq) (simp add: drop_bit_eq_div)
  moreover have "unat v div 2 ^ k < 128 \<longleftrightarrow> unat v < 2 ^ (k + 7)"
    by (simp add: div_less_iff_less_mult power_add mult.commute)
  moreover have "drop_bit 7 (drop_bit k ?x) = drop_bit (k + 7) ?x"
    by (simp add: add.commute)
  ultimately show ?thesis
    by (subst EncodeVarint64_unat) simp
qed

lemma EncodeVarint32_eq_64: "EncodeVarint32 v = EncodeVarint64 (ucast v)"
proof -
  have "EncodeVarint64 (ucast v) = EncodeVarint64 (drop_bit 0 (ucast v))" by simp
  also have "\<dots> = EncodeVarint32 v"
    using unat_u32_bound [of v]
    unfolding EncodeVarint64_ucast_step [of 0] EncodeVarint64_ucast_step [of "0 + 7"]
      EncodeVarint64_ucast_step [of "0 + 7 + 7"] EncodeVarint64_ucast_step [of "0 + 7 + 7 + 7"]
      EncodeVarint64_ucast_step [of "0 + 7 + 7 + 7 + 7"] EncodeVarint32_def word_less_nat_alt
    by simp
  finally show ?thesis by simp
qed

lemma GetVarint64_EncodeVarint64 [simp, codec_simps]:
  "GetVarint64 (EncodeVarint64 v @ rest) = Some (v, rest)"
  using varint_loop_EncodeVarint64 [where ?'a = 64 and last_shift = 63 and shift = 0 and acc = 0,
      of v rest] unat_u64_bound [of v]
  by (simp add: GetVarint64_def GetVarint64Ptr_def)

text \<open>The one-byte fast path agrees with the loop it short-cuts.\<close>

lemma GetVarint32Ptr_fast_path: "GetVarint32Ptr p = GetVarint32PtrFallback p"
  by (cases p) (simp_all add: GetVarint32Ptr_def GetVarint32PtrFallback_def Let_def)

lemma GetVarint32_EncodeVarint32 [simp, codec_simps]:
  "GetVarint32 (EncodeVarint32 v @ rest) = Some (v, rest)"
  using varint_loop_EncodeVarint64 [where ?'a = 32 and last_shift = 28 and shift = 0 and acc = 0,
      of "ucast v" rest] unat_u32_bound [of v]
  by (simp add: GetVarint32_def GetVarint32Ptr_fast_path GetVarint32PtrFallback_def
      EncodeVarint32_eq_64 ucast_ucast_32)

lemma GetVarint32Ptr_EncodeVarint32 [simp, codec_simps]:
  "GetVarint32Ptr (EncodeVarint32 v @ rest) = Some (v, rest)"
  using GetVarint32_EncodeVarint32 by (simp add: GetVarint32_def)

lemma VarintLength_loop_EncodeVarint64:
  "VarintLength_loop v len = len + length (EncodeVarint64 v) - 1"
proof (induction v len rule: VarintLength_loop.induct)
  case (1 v len)
  have "EncodeVarint64 (drop_bit 7 v) \<noteq> []" by (subst EncodeVarint64.simps) simp
  then show ?case
    using "1.IH" by (auto simp: VarintLength_loop.simps [of v] EncodeVarint64.simps [of v] Suc_leI)
qed

lemma VarintLength_eq: "VarintLength v = length (EncodeVarint64 v)"
  by (simp add: VarintLength_def VarintLength_loop_EncodeVarint64)

lemma length_EncodeVarint64_bound:
  "unat v < 128 ^ n \<Longrightarrow> 0 < n \<Longrightarrow> length (EncodeVarint64 v) \<le> n"
proof (induction n arbitrary: v)
  case (Suc n)
  show ?case
  proof (cases "unat v < 128")
    case True
    then show ?thesis by (simp add: EncodeVarint64_unat [of v])
  next
    case False
    then have "0 < n" using Suc.prems by (cases n) auto
    moreover have "unat (drop_bit 7 v) < 128 ^ n"
      using Suc.prems by (simp add: unat_drop_bit_7 less_mult_imp_div_less)
    ultimately show ?thesis
      using False Suc.IH by (simp add: EncodeVarint64_unat [of v])
  qed
qed simp

lemma length_EncodeVarint32_le: "length (EncodeVarint32 v) \<le> 5"
  using length_EncodeVarint64_bound [of "ucast v" 5] unat_u32_bound [of v]
  by (simp add: EncodeVarint32_eq_64)

lemma length_EncodeVarint64_le: "length (EncodeVarint64 v) \<le> 10"
  using length_EncodeVarint64_bound [of v 10] unat_u64_bound [of v] by simp

section \<open>Length-prefixed slices and the codec contract\<close>

lemma unat_of_nat_u32 [simp]: "n < 2 ^ 32 \<Longrightarrow> unat (of_nat n :: u32) = n"
  by (simp add: unat_of_nat take_bit_nat_eq_self_iff)

lemma PutLengthPrefixedSlice_eq:
  "PutLengthPrefixedSlice dst v = dst @ EncodeVarint32 (of_nat (length v)) @ v"
  by (simp add: PutLengthPrefixedSlice_def PutVarint32_def)

abbreviation lps :: "slice \<Rightarrow> slice" where
  "lps v \<equiv> EncodeVarint32 (of_nat (length v)) @ v"

lemma GetLengthPrefixedSlice_lps [simp, codec_simps]:
  "length v < 2 ^ 32 \<Longrightarrow> GetLengthPrefixedSlice (EncodeVarint32 (of_nat (length v)) @ v @ rest) = Some (v, rest)"
  by (simp add: GetLengthPrefixedSlice_def)

lemma GetLengthPrefixedSlicePtr_eq: "GetLengthPrefixedSlicePtr p = GetLengthPrefixedSlice p"
  by (auto simp: GetLengthPrefixedSlicePtr_def GetLengthPrefixedSlice_def GetVarint32_def
      split: option.splits)

lemma varint_loop_shrinks: "varint_loop l s r p = Some (v, q) \<Longrightarrow> length q < length p"
  by (induction l s r p rule: varint_loop.induct) (auto simp: Let_def split: if_splits)

lemma GetVarint32_shrinks: "GetVarint32 p = Some (v, q) \<Longrightarrow> length q < length p"
  by (simp add: GetVarint32_def GetVarint32Ptr_fast_path GetVarint32PtrFallback_def varint_loop_shrinks)

lemma GetVarint64_shrinks: "GetVarint64 p = Some (v, q) \<Longrightarrow> length q < length p"
  by (simp add: GetVarint64_def GetVarint64Ptr_def varint_loop_shrinks)

lemma GetLengthPrefixedSlice_shrinks: "GetLengthPrefixedSlice p = Some (v, q) \<Longrightarrow> length q < length p"
  by (auto simp: GetLengthPrefixedSlice_def split: option.splits if_splits dest!: GetVarint32_shrinks)

text \<open>
  What a reader of a stream of encoded values relies on: a decoder returns the value that
  was written in front of whatever follows, and consumes at least one byte.
\<close>

locale prefix_codec =
  fixes enc :: "'v \<Rightarrow> slice"
    and dec :: "slice \<Rightarrow> ('v \<times> slice) option"
    and ok :: "'v \<Rightarrow> bool"
  assumes dec_enc: "ok v \<Longrightarrow> dec (enc v @ rest) = Some (v, rest)"
    and dec_shrinks: "dec s = Some (v, rest) \<Longrightarrow> length rest < length s"
begin

lemma enc_nonempty: "ok v \<Longrightarrow> enc v \<noteq> []"
  using dec_enc [of v "[]"] dec_shrinks [of "enc v" v "[]"] by simp

lemma uniquely_decodable:
  assumes "ok v" "ok w" "enc v @ r = enc w @ s"
  shows "v = w \<and> r = s"
proof -
  have "Some (v, r) = dec (enc w @ s)"
    unfolding assms(3) [symmetric] by (simp only: dec_enc [OF assms(1)])
  then show ?thesis by (simp add: dec_enc [OF assms(2)])
qed

lemma stream_uniquely_decodable:
  "list_all ok vs \<Longrightarrow> list_all ok ws \<Longrightarrow> concat (map enc vs) = concat (map enc ws) \<Longrightarrow> vs = ws"
proof (induction vs arbitrary: ws)
  case Nil
  then show ?case using enc_nonempty by (cases ws) auto
next
  case (Cons v vs)
  then obtain w ws' where ws: "ws = w # ws'"
    using enc_nonempty by (cases ws) auto
  then have "v = w \<and> concat (map enc vs) = concat (map enc ws')"
    using Cons.prems by (intro uniquely_decodable) auto
  then show ?case using Cons.IH [of ws'] Cons.prems ws by simp
qed

end

interpretation v32: prefix_codec EncodeVarint32 GetVarint32 "\<lambda>_. True"
  by unfold_locales (simp_all add: GetVarint32_shrinks)

interpretation v64: prefix_codec EncodeVarint64 GetVarint64 "\<lambda>_. True"
  by unfold_locales (simp_all add: GetVarint64_shrinks)

interpretation lpslice: prefix_codec lps GetLengthPrefixedSlice "\<lambda>v. length v < 2 ^ 32"
  by unfold_locales (simp_all add: GetLengthPrefixedSlice_shrinks)

section \<open>Correctness of the codings\<close>

text \<open>C23. Every 32-bit value comes back from its varint in front of any bytes; the unrolled
  32-bit encoder writes what the 64-bit loop writes, so either decoder reads it; its length is the
  one \<^verbatim>\<open>VarintLength\<close> computes, and it fits the five-byte buffer of \<^verbatim>\<open>PutVarint32\<close>.\<close>

theorem varint32_correct:
  "GetVarint32 (PutVarint32 [] v @ rest) = Some (v, rest) \<and>
   GetVarint64 (PutVarint32 [] v @ rest) = Some (ucast v, rest) \<and>
   PutVarint32 [] v = PutVarint64 [] (ucast v) \<and>
   length (PutVarint32 [] v) = VarintLength (ucast v) \<and> length (PutVarint32 [] v) \<le> 5"
  using length_EncodeVarint32_le [of v] GetVarint32_EncodeVarint32 [of v rest]
  unfolding PutVarint32_def PutVarint64_def EncodeVarint32_eq_64 by (simp add: VarintLength_eq)

text \<open>C24. A sequence of length-prefixed slices, each shorter than \<^verbatim>\<open>2^32\<close>, is determined
  by its bytes, and the decoder takes the slices off one after the other.\<close>

theorem length_prefixed_slices_correct:
  assumes "list_all (\<lambda>v. length v < 2 ^ 32) (v # vs)" "list_all (\<lambda>v. length v < 2 ^ 32) ws"
  shows "GetLengthPrefixedSlice (concat (map (PutLengthPrefixedSlice []) (v # vs))) =
      Some (v, concat (map (PutLengthPrefixedSlice []) vs)) \<and>
    (concat (map (PutLengthPrefixedSlice []) (v # vs)) = concat (map (PutLengthPrefixedSlice []) ws) \<longrightarrow> v # vs = ws)"
proof -
  have "PutLengthPrefixedSlice [] = (\<lambda>v. lps v)" by (simp add: fun_eq_iff PutLengthPrefixedSlice_eq)
  then show ?thesis
    using assms lpslice.stream_uniquely_decodable [of "v # vs" ws]
      lpslice.dec_enc [of v "concat (map (\<lambda>v. lps v) vs)"] by simp
qed

theorem length_prefixed_slices_correct_witness:
  "GetLengthPrefixedSlice (concat (map (PutLengthPrefixedSlice []) [[7, 8], []])) =
     Some ([7, 8], PutLengthPrefixedSlice [] [])"
  using length_prefixed_slices_correct [of "[7, 8]" "[[]]" "[]"] by simp

end
