(* ===== verification/Comparator.thy ===== *)
theory Comparator
  imports Coding
begin

text \<open>
  \<^verbatim>\<open>Slice\<close> comparison (\<^verbatim>\<open>include/pebblesdb/slice.h\<close>) and the bytewise comparator
  (\<^verbatim>\<open>util/comparator.cc\<close>). The locale \<open>comparator\<close> is the contract of
  \<^verbatim>\<open>include/pebblesdb/comparator.h\<close>, a total order up to equivalence; \<open>separator\<close> adds what
  the table builder relies on when it shortens index keys. Sorted sequences and searching in
  them are developed once, in the locale.
\<close>

section \<open>Slices\<close>

text \<open>The sign of \<^verbatim>\<open>memcmp\<close> on the first \<open>n\<close> bytes, which both arguments have.\<close>

fun memcmp :: "slice \<Rightarrow> slice \<Rightarrow> nat \<Rightarrow> int" where
  "memcmp a b 0 = 0"
| "memcmp a b (Suc n) =
     (if hd a < hd b then - 1 else if hd b < hd a then 1 else memcmp (tl a) (tl b) n)"

definition Slice_compare :: "slice \<Rightarrow> slice \<Rightarrow> int" where
  "Slice_compare a b =
     (let min_len = (if length a < length b then length a else length b);
          r = memcmp a b min_len
      in if r = 0 then (if length a < length b then - 1 else if length b < length a then 1 else r) else r)"

definition starts_with :: "slice \<Rightarrow> slice \<Rightarrow> bool" where
  "starts_with s x \<longleftrightarrow> length x \<le> length s \<and> memcmp s x (length x) = 0"

definition Slice_eq :: "slice \<Rightarrow> slice \<Rightarrow> bool" where
  "Slice_eq x y \<longleftrightarrow> length x = length y \<and> memcmp x y (length x) = 0"

definition remove_prefix :: "slice \<Rightarrow> nat \<Rightarrow> slice" where
  "remove_prefix s n = drop n s"

section \<open>The bytewise comparator\<close>

definition BytewiseComparator_Name :: slice where
  "BytewiseComparator_Name = str ''leveldb.BytewiseComparator''"

definition Bytewise_Compare :: "slice \<Rightarrow> slice \<Rightarrow> int" where
  "Bytewise_Compare a b = Slice_compare a b"

function diff_index_loop :: "slice \<Rightarrow> slice \<Rightarrow> nat \<Rightarrow> nat \<Rightarrow> nat" where
  "diff_index_loop start limit min_length diff_index =
     (if diff_index < min_length \<and> start ! diff_index = limit ! diff_index
      then diff_index_loop start limit min_length (diff_index + 1) else diff_index)"
  by pat_completeness auto
termination by (relation "measure (\<lambda>(s, l, m, i). m - i)") auto

declare diff_index_loop.simps [simp del]

definition Bytewise_FindShortestSeparator :: "slice \<Rightarrow> slice \<Rightarrow> slice" where
  "Bytewise_FindShortestSeparator start limit =
     (let min_length = min (length start) (length limit);
          diff_index = diff_index_loop start limit min_length 0
      in if min_length \<le> diff_index then start
         else let diff_byte = start ! diff_index
              in if diff_byte < 0xff \<and> unat diff_byte + 1 < unat (limit ! diff_index)
                 then take (diff_index + 1) (start[diff_index := start ! diff_index + 1])
                 else start)"

function short_successor_loop :: "slice \<Rightarrow> nat \<Rightarrow> nat \<Rightarrow> slice" where
  "short_successor_loop key n i =
     (if i < n
      then if key ! i \<noteq> 0xff then take (i + 1) (key[i := key ! i + 1])
           else short_successor_loop key n (i + 1)
      else key)"
  by pat_completeness auto
termination by (relation "measure (\<lambda>(k, n, i). n - i)") auto

declare short_successor_loop.simps [simp del]

definition Bytewise_FindShortSuccessor :: "slice \<Rightarrow> slice" where
  "Bytewise_FindShortSuccessor key = short_successor_loop key (length key) 0"

definition KeyNum :: "slice \<Rightarrow> u64" where
  "KeyNum key =
     (let buf = take 8 key @ replicate (8 - length key) 0
      in push_bit 56 (ucast (buf ! 0)) OR push_bit 48 (ucast (buf ! 1)) OR
         push_bit 40 (ucast (buf ! 2)) OR push_bit 32 (ucast (buf ! 3)) OR
         push_bit 24 (ucast (buf ! 4)) OR push_bit 16 (ucast (buf ! 5)) OR
         push_bit 8 (ucast (buf ! 6)) OR ucast (buf ! 7))"

section \<open>The contract of a comparator\<close>

locale comparator =
  fixes ok :: "'a \<Rightarrow> bool"
    and cmp :: "'a \<Rightarrow> 'a \<Rightarrow> int"
  assumes cmp_antisym: "ok a \<Longrightarrow> ok b \<Longrightarrow> sgn (cmp b a) = - sgn (cmp a b)"
    and cmp_trans: "ok a \<Longrightarrow> ok b \<Longrightarrow> ok c \<Longrightarrow> cmp a b \<le> 0 \<Longrightarrow> cmp b c \<le> 0 \<Longrightarrow> cmp a c \<le> 0"
begin

lemma cmp_swap: "ok a \<Longrightarrow> ok b \<Longrightarrow> cmp b a \<le> 0 \<longleftrightarrow> 0 \<le> cmp a b"
  "ok a \<Longrightarrow> ok b \<Longrightarrow> cmp b a < 0 \<longleftrightarrow> 0 < cmp a b"
  "ok a \<Longrightarrow> ok b \<Longrightarrow> cmp b a = 0 \<longleftrightarrow> cmp a b = 0"
  using cmp_antisym [of a b] by (auto simp: sgn_if split: if_splits)

lemma cmp_refl [simp]: "ok a \<Longrightarrow> cmp a a = 0"
  using cmp_antisym [of a a] by (auto simp: sgn_if split: if_splits)

lemma cmp_less_le_trans: "ok a \<Longrightarrow> ok b \<Longrightarrow> ok c \<Longrightarrow> cmp a b < 0 \<Longrightarrow> cmp b c \<le> 0 \<Longrightarrow> cmp a c < 0"
  using cmp_trans [of b c a] cmp_trans [of a b c] cmp_swap [of a c] cmp_swap [of a b] by force

lemma cmp_le_less_trans: "ok a \<Longrightarrow> ok b \<Longrightarrow> ok c \<Longrightarrow> cmp a b \<le> 0 \<Longrightarrow> cmp b c < 0 \<Longrightarrow> cmp a c < 0"
  using cmp_trans [of c a b] cmp_trans [of a b c] cmp_swap [of a c] cmp_swap [of b c] by force

lemma cmp_less_trans: "ok a \<Longrightarrow> ok b \<Longrightarrow> ok c \<Longrightarrow> cmp a b < 0 \<Longrightarrow> cmp b c < 0 \<Longrightarrow> cmp a c < 0"
  using cmp_less_le_trans [of a b c] by simp

lemma cmp_eq_less: "ok a \<Longrightarrow> ok b \<Longrightarrow> ok c \<Longrightarrow> cmp a b = 0 \<Longrightarrow> cmp a c < 0 \<longleftrightarrow> cmp b c < 0"
  using cmp_le_less_trans [of a b c] cmp_le_less_trans [of b a c] cmp_swap [of a b] by auto

text \<open>Sequences in strictly increasing order, and the part of one before a key.\<close>

definition increasing :: "'a list \<Rightarrow> bool" where
  "increasing xs \<longleftrightarrow> list_all ok xs \<and> sorted_wrt (\<lambda>a b. cmp a b < 0) xs"

lemma increasing_Cons: "increasing (x # xs) \<longleftrightarrow> ok x \<and> (\<forall>y\<in>set xs. cmp x y < 0) \<and> increasing xs"
  by (auto simp: increasing_def)

lemma increasing_append:
  "increasing (xs @ ys) \<longleftrightarrow> increasing xs \<and> increasing ys \<and> (\<forall>x\<in>set xs. \<forall>y\<in>set ys. cmp x y < 0)"
  by (auto simp: increasing_def sorted_wrt_append)

lemma increasing_nth: "increasing xs \<Longrightarrow> i < j \<Longrightarrow> j < length xs \<Longrightarrow> cmp (xs ! i) (xs ! j) < 0"
  by (auto simp: increasing_def sorted_wrt_iff_nth_less)

lemma increasing_ok: "increasing xs \<Longrightarrow> x \<in> set xs \<Longrightarrow> ok x"
  by (auto simp: increasing_def list_all_iff)

lemma increasing_distinct: "increasing xs \<Longrightarrow> x \<in> set xs \<Longrightarrow> y \<in> set xs \<Longrightarrow> cmp x y = 0 \<Longrightarrow> x = y"
proof (induction xs)
  case (Cons z xs)
  then show ?case
    using cmp_swap(3) [of x y] increasing_ok [of xs x] by (auto simp: increasing_Cons)
qed simp

end

locale separator = comparator +
  fixes sep :: "'a \<Rightarrow> 'a \<Rightarrow> 'a" and succ :: "'a \<Rightarrow> 'a"
  assumes ok_sep: "ok s \<Longrightarrow> ok l \<Longrightarrow> ok (sep s l)"
    and ok_succ: "ok s \<Longrightarrow> ok (succ s)"
    and sep_between: "ok s \<Longrightarrow> ok l \<Longrightarrow> cmp s l < 0 \<Longrightarrow> cmp s (sep s l) \<le> 0 \<and> cmp (sep s l) l < 0"
    and sep_same: "ok s \<Longrightarrow> ok l \<Longrightarrow> cmp s l = 0 \<Longrightarrow> sep s l = s"
    and succ_above: "ok s \<Longrightarrow> cmp s (succ s) \<le> 0"
begin

text \<open>What an index block relies on: the separator between two blocks is not below any key of the
  first block and below every key of the second.\<close>

lemma sep_separates:
  assumes "ok s" "ok l" "ok x" "ok y" "cmp x s \<le> 0" "cmp s l < 0" "cmp l y \<le> 0"
  shows "cmp x (sep s l) \<le> 0 \<and> cmp (sep s l) y < 0"
  using assms sep_between [of s l] ok_sep [of s l] cmp_trans [of x s "sep s l"]
    cmp_less_le_trans [of "sep s l" l y] by auto

end

section \<open>Bytewise order\<close>

lemma memcmp_eq_0: "n \<le> length a \<Longrightarrow> n \<le> length b \<Longrightarrow> memcmp a b n = 0 \<longleftrightarrow> take n a = take n b"
proof (induction n arbitrary: a b)
  case (Suc n)
  then show ?case by (cases a; cases b) auto
qed simp

lemma Slice_eq_iff [simp]: "Slice_eq x y \<longleftrightarrow> x = y"
  by (auto simp: Slice_eq_def memcmp_eq_0)

lemma starts_with_iff: "starts_with s x \<longleftrightarrow> (\<exists>r. s = x @ r)"
  by (auto simp: starts_with_def memcmp_eq_0) (metis append_take_drop_id)

fun lexcmp :: "slice \<Rightarrow> slice \<Rightarrow> int" where
  "lexcmp [] [] = 0"
| "lexcmp [] (b # bs) = - 1"
| "lexcmp (a # as) [] = 1"
| "lexcmp (a # as) (b # bs) = (if a < b then - 1 else if b < a then 1 else lexcmp as bs)"

lemma Slice_compare_lexcmp: "Slice_compare a b = lexcmp a b"
  unfolding Slice_compare_def
  by (induction a b rule: lexcmp.induct) (auto simp: Let_def split: if_splits)

lemma lexcmp_cases: "lexcmp a b = - 1 \<or> lexcmp a b = 0 \<or> lexcmp a b = 1"
  by (induction a b rule: lexcmp.induct) auto

lemma lexcmp_eq_0 [simp]: "lexcmp a b = 0 \<longleftrightarrow> a = b"
  by (induction a b rule: lexcmp.induct) auto

lemma lexcmp_refl [simp]: "lexcmp a a = 0"
  by simp

lemma lexcmp_swap: "lexcmp b a = - lexcmp a b"
  by (induction a b rule: lexcmp.induct) auto

lemma lexcmp_trans: "lexcmp a b \<le> 0 \<Longrightarrow> lexcmp b c \<le> 0 \<Longrightarrow> lexcmp a c \<le> 0"
proof (induction a b arbitrary: c rule: lexcmp.induct)
  case (4 a as b bs)
  then show ?case by (cases c) (auto split: if_splits)
qed (simp_all, (case_tac c, simp_all)+)

lemma lexcmp_append [simp]: "lexcmp (p @ a) (p @ b) = lexcmp a b"
  by (induction p) simp_all

lemma diff_index_loop_split:
  assumes "i \<le> n" "n \<le> length s" "n \<le> length l" "take i s = take i l"
  shows "let d = diff_index_loop s l n i in d \<le> n \<and> take d s = take d l \<and> (d < n \<longrightarrow> s ! d \<noteq> l ! d)"
  using assms
proof (induction s l n i rule: diff_index_loop.induct)
  case (1 s l n i)
  show ?case
  proof (cases "i < n \<and> s ! i = l ! i")
    case True
    then have "take (i + 1) s = take (i + 1) l"
      using "1.prems" by (simp add: take_Suc_conv_app_nth)
    then show ?thesis
      using "1.IH" "1.prems" True by (subst diff_index_loop.simps) simp
  next
    case False
    then have "diff_index_loop s l n i = i" by (subst diff_index_loop.simps) auto
    then show ?thesis using "1.prems" False by (auto simp: Let_def)
  qed
qed

lemma FindShortestSeparator_cases:
  obtains (same) "Bytewise_FindShortestSeparator s l = s"
  | (shorter) p x y s' l' where "s = p @ x # s'" "l = p @ y # l'"
      "Bytewise_FindShortestSeparator s l = p @ [x + 1]" "unat x + 1 < unat y" "unat (x + 1) = unat x + 1"
proof -
  let ?n = "min (length s) (length l)"
  define d where "d = diff_index_loop s l ?n 0"
  have d: "d \<le> ?n" "take d s = take d l"
    using diff_index_loop_split [of 0 ?n s l] by (simp_all add: d_def Let_def)
  show thesis
  proof (cases "?n \<le> d \<or> \<not> (s ! d < 0xff \<and> unat (s ! d) + 1 < unat (l ! d))")
    case True
    then have "Bytewise_FindShortestSeparator s l = s"
      by (auto simp: Bytewise_FindShortestSeparator_def Let_def d_def)
    then show thesis by (rule same)
  next
    case False
    then have len: "d < length s" "d < length l" and x: "s ! d < 0xff" "unat (s ! d) + 1 < unat (l ! d)"
      by auto
    have "unat (s ! d) + 1 < 2 ^ 8" using x(2) unsigned_less [where ?'b = 8 and ?'a = nat, of "l ! d"] by simp
    then have "unat (s ! d + 1) = unat (s ! d) + 1" by (subst unat_add_lem [THEN iffD1]) simp_all
    moreover have "Bytewise_FindShortestSeparator s l = take d s @ [s ! d + 1]"
      using False len x by (auto simp: Bytewise_FindShortestSeparator_def Let_def d_def [symmetric] take_Suc_conv_app_nth)
    moreover have "l = take d s @ l ! d # drop (Suc d) l" using d(2) len(2) by (simp add: id_take_nth_drop)
    ultimately show thesis
      using shorter [OF id_take_nth_drop [OF len(1)]] x(2) by blast
  qed
qed

lemma short_successor_loop_cases:
  assumes "i \<le> n" "n = length k"
  shows "short_successor_loop k n i = k \<or>
    (\<exists>p x s. k = p @ x # s \<and> x \<noteq> 0xff \<and> short_successor_loop k n i = p @ [x + 1])"
  using assms
proof (induction k n i rule: short_successor_loop.induct)
  case (1 k n i)
  show ?case
  proof (cases "i < n")
    case True
    then have "k = take i k @ k ! i # drop (Suc i) k" "take (Suc i) (k[i := k ! i + 1]) = take i k @ [k ! i + 1]"
      using "1.prems" by (simp_all add: id_take_nth_drop take_Suc_conv_app_nth)
    moreover have "short_successor_loop k n i = (if k ! i \<noteq> 0xff then take (Suc i) (k[i := k ! i + 1])
        else short_successor_loop k n (i + 1))"
      using True by (subst short_successor_loop.simps) simp
    ultimately show ?thesis
      using "1.IH" [OF True] True "1.prems" by (cases "k ! i = 0xff") auto
  qed (simp add: short_successor_loop.simps)
qed

lemma byte_less_succ: "x \<noteq> 0xff \<Longrightarrow> x < x + 1" for x :: byte
proof -
  assume "x \<noteq> 0xff"
  then have "unat x \<noteq> 255" by (simp add: word_unat_eq_iff)
  moreover have "unat x < 256" using unsigned_less [where ?'b = 8 and ?'a = nat, of x] by simp
  ultimately have "unat x + 1 < 2 ^ 8" by simp
  then have "unat (x + 1) = unat x + 1" by (subst unat_add_lem [THEN iffD1]) simp_all
  then show ?thesis by (simp add: word_less_nat_alt)
qed

interpretation bytewise: separator "\<lambda>_. True" Bytewise_Compare Bytewise_FindShortestSeparator
  Bytewise_FindShortSuccessor
proof (unfold_locales, goal_cases)
  case (1 a b)
  then show ?case by (simp add: Bytewise_Compare_def Slice_compare_lexcmp lexcmp_swap [of b a])
next
  case (2 a b c)
  then show ?case using lexcmp_trans by (auto simp: Bytewise_Compare_def Slice_compare_lexcmp)
next
  case (5 s l)
  then show ?case
    by (cases rule: FindShortestSeparator_cases [where s = s and l = l])
      (auto simp: Bytewise_Compare_def Slice_compare_lexcmp word_less_nat_alt)
next
  case (6 s l)
  then show ?case
    by (cases rule: FindShortestSeparator_cases [where s = s and l = l])
      (auto simp: Bytewise_Compare_def Slice_compare_lexcmp word_less_nat_alt)
next
  case (7 s)
  show ?case
    using short_successor_loop_cases [of 0 "length s" s] byte_less_succ
    by (auto simp: Bytewise_FindShortSuccessor_def Bytewise_Compare_def Slice_compare_lexcmp)
qed simp_all

section \<open>Keys as numbers\<close>

text \<open>\<^verbatim>\<open>KeyNum\<close> is the number the first eight bytes denote, the most significant first; it
  never contradicts the order of the keys.\<close>

fun be_nat :: "slice \<Rightarrow> nat" where
  "be_nat [] = 0"
| "be_nat (b # bs) = unat b * 256 ^ length bs + be_nat bs"

lemma digit_less: "x < y \<Longrightarrow> c < m \<Longrightarrow> x * m + c < y * m + d" for x y c m d :: nat
proof -
  assume "x < y" "c < m"
  then have "m + x * m \<le> y * m" using mult_le_mono1 [of "Suc x" y m] by simp
  with \<open>c < m\<close> show ?thesis by linarith
qed

lemma be_nat_bound: "be_nat bs < 256 ^ length bs"
proof (induction bs)
  case (Cons b bs)
  have "unat b < 256" using unsigned_less [where ?'b = 8 and ?'a = nat, of b] by simp
  from digit_less [OF this Cons, of 0] show ?case by simp
qed simp

lemma lexcmp_be_nat: "length a = length b \<Longrightarrow> lexcmp a b \<le> 0 \<longleftrightarrow> be_nat a \<le> be_nat b"
proof (induction a b rule: lexcmp.induct)
  case (4 a as b bs)
  then show ?case
    using be_nat_bound [of as] be_nat_bound [of bs] digit_less [of "unat a" "unat b" "be_nat as" "256 ^ length bs" "be_nat bs"]
      digit_less [of "unat b" "unat a" "be_nat bs" "256 ^ length bs" "be_nat as"]
    by (cases a b rule: linorder_cases) (auto simp: word_less_nat_alt)
qed auto

definition key_pad :: "slice \<Rightarrow> slice" where
  "key_pad key = take 8 key @ replicate (8 - length key) 0"

lemma length_key_pad [simp]: "length (key_pad k) = 8"
  by (simp add: key_pad_def)

lemma lexcmp_take_pad:
  "lexcmp a b \<le> 0 \<Longrightarrow>
   lexcmp (take n a @ replicate (n - length a) 0) (take n b @ replicate (n - length b) 0) \<le> 0"
proof (induction a b arbitrary: n rule: lexcmp.induct)
  case (2 b bs)
  have "lexcmp (replicate (length c) 0) c \<le> 0" for c
    by (induction c) (auto simp: word_gt_0)
  moreover have "length (take n (b # bs) @ replicate (n - length (b # bs)) 0) = n" by simp
  ultimately have "lexcmp (replicate n 0) (take n (b # bs) @ replicate (n - length (b # bs)) 0) \<le> 0"
    by metis
  then show ?case by simp
next
  case (4 a as b bs)
  then show ?case by (cases n) (auto split: if_splits)
qed simp_all

lemma byte_shift_or: "unat w < 2 ^ 56 \<Longrightarrow> unat (push_bit 8 w OR ucast (b :: byte)) = unat w * 256 + unat b" for w :: u64
proof -
  assume w: "unat w < 2 ^ 56"
  have "push_bit 8 w AND ucast b = 0"
    by (intro bit_word_eqI) (auto simp: bit_simps dest: bit_imp_le_length)
  then have "push_bit 8 w OR ucast b = push_bit 8 w + ucast b" by (simp add: disjunctive_add_eq_or)
  moreover have b: "unat (ucast b :: u64) = unat b" "unat b < 256"
    using unsigned_less [where ?'b = 8 and ?'a = nat, of b] by (simp_all add: unsigned_ucast_eq take_bit_nat_eq_self_iff)
  moreover have "unat (push_bit 8 w) = unat w * 256"
    using w by (simp add: push_bit_eq_mult) (subst unat_mult_lem [THEN iffD1], simp_all add: mult.commute)
  ultimately show ?thesis
    using w unat_add_lem [THEN iffD1, of "push_bit 8 w" "ucast b"] by simp
qed

lemma unat_KeyNum: "unat (KeyNum key) = be_nat (key_pad key)"
proof -
  obtain b0 b1 b2 b3 b4 b5 b6 b7 where k: "key_pad key = [b0, b1, b2, b3, b4, b5, b6, b7]"
    using length_key_pad [of key] by (auto simp: numeral_eq_Suc length_Suc_conv simp del: length_key_pad)
  define f where "f w b = push_bit 8 w OR (ucast (b :: byte) :: u64)" for w b
  have "KeyNum key = foldl f 0 [b0, b1, b2, b3, b4, b5, b6, b7]"
    unfolding KeyNum_def Let_def key_pad_def [symmetric] k f_def
    by (simp add: push_bit_or or.assoc)
  moreover have fold: "unat (foldl f w bs) = unat w * 256 ^ length bs + be_nat bs"
    if "unat w * 256 ^ length bs + be_nat bs < 2 ^ 64" for w bs
    using that
  proof (induction bs arbitrary: w)
    case (Cons b bs)
    have "unat w * 256 * 1 \<le> unat w * 256 * 256 ^ length bs" by (intro mult_le_mono2) simp
    also have "\<dots> < 2 ^ 64" using Cons.prems by (simp add: mult.assoc)
    finally have fw: "unat (f w b) = unat w * 256 + unat b" unfolding f_def by (intro byte_shift_or) simp
    show ?case using Cons.prems Cons.IH [of "f w b"] by (simp add: fw algebra_simps)
  qed simp
  ultimately show ?thesis
    using be_nat_bound [of "key_pad key"] fold [of 0 "key_pad key"] k by simp
qed

lemma KeyNum_mono: "Bytewise_Compare a b \<le> 0 \<Longrightarrow> KeyNum a \<le> KeyNum b"
  using lexcmp_take_pad [of a b 8] lexcmp_be_nat [of "key_pad a" "key_pad b"]
  by (simp add: Bytewise_Compare_def Slice_compare_lexcmp word_le_nat_alt unat_KeyNum key_pad_def [symmetric])

end
