(* ===== verification/Logging.thy ===== *)
theory Logging
  imports Coding
begin

text \<open>
  \<^verbatim>\<open>util/logging.cc\<close>: printing of numbers and of escaped strings, and the parser for decimal
  numbers with its overflow test. Printing and parsing are inverse, and the parser accepts a
  digit string exactly when its value fits 64 bits.
\<close>

definition AppendNumberTo :: "slice \<Rightarrow> u64 \<Rightarrow> slice" where
  "AppendNumberTo s num = s @ dec_digits (unat num)"

definition hex_digit :: "nat \<Rightarrow> byte" where
  "hex_digit n = (if n < 10 then of_nat (48 + n) else of_nat (87 + n))"

text \<open>A \<^verbatim>\<open>char\<close> from \<^verbatim>\<open>0x80\<close> on is negative, hence below the blank: as an unsigned byte it
  is above the tilde.\<close>

definition printable :: "byte \<Rightarrow> bool" where
  "printable c \<longleftrightarrow> 0x20 \<le> c \<and> c \<le> 0x7e"

fun AppendEscapedStringTo :: "slice \<Rightarrow> slice \<Rightarrow> slice" where
  "AppendEscapedStringTo s [] = s"
| "AppendEscapedStringTo s (c # cs) =
     AppendEscapedStringTo
       (if printable c then s @ [c]
        else s @ [0x5c, 0x78, hex_digit (unat c div 16), hex_digit (unat c mod 16)]) cs"

definition NumberToString :: "u64 \<Rightarrow> slice" where
  "NumberToString num = AppendNumberTo [] num"

definition EscapeString :: "slice \<Rightarrow> slice" where
  "EscapeString v = AppendEscapedStringTo [] v"

definition ConsumeChar :: "slice \<Rightarrow> byte \<Rightarrow> bool \<times> slice" where
  "ConsumeChar input c =
     (case input of [] \<Rightarrow> (False, input) | x # xs \<Rightarrow> if x = c then (True, xs) else (False, input))"

definition is_digit :: "byte \<Rightarrow> bool" where
  "is_digit c \<longleftrightarrow> 0x30 \<le> c \<and> c \<le> 0x39"

text \<open>The loop returns the rest of the input and, unless the number overflows, the value and
  the number of digits.\<close>

fun consume_decimal_loop :: "slice \<Rightarrow> u64 \<Rightarrow> nat \<Rightarrow> slice \<times> (u64 \<times> nat) option" where
  "consume_decimal_loop [] v digits = ([], Some (v, digits))"
| "consume_decimal_loop (c # cs) v digits =
     (if is_digit c
      then let delta = ucast (c - 0x30) :: u64
           in if (- 1) div 10 < v \<or> (v = (- 1) div 10 \<and> (- 1) mod 10 < delta)
              then (c # cs, None)
              else consume_decimal_loop cs (v * 10 + delta) (digits + 1)
      else (c # cs, Some (v, digits)))"

definition ConsumeDecimalNumber :: "slice \<Rightarrow> u64 \<Rightarrow> bool \<times> slice \<times> u64" where
  "ConsumeDecimalNumber input val =
     (case consume_decimal_loop input 0 0 of
        (rest, None) \<Rightarrow> (False, rest, val)
      | (rest, Some (v, digits)) \<Rightarrow> (0 < digits, rest, v))"

section \<open>Digits\<close>

definition digit_val :: "byte \<Rightarrow> nat" where
  "digit_val c = unat c - 48"

definition dec_value :: "nat \<Rightarrow> slice \<Rightarrow> nat" where
  "dec_value v ds = foldl (\<lambda>v d. v * 10 + digit_val d) v ds"

lemma is_digit_nat: "is_digit c \<longleftrightarrow> 48 \<le> unat c \<and> unat c \<le> 57"
  by (simp add: is_digit_def word_le_nat_alt)

lemma dec_value_simps [simp]: "dec_value v [] = v" "dec_value v (d # ds) = dec_value (v * 10 + digit_val d) ds"
  "dec_value v (ds @ es) = dec_value (dec_value v ds) es"
  by (simp_all add: dec_value_def)

lemma dec_value_ge: "v \<le> dec_value v ds"
proof (induction ds arbitrary: v)
  case (Cons d ds)
  have "v \<le> v * 10 + digit_val d" by simp
  then show ?case using Cons [of "v * 10 + digit_val d"] by (simp del: dec_value_simps add: dec_value_simps(2))
qed simp

lemma digit_byte: "n < 10 \<Longrightarrow> unat (of_nat (48 + n) :: byte) = 48 + n"
  by (simp add: unat_of_nat take_bit_eq_mod del: of_nat_add)

lemma dec_digits_props:
  "list_all is_digit (dec_digits n) \<and> dec_value 0 (dec_digits n) = n \<and> dec_digits n \<noteq> []"
proof (induction n rule: dec_digits.induct)
  case (1 n)
  show ?case
  proof (cases "n < 10")
    case True
    then show ?thesis
      using digit_byte [OF True] by (subst (1 2 3) dec_digits.simps) (simp add: is_digit_nat digit_val_def del: of_nat_add)
  next
    case False
    have "is_digit (of_nat (48 + n mod 10))" "digit_val (of_nat (48 + n mod 10)) = n mod 10"
      using digit_byte [of "n mod 10"] mod_less_divisor [of 10 n] by (simp_all add: is_digit_nat digit_val_def less_Suc_eq_le del: of_nat_add)
    then show ?thesis
      using 1 False by (subst (1 2 3) dec_digits.simps) (simp del: of_nat_add)
  qed
qed

lemma consume_decimal_loop_digits:
  assumes "list_all is_digit ds" "rest = [] \<or> \<not> is_digit (hd rest)"
  shows "if dec_value (unat v) ds < 2 ^ 64
    then consume_decimal_loop (ds @ rest) v k = (rest, Some (of_nat (dec_value (unat v) ds), k + length ds))
    else snd (consume_decimal_loop (ds @ rest) v k) = None"
  using assms(1)
proof (induction ds arbitrary: v k)
  case Nil
  have "consume_decimal_loop rest v k = (rest, Some (v, k))" using assms(2) by (cases rest) auto
  then show ?case using unat_u64_bound [of v] by simp
next
  case (Cons d ds)
  let ?delta = "ucast (d - 0x30) :: u64"
  have d: "48 \<le> unat d" "unat d \<le> 57" using Cons.prems by (simp_all add: is_digit_nat)
  then have sub: "unat (d - 0x30) = digit_val d" by (simp add: unat_sub word_le_nat_alt digit_val_def)
  have delta: "unat ?delta = digit_val d" "digit_val d \<le> 9"
    using sub d by (simp_all add: unsigned_ucast_eq take_bit_nat_eq_self_iff digit_val_def)
  have lims: "unat ((- 1 :: u64) div 10) = 1844674407370955161" "unat ((- 1 :: u64) mod 10) = 5" by simp_all
  have over: "((- 1) div 10 < v \<or> (v = (- 1) div 10 \<and> (- 1) mod 10 < ?delta)) \<longleftrightarrow> 2 ^ 64 \<le> unat v * 10 + digit_val d"
    unfolding word_less_nat_alt word_unat_eq_iff lims delta(1) using delta(2) by auto
  show ?case
  proof (cases "2 ^ 64 \<le> unat v * 10 + digit_val d")
    case True
    then have "\<not> dec_value (unat v) (d # ds) < 2 ^ 64"
      using dec_value_ge [of "unat v * 10 + digit_val d" ds] by simp
    then show ?thesis using True over Cons.prems by (simp add: Let_def)
  next
    case False
    then have "unat (v * 10 + ?delta) = unat v * 10 + digit_val d"
      using delta by (simp add: unat_word_ariths)
    moreover have "consume_decimal_loop ((d # ds) @ rest) v k = consume_decimal_loop (ds @ rest) (v * 10 + ?delta) (k + 1)"
      using False over Cons.prems by (auto simp: Let_def)
    ultimately show ?thesis
      using Cons.IH [of "v * 10 + ?delta" "k + 1"] Cons.prems by (simp split: if_splits)
  qed
qed

lemma ConsumeDecimalNumber_digits:
  assumes "list_all is_digit ds" "ds \<noteq> []" "rest = [] \<or> \<not> is_digit (hd rest)"
  shows "dec_value 0 ds < 2 ^ 64 \<Longrightarrow> ConsumeDecimalNumber (ds @ rest) val = (True, rest, of_nat (dec_value 0 ds))"
    "\<not> dec_value 0 ds < 2 ^ 64 \<Longrightarrow> \<not> fst (ConsumeDecimalNumber (ds @ rest) val)"
  using consume_decimal_loop_digits [OF assms(1,3), of 0 0] assms(2)
  by (auto simp: ConsumeDecimalNumber_def split: prod.splits option.splits)

lemma ConsumeDecimalNumber_padded:
  assumes "rest = [] \<or> \<not> is_digit (hd rest)"
  shows "ConsumeDecimalNumber (replicate k 0x30 @ dec_digits (unat n) @ rest) val = (True, rest, n)"
proof -
  have "dec_value 0 (replicate k 0x30) = 0" by (induction k) (simp_all add: digit_val_def)
  moreover have "list_all is_digit (replicate k 0x30)" by (simp add: list_all_iff is_digit_def)
  ultimately show ?thesis
    using ConsumeDecimalNumber_digits(1) [of "replicate k 0x30 @ dec_digits (unat n)" rest val]
      dec_digits_props [of "unat n"] unat_u64_bound [of n] assms by simp
qed

text \<open>C27. Decimal numbers: what is printed for a 64-bit number is read back, in front of
  anything that is not a digit; and a string of digits is accepted exactly when its value is below
  \<^verbatim>\<open>2^64\<close>, and then with that value.\<close>

theorem decimal_numbers_correct:
  assumes "list_all is_digit ds" "ds \<noteq> []" "rest = [] \<or> \<not> is_digit (hd rest)"
  shows "ConsumeDecimalNumber (NumberToString n @ rest) val = (True, rest, n) \<and>
    (fst (ConsumeDecimalNumber (ds @ rest) val) \<longleftrightarrow> dec_value 0 ds < 2 ^ 64) \<and>
    (dec_value 0 ds < 2 ^ 64 \<longrightarrow> ConsumeDecimalNumber (ds @ rest) val = (True, rest, of_nat (dec_value 0 ds)))"
  using ConsumeDecimalNumber_digits [OF assms, of val] ConsumeDecimalNumber_padded [OF assms(3), of 0 n val]
  by (auto simp: NumberToString_def AppendNumberTo_def)

theorem decimal_numbers_correct_witness:
  "ConsumeDecimalNumber (str ''18446744073709551615'' @ str ''.log'') 0 = (True, str ''.log'', - 1) \<and>
   \<not> fst (ConsumeDecimalNumber (str ''18446744073709551616'' @ str ''.log'') 0)"
  using decimal_numbers_correct [of "str ''18446744073709551615''" "str ''.log''" 0 0]
    decimal_numbers_correct [of "str ''18446744073709551616''" "str ''.log''" 0 0]
  by (simp add: str_def is_digit_def digit_val_def)

end
