(* ===== verification/Status.thy ===== *)
theory Status
  imports Coding
begin

text \<open>
  \<^verbatim>\<open>util/status.cc\<close> and \<^verbatim>\<open>include/pebblesdb/status.h\<close>: the result of an operation. A
  status is its \<^verbatim>\<open>state_\<close>: \<open>None\<close> is the null pointer of the OK status, \<open>Some\<close> the
  allocated array (message length, code, message).
\<close>

type_synonym Status = "slice option"

datatype Code = kOk | kNotFound | kCorruption | kNotSupported | kInvalidArgument | kIOError

fun Code_num :: "Code \<Rightarrow> byte" where
  "Code_num kOk = 0"
| "Code_num kNotFound = 1"
| "Code_num kCorruption = 2"
| "Code_num kNotSupported = 3"
| "Code_num kInvalidArgument = 4"
| "Code_num kIOError = 5"

definition OK :: Status where
  "OK = None"

definition new_Status :: "Code \<Rightarrow> slice \<Rightarrow> slice \<Rightarrow> Status" where
  "new_Status c msg msg2 =
     (let len1 = of_nat (length msg) :: u32;
          len2 = of_nat (length msg2) :: u32;
          sz = len1 + (if len2 \<noteq> 0 then 2 + len2 else 0)
      in Some (EncodeFixed32 sz @ [Code_num c] @ take (unat len1) msg @
               (if len2 \<noteq> 0 then str '': '' @ take (unat len2) msg2 else [])))"

definition NotFound :: "slice \<Rightarrow> slice \<Rightarrow> Status" where
  "NotFound msg msg2 = new_Status kNotFound msg msg2"

definition Corruption :: "slice \<Rightarrow> slice \<Rightarrow> Status" where
  "Corruption msg msg2 = new_Status kCorruption msg msg2"

definition NotSupported :: "slice \<Rightarrow> slice \<Rightarrow> Status" where
  "NotSupported msg msg2 = new_Status kNotSupported msg msg2"

definition InvalidArgument :: "slice \<Rightarrow> slice \<Rightarrow> Status" where
  "InvalidArgument msg msg2 = new_Status kInvalidArgument msg msg2"

definition IOError :: "slice \<Rightarrow> slice \<Rightarrow> Status" where
  "IOError msg msg2 = new_Status kIOError msg msg2"

definition status_ok :: "Status \<Rightarrow> bool" where
  "status_ok s \<longleftrightarrow> s = None"

definition status_code :: "Status \<Rightarrow> byte" where
  "status_code s = (case s of None \<Rightarrow> Code_num kOk | Some st \<Rightarrow> st ! 4)"

definition IsNotFound :: "Status \<Rightarrow> bool" where
  "IsNotFound s \<longleftrightarrow> status_code s = Code_num kNotFound"

definition IsCorruption :: "Status \<Rightarrow> bool" where
  "IsCorruption s \<longleftrightarrow> status_code s = Code_num kCorruption"

definition IsIOError :: "Status \<Rightarrow> bool" where
  "IsIOError s \<longleftrightarrow> status_code s = Code_num kIOError"

definition CopyState :: "slice \<Rightarrow> slice" where
  "CopyState st = take (unat (DecodeFixed32 st + 5)) st"

definition copy_Status :: "Status \<Rightarrow> Status" where
  "copy_Status s = map_option CopyState s"

definition status_type_name :: "byte \<Rightarrow> slice" where
  "status_type_name c =
     (if c = Code_num kOk then str ''OK''
      else if c = Code_num kNotFound then str ''NotFound: ''
      else if c = Code_num kCorruption then str ''Corruption: ''
      else if c = Code_num kNotSupported then str ''Not implemented: ''
      else if c = Code_num kInvalidArgument then str ''Invalid argument: ''
      else if c = Code_num kIOError then str ''IO error: ''
      else str ''Unknown code('' @ dec_int (sint c) @ str ''): '')"

definition Status_ToString :: "Status \<Rightarrow> slice" where
  "Status_ToString s =
     (case s of
        None \<Rightarrow> str ''OK''
      | Some st \<Rightarrow> status_type_name (status_code s) @ take (unat (DecodeFixed32 st)) (drop 5 st))"

section \<open>What a status keeps\<close>

lemma status_ok_OK [simp]: "status_ok OK"
  by (simp add: status_ok_def OK_def)

lemma new_Status_not_ok [simp]: "\<not> status_ok (new_Status c msg msg2)"
  by (simp add: status_ok_def new_Status_def Let_def)

lemma status_code_new [simp]: "status_code (new_Status c msg msg2) = Code_num c"
  by (simp add: status_code_def new_Status_def Let_def nth_append)

lemmas status_constructors = NotFound_def Corruption_def NotSupported_def InvalidArgument_def IOError_def

definition status_message :: "slice \<Rightarrow> slice \<Rightarrow> slice" where
  "status_message msg msg2 = msg @ (if msg2 = [] then [] else str '': '' @ msg2)"

lemma new_Status_state:
  assumes "length msg + length msg2 + 7 < 2 ^ 32"
  shows "new_Status c msg msg2 = Some (EncodeFixed32 (of_nat (length (status_message msg msg2))) @
      [Code_num c] @ status_message msg msg2)"
proof -
  have "unat (of_nat (length m) :: u32) = length m" if "length m < 2 ^ 32" for m :: slice
    using that by simp
  moreover have "(of_nat (length msg2) :: u32) = 0 \<longleftrightarrow> msg2 = []"
    using assms by (simp add: word_unat_eq_iff)
  ultimately show ?thesis
    using assms by (simp add: new_Status_def Let_def status_message_def)
qed

lemma copy_new_Status:
  assumes "length msg + length msg2 + 7 < 2 ^ 32"
  shows "copy_Status (new_Status c msg msg2) = new_Status c msg msg2"
proof -
  let ?m = "status_message msg msg2"
  have "length ?m + 5 < 2 ^ 32" using assms by (simp add: status_message_def)
  then have "unat ((of_nat (length ?m) :: u32) + 5) = length ?m + 5"
    using unat_add_lem [THEN iffD1, of "of_nat (length ?m) :: u32" 5] by simp
  then show ?thesis
    by (simp add: copy_Status_def CopyState_def new_Status_state [OF assms] codec_simps)
qed

lemma Status_ToString_new:
  assumes "length msg + length msg2 + 7 < 2 ^ 32"
  shows "Status_ToString (new_Status c msg msg2) =
    status_type_name (Code_num c) @ status_message msg msg2"
proof -
  let ?m = "status_message msg msg2"
  have "length ?m < 2 ^ 32" using assms by (simp add: status_message_def)
  then show ?thesis
    using status_code_new [of c msg msg2]
    by (simp add: Status_ToString_def new_Status_state [OF assms] codec_simps)
qed

end
