(* ===== verification/Filename.thy ===== *)
theory Filename
  imports Comparator Logging Status
begin

text \<open>
  \<^verbatim>\<open>db/filename.cc\<close>: the names of the files of a database, the parser for them, and the
  switch of the \<^verbatim>\<open>CURRENT\<close> file to a new manifest, over the environment's operations as
  arguments.
\<close>

datatype FileType = kLogFile | kDBLockFile | kTableFile | kDescriptorFile | kCurrentFile | kTempFile | kInfoLogFile

text \<open>\<^verbatim>\<open>%06llu\<close>\<close>

definition dec6 :: "u64 \<Rightarrow> slice" where
  "dec6 n = replicate (6 - length (dec_digits (unat n))) 0x30 @ dec_digits (unat n)"

definition MakeFileName :: "slice \<Rightarrow> u64 \<Rightarrow> slice \<Rightarrow> slice" where
  "MakeFileName name number suffix = name @ str ''/'' @ dec6 number @ str ''.'' @ suffix"

definition LogFileName :: "slice \<Rightarrow> u64 \<Rightarrow> slice" where
  "LogFileName name number = MakeFileName name number (str ''log'')"

definition TableFileName :: "slice \<Rightarrow> u64 \<Rightarrow> slice" where
  "TableFileName name number = MakeFileName name number (str ''sst'')"

definition LDBTableFileName :: "slice \<Rightarrow> u64 \<Rightarrow> slice" where
  "LDBTableFileName name number = MakeFileName name number (str ''ldb'')"

definition DescriptorFileName :: "slice \<Rightarrow> u64 \<Rightarrow> slice" where
  "DescriptorFileName dbname number = dbname @ str ''/MANIFEST-'' @ dec6 number"

definition CurrentFileName :: "slice \<Rightarrow> slice" where
  "CurrentFileName dbname = dbname @ str ''/CURRENT''"

definition LockFileName :: "slice \<Rightarrow> slice" where
  "LockFileName dbname = dbname @ str ''/LOCK''"

definition TempFileName :: "slice \<Rightarrow> u64 \<Rightarrow> slice" where
  "TempFileName dbname number = MakeFileName dbname number (str ''dbtmp'')"

definition InfoLogFileName :: "slice \<Rightarrow> slice" where
  "InfoLogFileName dbname = dbname @ str ''/LOG''"

definition OldInfoLogFileName :: "slice \<Rightarrow> slice" where
  "OldInfoLogFileName dbname = dbname @ str ''/LOG.old''"

text \<open>The number and the type, where the code returns true; it sets neither where it returns
  false.\<close>

definition ParseFileName :: "slice \<Rightarrow> (u64 \<times> FileType) option" where
  "ParseFileName fname =
     (let rest = fname
      in if Slice_eq rest (str ''CURRENT'') then Some (0, kCurrentFile)
         else if Slice_eq rest (str ''LOCK'') then Some (0, kDBLockFile)
         else if Slice_eq rest (str ''LOG'') \<or> Slice_eq rest (str ''LOG.old'') then Some (0, kInfoLogFile)
         else if starts_with rest (str ''MANIFEST-'')
         then (case ConsumeDecimalNumber (remove_prefix rest (length (str ''MANIFEST-''))) 0 of
                 (ok, rest, num) \<Rightarrow>
                   if \<not> ok then None else if rest \<noteq> [] then None else Some (num, kDescriptorFile))
         else (case ConsumeDecimalNumber rest 0 of
                 (ok, suffix, num) \<Rightarrow>
                   if \<not> ok then None
                   else if Slice_eq suffix (str ''.log'') then Some (num, kLogFile)
                   else if Slice_eq suffix (str ''.sst'') \<or> Slice_eq suffix (str ''.ldb'') then Some (num, kTableFile)
                   else if Slice_eq suffix (str ''.dbtmp'') then Some (num, kTempFile)
                   else None))"

definition SetCurrentFile ::
  "('e \<Rightarrow> slice \<Rightarrow> slice \<Rightarrow> Status \<times> 'e) \<Rightarrow> ('e \<Rightarrow> slice \<Rightarrow> slice \<Rightarrow> Status \<times> 'e) \<Rightarrow> ('e \<Rightarrow> slice \<Rightarrow> Status \<times> 'e)
   \<Rightarrow> 'e \<Rightarrow> slice \<Rightarrow> u64 \<Rightarrow> Status \<times> 'e"
where
  "SetCurrentFile write_sync rename_file delete_file env dbname descriptor_number =
     (let manifest = DescriptorFileName dbname descriptor_number;
          contents = remove_prefix manifest (length dbname + 1);
          tmp = TempFileName dbname descriptor_number;
          (s, env) = write_sync env (contents @ [0x0a]) tmp;
          (s, env) = (if status_ok s then rename_file env tmp (CurrentFileName dbname) else (s, env))
      in if \<not> status_ok s then (s, snd (delete_file env tmp)) else (s, env))"

section \<open>Names and their parser\<close>

lemma str_Cons [simp]: "str (c # s) = of_char c # str s" "str [] = []"
  by (simp_all add: str_def)

lemma dec6_digits: "list_all is_digit (dec6 n)" "dec6 n \<noteq> []"
  using dec_digits_props [of "unat n"] by (auto simp: dec6_def list_all_iff is_digit_def)

lemma ConsumeDecimalNumber_dec6:
  "rest = [] \<or> \<not> is_digit (hd rest) \<Longrightarrow> ConsumeDecimalNumber (dec6 n @ rest) val = (True, rest, n)"
  unfolding dec6_def append_assoc by (rule ConsumeDecimalNumber_padded)

lemma dec6_not_word: "is_digit (hd (dec6 n @ s))"
  using dec6_digits [of n] by (cases "dec6 n") simp_all

lemma ParseFileName_numbered:
  "ParseFileName (dec6 n @ s) =
    (if s = [] \<or> \<not> is_digit (hd s)
     then if s = str ''.log'' then Some (n, kLogFile)
          else if s = str ''.sst'' \<or> s = str ''.ldb'' then Some (n, kTableFile)
          else if s = str ''.dbtmp'' then Some (n, kTempFile) else None
     else ParseFileName (dec6 n @ s))"
proof (cases "s = [] \<or> \<not> is_digit (hd s)")
  case True
  have "dec6 n @ s \<noteq> c # t" if "\<not> is_digit c" for c t
    using dec6_not_word [of n s] that by (metis list.sel(1))
  then have "dec6 n @ s \<noteq> str ''CURRENT''" "dec6 n @ s \<noteq> str ''LOCK''" "dec6 n @ s \<noteq> str ''LOG''"
    "dec6 n @ s \<noteq> str ''LOG.old''" "\<not> starts_with (dec6 n @ s) (str ''MANIFEST-'')"
    by (simp_all add: starts_with_iff is_digit_def)
  then show ?thesis
    using ConsumeDecimalNumber_dec6 [OF True, of n 0] True by (simp add: ParseFileName_def)
qed simp

lemma ParseFileName_manifest: "ParseFileName (str ''MANIFEST-'' @ dec6 n) = Some (n, kDescriptorFile)"
  using ConsumeDecimalNumber_dec6 [of "[]" n 0]
  by (simp add: ParseFileName_def starts_with_iff remove_prefix_def)


end
