(* ===== verification/DbFormat.thy ===== *)
theory DbFormat
  imports Comparator Logging
begin

text \<open>
  \<^verbatim>\<open>db/dbformat.h\<close> and \<^verbatim>\<open>db/dbformat.cc\<close>: internal keys (a user key followed by eight bytes
  with sequence number and type), their order over an arbitrary user comparator, and the keys
  used for lookups. The internal comparator again satisfies the contracts \<open>comparator\<close> and
  \<open>separator\<close> whenever the user comparator does.
\<close>

section \<open>Constants and types\<close>

definition kNumLevels :: nat where "kNumLevels = 7"
definition kL0_CompactionTrigger :: nat where "kL0_CompactionTrigger = 4"
definition kL0_SlowdownWritesTrigger :: nat where "kL0_SlowdownWritesTrigger = 8"
definition kL0_StopWritesTrigger :: nat where "kL0_StopWritesTrigger = 12"
definition kMaxMemCompactLevel :: nat where "kMaxMemCompactLevel = 2"

text \<open>A \<^verbatim>\<open>ValueType\<close> is made from any byte by \<^verbatim>\<open>static_cast\<close>, so it is a byte here.\<close>

type_synonym ValueType = byte
type_synonym SequenceNumber = u64

definition kTypeDeletion :: ValueType where "kTypeDeletion = 0"
definition kTypeValue :: ValueType where "kTypeValue = 1"
definition kTypeGuard :: ValueType where "kTypeGuard = 2"
definition kValueTypeForSeek :: ValueType where "kValueTypeForSeek = kTypeValue"

lemmas ValueType_defs = kTypeDeletion_def kTypeValue_def kTypeGuard_def kValueTypeForSeek_def

definition kMaxSequenceNumber :: SequenceNumber where
  "kMaxSequenceNumber = push_bit 56 1 - 1"

record ParsedInternalKey =
  pk_user_key :: slice
  pk_sequence :: SequenceNumber
  pk_type :: ValueType

section \<open>Operations\<close>

definition PackSequenceAndType :: "u64 \<Rightarrow> ValueType \<Rightarrow> u64" where
  "PackSequenceAndType seq t = push_bit 8 seq OR ucast t"

definition InternalKeyEncodingLength :: "ParsedInternalKey \<Rightarrow> nat" where
  "InternalKeyEncodingLength key = length (pk_user_key key) + 8"

definition AppendInternalKey :: "slice \<Rightarrow> ParsedInternalKey \<Rightarrow> slice" where
  "AppendInternalKey result key =
     PutFixed64 (result @ pk_user_key key) (PackSequenceAndType (pk_sequence key) (pk_type key))"

definition ExtractUserKey :: "slice \<Rightarrow> slice" where
  "ExtractUserKey internal_key = take (length internal_key - 8) internal_key"

definition ExtractValueType :: "slice \<Rightarrow> ValueType" where
  "ExtractValueType internal_key =
     (let num = DecodeFixed64 (drop (length internal_key - 8) internal_key) in ucast (num AND 0xff))"

definition ParseInternalKey :: "slice \<Rightarrow> ParsedInternalKey \<Rightarrow> bool \<times> ParsedInternalKey" where
  "ParseInternalKey internal_key result =
     (let n = length internal_key
      in if n < 8 then (False, result)
         else let num = DecodeFixed64 (drop (n - 8) internal_key);
                  c = ucast (num AND 0xff) :: byte
              in (c \<le> kTypeValue,
                  \<lparr>pk_user_key = take (n - 8) internal_key, pk_sequence = drop_bit 8 num, pk_type = c\<rparr>))"

definition ParsedInternalKey_DebugString :: "ParsedInternalKey \<Rightarrow> slice" where
  "ParsedInternalKey_DebugString key =
     [0x27] @ EscapeString (pk_user_key key) @ [0x27] @ str '' @ '' @ dec_digits (unat (pk_sequence key)) @
     str '' : '' @ dec_digits (unat (pk_type key))"

text \<open>\<^verbatim>\<open>InternalKey\<close> wraps the string \<^verbatim>\<open>rep_\<close>; it is that string here.\<close>

definition new_InternalKey :: "slice \<Rightarrow> SequenceNumber \<Rightarrow> ValueType \<Rightarrow> slice" where
  "new_InternalKey user_key s t =
     AppendInternalKey [] \<lparr>pk_user_key = user_key, pk_sequence = s, pk_type = t\<rparr>"

definition InternalKey_DebugString :: "slice \<Rightarrow> slice" where
  "InternalKey_DebugString rep =
     (case ParseInternalKey rep \<lparr>pk_user_key = [], pk_sequence = 0, pk_type = 0\<rparr> of
        (ok, parsed) \<Rightarrow> if ok then ParsedInternalKey_DebugString parsed else str ''(bad)'' @ EscapeString rep)"

definition InternalKey_Compare :: "(slice \<Rightarrow> slice \<Rightarrow> int) \<Rightarrow> slice \<Rightarrow> slice \<Rightarrow> int" where
  "InternalKey_Compare user_compare akey bkey =
     (let r = user_compare (ExtractUserKey akey) (ExtractUserKey bkey)
      in if r = 0
         then let anum = DecodeFixed64 (drop (length akey - 8) akey);
                  bnum = DecodeFixed64 (drop (length bkey - 8) bkey)
              in if bnum < anum then - 1 else if anum < bnum then 1 else r
         else r)"

definition InternalKey_FindShortestSeparator ::
  "(slice \<Rightarrow> slice \<Rightarrow> int) \<Rightarrow> (slice \<Rightarrow> slice \<Rightarrow> slice) \<Rightarrow> slice \<Rightarrow> slice \<Rightarrow> slice"
where
  "InternalKey_FindShortestSeparator user_compare user_sep start limit =
     (let user_start = ExtractUserKey start;
          user_limit = ExtractUserKey limit;
          tmp = user_sep user_start user_limit
      in if length tmp < length user_start \<and> user_compare user_start tmp < 0
         then PutFixed64 tmp (PackSequenceAndType kMaxSequenceNumber kValueTypeForSeek)
         else start)"

definition InternalKey_FindShortSuccessor ::
  "(slice \<Rightarrow> slice \<Rightarrow> int) \<Rightarrow> (slice \<Rightarrow> slice) \<Rightarrow> slice \<Rightarrow> slice"
where
  "InternalKey_FindShortSuccessor user_compare user_succ key =
     (let user_key = ExtractUserKey key;
          tmp = user_succ user_key
      in if length tmp < length user_key \<and> user_compare user_key tmp < 0
         then PutFixed64 tmp (PackSequenceAndType kMaxSequenceNumber kValueTypeForSeek)
         else key)"

text \<open>The array of a \<^verbatim>\<open>LookupKey\<close> and the position of \<^verbatim>\<open>kstart_\<close> in it.\<close>

record LookupKey =
  lk_array :: slice
  lk_kstart :: nat

definition new_LookupKey :: "slice \<Rightarrow> SequenceNumber \<Rightarrow> LookupKey" where
  "new_LookupKey ukey s =
     (let usize = length ukey;
          len = EncodeVarint32 (of_nat (usize + 8));
          tag = EncodeFixed64 (PackSequenceAndType s kValueTypeForSeek)
      in \<lparr>lk_array = len @ ukey @ tag, lk_kstart = length len\<rparr>)"

definition memtable_key :: "LookupKey \<Rightarrow> slice" where
  "memtable_key k = lk_array k"

definition internal_key :: "LookupKey \<Rightarrow> slice" where
  "internal_key k = drop (lk_kstart k) (lk_array k)"

definition user_key :: "LookupKey \<Rightarrow> slice" where
  "user_key k = take (length (lk_array k) - lk_kstart k - 8) (drop (lk_kstart k) (lk_array k))"

section \<open>Tags\<close>

lemma unat_PackSequenceAndType:
  "seq \<le> kMaxSequenceNumber \<Longrightarrow> unat (PackSequenceAndType seq t) = unat seq * 256 + unat t"
  unfolding PackSequenceAndType_def
  by (rule byte_shift_or) (simp add: kMaxSequenceNumber_def word_le_nat_alt)

lemma PackSequenceAndType_byte: "(ucast (PackSequenceAndType seq t) :: byte) = t"
  by (intro bit_word_eqI) (auto simp: PackSequenceAndType_def bit_simps and_255)

lemma PackSequenceAndType_seq: "seq \<le> kMaxSequenceNumber \<Longrightarrow> drop_bit 8 (PackSequenceAndType seq t) = seq"
proof -
  assume "seq \<le> kMaxSequenceNumber"
  then have "unat seq < 2 ^ 56" by (simp add: kMaxSequenceNumber_def word_le_nat_alt)
  from bit_imp_less_exp [OF this] show ?thesis
    by (intro bit_word_eqI) (auto simp: PackSequenceAndType_def bit_simps dest: bit_imp_le_length)
qed

lemma PackSequenceAndType_max:
  "seq \<le> kMaxSequenceNumber \<Longrightarrow> t \<le> kTypeValue \<Longrightarrow>
   PackSequenceAndType seq t \<le> PackSequenceAndType kMaxSequenceNumber kValueTypeForSeek"
proof -
  assume "seq \<le> kMaxSequenceNumber" "t \<le> kTypeValue"
  then have "unat seq \<le> unat kMaxSequenceNumber" "unat t \<le> 1" by (simp_all add: word_le_nat_alt ValueType_defs)
  then show ?thesis
    unfolding word_le_nat_alt unat_PackSequenceAndType [OF \<open>seq \<le> kMaxSequenceNumber\<close>]
      unat_PackSequenceAndType [OF order.refl] by (simp add: ValueType_defs)
qed

section \<open>Internal keys\<close>

abbreviation ikey :: "slice \<Rightarrow> SequenceNumber \<Rightarrow> ValueType \<Rightarrow> slice" where
  "ikey u s t \<equiv> u @ EncodeFixed64 (PackSequenceAndType s t)"

definition key_tag :: "slice \<Rightarrow> u64" where
  "key_tag k = DecodeFixed64 (drop (length k - 8) k)"

lemma new_InternalKey_ikey: "new_InternalKey u s t = ikey u s t"
  by (simp add: new_InternalKey_def AppendInternalKey_def PutFixed64_def)

lemma ikey_parts [simp]:
  "ExtractUserKey (u @ EncodeFixed64 n) = u" "key_tag (u @ EncodeFixed64 n) = n"
  using DecodeFixed64_EncodeFixed64 [of n "[]"] by (simp_all add: ExtractUserKey_def key_tag_def)

lemma new_InternalKey_parts [simp]:
  "ExtractUserKey (new_InternalKey u s t) = u" "key_tag (new_InternalKey u s t) = PackSequenceAndType s t"
  by (simp_all add: new_InternalKey_ikey)

lemma ParseInternalKey_ikey:
  "s \<le> kMaxSequenceNumber \<Longrightarrow> ParseInternalKey (ikey u s t) res =
    (t \<le> kTypeValue, \<lparr>pk_user_key = u, pk_sequence = s, pk_type = t\<rparr>)"
  using DecodeFixed64_EncodeFixed64 [of "PackSequenceAndType s t" "[]"]
  by (simp add: ParseInternalKey_def Let_def PackSequenceAndType_byte PackSequenceAndType_seq)

definition valid_ikey :: "slice \<Rightarrow> bool" where
  "valid_ikey k \<longleftrightarrow> 8 \<le> length k \<and> key_tag k \<le> PackSequenceAndType kMaxSequenceNumber kValueTypeForSeek"

lemma InternalKey_Compare_tag: "InternalKey_Compare c a b =
    (let r = c (ExtractUserKey a) (ExtractUserKey b)
     in if r = 0 then (if key_tag b < key_tag a then - 1 else if key_tag a < key_tag b then 1 else r) else r)"
  by (simp add: InternalKey_Compare_def key_tag_def Let_def)

lemma isep_length: "valid_ikey s \<Longrightarrow> length (InternalKey_FindShortestSeparator ucmp usep s l) \<le> length s"
  by (auto simp: InternalKey_FindShortestSeparator_def Let_def PutFixed64_def ExtractUserKey_def valid_ikey_def)

lemma isucc_length: "valid_ikey s \<Longrightarrow> length (InternalKey_FindShortSuccessor ucmp usucc s) \<le> length s"
  by (auto simp: InternalKey_FindShortSuccessor_def Let_def PutFixed64_def ExtractUserKey_def valid_ikey_def)

lemma sgn_minus_iff: "sgn y = - sgn x \<longleftrightarrow> (x < 0 \<longleftrightarrow> 0 < y) \<and> (0 < x \<longleftrightarrow> y < 0)" for x y :: int
  by (auto simp: sgn_if)

text \<open>Any user comparator gives an order on internal keys with the same contract.\<close>

locale user_comparator = separator "\<lambda>_. True" ucmp usep usucc
  for ucmp :: "slice \<Rightarrow> slice \<Rightarrow> int" and usep :: "slice \<Rightarrow> slice \<Rightarrow> slice" and usucc :: "slice \<Rightarrow> slice"
begin

abbreviation icmp :: "slice \<Rightarrow> slice \<Rightarrow> int" where
  "icmp \<equiv> InternalKey_Compare ucmp"

lemma icmp_less: "icmp a b < 0 \<longleftrightarrow> ucmp (ExtractUserKey a) (ExtractUserKey b) < 0 \<or>
    ucmp (ExtractUserKey a) (ExtractUserKey b) = 0 \<and> key_tag b < key_tag a"
  by (auto simp: InternalKey_Compare_tag Let_def)

lemma icmp_le: "icmp a b \<le> 0 \<longleftrightarrow> ucmp (ExtractUserKey a) (ExtractUserKey b) < 0 \<or>
    ucmp (ExtractUserKey a) (ExtractUserKey b) = 0 \<and> key_tag b \<le> key_tag a"
  by (auto simp: InternalKey_Compare_tag Let_def)

lemma icmp_eq: "icmp a b = 0 \<longleftrightarrow> ucmp (ExtractUserKey a) (ExtractUserKey b) = 0 \<and> key_tag a = key_tag b"
  by (auto simp: InternalKey_Compare_tag Let_def)

lemma icmp_antisym: "sgn (icmp b a) = - sgn (icmp a b)"
  using cmp_swap [of "ExtractUserKey a" "ExtractUserKey b"]
  by (auto simp: InternalKey_Compare_tag Let_def sgn_minus_iff)

lemma icmp_trans:
  assumes ab: "icmp a b \<le> 0" and bc: "icmp b c \<le> 0"
  shows "icmp a c \<le> 0"
proof -
  let ?a = "ExtractUserKey a" and ?b = "ExtractUserKey b" and ?c = "ExtractUserKey c"
  consider "ucmp ?a ?b < 0 \<or> ucmp ?b ?c < 0"
    | "ucmp ?a ?b = 0" "ucmp ?b ?c = 0" "key_tag c \<le> key_tag a"
    using ab bc unfolding icmp_le by fastforce
  then show ?thesis
  proof cases
    case 1
    then have "ucmp ?a ?c < 0"
      using ab bc cmp_less_le_trans [of ?a ?b ?c] cmp_le_less_trans [of ?a ?b ?c] unfolding icmp_le by auto
    then show ?thesis by (simp add: icmp_le)
  next
    case 2
    then have "ucmp ?a ?c \<le> 0" "ucmp ?c ?a \<le> 0"
      using cmp_trans [of ?a ?b ?c] cmp_trans [of ?c ?b ?a] cmp_swap [of ?a ?b] cmp_swap [of ?b ?c] by auto
    then show ?thesis using 2 cmp_swap [of ?a ?c] by (auto simp: icmp_le)
  qed
qed

lemma isep_cases:
  obtains (same) "InternalKey_FindShortestSeparator ucmp usep s l = s"
  | (shorter) u where "InternalKey_FindShortestSeparator ucmp usep s l = ikey u kMaxSequenceNumber kValueTypeForSeek"
      "ucmp (ExtractUserKey s) u < 0" "u = usep (ExtractUserKey s) (ExtractUserKey l)" "u \<noteq> ExtractUserKey s"
proof -
  let ?u = "usep (ExtractUserKey s) (ExtractUserKey l)"
  consider "length ?u < length (ExtractUserKey s) \<and> ucmp (ExtractUserKey s) ?u < 0"
    | "\<not> (length ?u < length (ExtractUserKey s) \<and> ucmp (ExtractUserKey s) ?u < 0)" by blast
  then show thesis
  proof cases
    case 1
    then have "?u \<noteq> ExtractUserKey s" by auto
    with 1 show thesis
      using shorter [of ?u] by (auto simp: InternalKey_FindShortestSeparator_def Let_def PutFixed64_def)
  next
    case 2
    then show thesis using same by (simp only: InternalKey_FindShortestSeparator_def Let_def if_False)
  qed
qed

lemma isucc_cases:
  obtains (same) "InternalKey_FindShortSuccessor ucmp usucc s = s"
  | (shorter) u where "InternalKey_FindShortSuccessor ucmp usucc s = ikey u kMaxSequenceNumber kValueTypeForSeek"
      "ucmp (ExtractUserKey s) u < 0"
proof -
  let ?u = "usucc (ExtractUserKey s)"
  consider "length ?u < length (ExtractUserKey s) \<and> ucmp (ExtractUserKey s) ?u < 0"
    | "\<not> (length ?u < length (ExtractUserKey s) \<and> ucmp (ExtractUserKey s) ?u < 0)" by blast
  then show thesis
  proof cases
    case 1
    then show thesis
      using shorter [of ?u] by (simp add: InternalKey_FindShortSuccessor_def Let_def PutFixed64_def)
  next
    case 2
    then show thesis using same by (simp only: InternalKey_FindShortSuccessor_def Let_def if_False)
  qed
qed

end

sublocale user_comparator \<subseteq> ikeys: separator valid_ikey "InternalKey_Compare ucmp"
    "InternalKey_FindShortestSeparator ucmp usep" "InternalKey_FindShortSuccessor ucmp usucc"
proof (unfold_locales, goal_cases)
  case (1 a b)
  show ?case by (rule icmp_antisym)
next
  case (2 a b c)
  then show ?case using icmp_trans by blast
next
  case (3 s l)
  then show ?case by (cases rule: isep_cases [where s = s and l = l]) (simp_all add: valid_ikey_def)
next
  case (4 s)
  then show ?case by (cases rule: isucc_cases [where s = s]) (simp_all add: valid_ikey_def)
next
  case (5 s l)
  show ?case
  proof (cases rule: isep_cases [where s = s and l = l])
    case same
    then show ?thesis using 5 by (simp add: icmp_le)
  next
    case (shorter u)
    then have "ucmp (ExtractUserKey s) (ExtractUserKey l) < 0"
      using 5 sep_same [of "ExtractUserKey s" "ExtractUserKey l"] by (auto simp: icmp_less)
    then show ?thesis
      using shorter sep_between [of "ExtractUserKey s" "ExtractUserKey l"] by (simp add: icmp_less icmp_le)
  qed
next
  case (6 s l)
  then show ?case
    using sep_same [of "ExtractUserKey s" "ExtractUserKey l"]
    by (cases rule: isep_cases [where s = s and l = l]) (auto simp: icmp_eq)
next
  case (7 s)
  then show ?case by (cases rule: isucc_cases [where s = s]) (simp_all add: icmp_le)
qed

interpretation bytewise_db: user_comparator Bytewise_Compare Bytewise_FindShortestSeparator Bytewise_FindShortSuccessor
  by unfold_locales

section \<open>Lookups\<close>

lemma LookupKey_parts:
  "internal_key (new_LookupKey u s) = ikey u s kValueTypeForSeek" "user_key (new_LookupKey u s) = u"
  "memtable_key (new_LookupKey u s) = EncodeVarint32 (of_nat (length u + 8)) @ ikey u s kValueTypeForSeek"
  by (simp_all add: internal_key_def user_key_def memtable_key_def new_LookupKey_def Let_def)





text \<open>C13. The separator the table builder puts between two internal keys is not below the
  first, below the second, and not longer than the first; the successor it puts after the last key
  is not below it and not longer.\<close>

theorem index_separator_correct:
  assumes "valid_ikey s" "valid_ikey l" "InternalKey_Compare Bytewise_Compare s l < 0"
  shows "InternalKey_Compare Bytewise_Compare s
      (InternalKey_FindShortestSeparator Bytewise_Compare Bytewise_FindShortestSeparator s l) \<le> 0 \<and>
    InternalKey_Compare Bytewise_Compare
      (InternalKey_FindShortestSeparator Bytewise_Compare Bytewise_FindShortestSeparator s l) l < 0 \<and>
    length (InternalKey_FindShortestSeparator Bytewise_Compare Bytewise_FindShortestSeparator s l) \<le> length s \<and>
    InternalKey_Compare Bytewise_Compare s
      (InternalKey_FindShortSuccessor Bytewise_Compare Bytewise_FindShortSuccessor s) \<le> 0 \<and>
    length (InternalKey_FindShortSuccessor Bytewise_Compare Bytewise_FindShortSuccessor s) \<le> length s"
  using bytewise_db.ikeys.sep_between [OF assms] bytewise_db.ikeys.succ_above [OF assms(1)]
    isep_length [OF assms(1)] isucc_length [OF assms(1)] by blast

theorem index_separator_correct_witness:
  "InternalKey_Compare Bytewise_Compare
      (InternalKey_FindShortestSeparator Bytewise_Compare Bytewise_FindShortestSeparator
        (new_InternalKey [1, 2, 3] 7 kTypeValue) (new_InternalKey [1, 9] 4 kTypeValue))
      (new_InternalKey [1, 9] 4 kTypeValue) < 0"
proof -
  have v: "valid_ikey (new_InternalKey u s kTypeValue)" if "s \<le> kMaxSequenceNumber" for u s
    using that PackSequenceAndType_max [of s kTypeValue] by (simp add: valid_ikey_def new_InternalKey_ikey)
  have "7 \<le> kMaxSequenceNumber" "4 \<le> kMaxSequenceNumber" by (simp_all add: kMaxSequenceNumber_def)
  moreover have "InternalKey_Compare Bytewise_Compare (new_InternalKey [1, 2, 3] 7 kTypeValue) (new_InternalKey [1, 9] 4 kTypeValue) < 0"
    by (simp add: bytewise_db.icmp_less Bytewise_Compare_def Slice_compare_lexcmp)
  ultimately show ?thesis
    using index_separator_correct [OF v v, of 7 4 "[1, 2, 3]" "[1, 9]"] by blast
qed

end
