(* ===== verification/VersionEdit.thy ===== *)
theory VersionEdit
  imports DbFormat Status "HOL-Library.Product_Lexorder" "HOL-Library.Monad_Syntax"
begin

text \<open>
  \<^verbatim>\<open>db/version_edit.h\<close> and \<^verbatim>\<open>db/version_edit.cc\<close>: the changes from one version of the database
  to the next, and their serialization in the manifest. A pointer is an address or \<open>None\<close>;
  a \<^verbatim>\<open>std::set\<close> is its ordered list; an array over the levels is a list of length
  \<open>kNumLevels\<close>. \<^verbatim>\<open>DecodeFrom\<close> returns \<open>None\<close> where the program dies: the order of
  \<^verbatim>\<open>deleted_guards_\<close> calls a comparator through a null pointer for two keys of one level,
  and some assertions can fail.
\<close>

section \<open>State\<close>

record FileMetaData =
  fm_refs :: int
  fm_allowed_seeks :: int
  fm_number :: u64
  fm_file_size :: u64
  fm_smallest :: slice
  fm_largest :: slice
  fm_guard :: "nat option"

definition new_FileMetaData :: FileMetaData where
  "new_FileMetaData = \<lparr>fm_refs = 0, fm_allowed_seeks = 2 ^ 30, fm_number = 0, fm_file_size = 0,
     fm_smallest = [], fm_largest = [], fm_guard = None\<rparr>"

record GuardMetaData =
  gm_refs :: int
  gm_level :: int
  gm_number_segments :: u64
  gm_guard_key :: slice
  gm_smallest :: slice
  gm_largest :: slice
  gm_files :: "u64 list"
  gm_file_metas :: "nat list"

definition new_GuardMetaData :: GuardMetaData where
  "new_GuardMetaData = \<lparr>gm_refs = 0, gm_level = - 1, gm_number_segments = 0, gm_guard_key = [],
     gm_smallest = [], gm_largest = [], gm_files = [], gm_file_metas = []\<rparr>"

record VersionEdit =
  ve_comparator :: slice
  ve_log_number :: u64
  ve_prev_log_number :: u64
  ve_next_file_number :: u64
  ve_last_sequence :: SequenceNumber
  ve_has_comparator :: bool
  ve_has_log_number :: bool
  ve_has_prev_log_number :: bool
  ve_has_next_file_number :: bool
  ve_has_last_sequence :: bool
  ve_compact_pointers :: "(int \<times> slice) list"
  ve_deleted_files :: "(int \<times> u64) list"
  ve_new_files :: "(int \<times> FileMetaData) list"
  ve_sentinel_files :: "FileMetaData list list"
  ve_sentinel_file_nos :: "u64 list list"
  ve_deleted_sentinel_files :: "(int \<times> u64) list"
  ve_new_guards :: "GuardMetaData list list"
  ve_new_complete_guards :: "GuardMetaData list list"
  ve_deleted_guards :: "(int \<times> slice) list"

definition VersionEdit_Clear :: "VersionEdit \<Rightarrow> VersionEdit" where
  "VersionEdit_Clear e = e\<lparr>ve_comparator := [], ve_log_number := 0, ve_prev_log_number := 0,
     ve_last_sequence := 0, ve_next_file_number := 0, ve_has_comparator := False,
     ve_has_log_number := False, ve_has_prev_log_number := False, ve_has_next_file_number := False,
     ve_has_last_sequence := False, ve_deleted_files := [], ve_new_files := [],
     ve_deleted_guards := [], ve_new_guards := replicate kNumLevels [],
     ve_sentinel_files := replicate kNumLevels [], ve_deleted_sentinel_files := []\<rparr>"

definition new_VersionEdit :: VersionEdit where
  "new_VersionEdit = VersionEdit_Clear
     \<lparr>ve_comparator = [], ve_log_number = 0, ve_prev_log_number = 0, ve_next_file_number = 0,
      ve_last_sequence = 0, ve_has_comparator = False, ve_has_log_number = False,
      ve_has_prev_log_number = False, ve_has_next_file_number = False, ve_has_last_sequence = False,
      ve_compact_pointers = [], ve_deleted_files = [], ve_new_files = [],
      ve_sentinel_files = replicate kNumLevels [], ve_sentinel_file_nos = replicate kNumLevels [],
      ve_deleted_sentinel_files = [], ve_new_guards = replicate kNumLevels [],
      ve_new_complete_guards = replicate kNumLevels [], ve_deleted_guards = []\<rparr>"

section \<open>Setters\<close>

definition SetComparatorName :: "VersionEdit \<Rightarrow> slice \<Rightarrow> VersionEdit" where
  "SetComparatorName e name = e\<lparr>ve_has_comparator := True, ve_comparator := name\<rparr>"

definition SetLogNumber :: "VersionEdit \<Rightarrow> u64 \<Rightarrow> VersionEdit" where
  "SetLogNumber e num = e\<lparr>ve_has_log_number := True, ve_log_number := num\<rparr>"

definition SetPrevLogNumber :: "VersionEdit \<Rightarrow> u64 \<Rightarrow> VersionEdit" where
  "SetPrevLogNumber e num = e\<lparr>ve_has_prev_log_number := True, ve_prev_log_number := num\<rparr>"

definition SetNextFile :: "VersionEdit \<Rightarrow> u64 \<Rightarrow> VersionEdit" where
  "SetNextFile e num = e\<lparr>ve_has_next_file_number := True, ve_next_file_number := num\<rparr>"

definition SetLastSequence :: "VersionEdit \<Rightarrow> SequenceNumber \<Rightarrow> VersionEdit" where
  "SetLastSequence e seq = e\<lparr>ve_has_last_sequence := True, ve_last_sequence := seq\<rparr>"

definition SetCompactPointer :: "VersionEdit \<Rightarrow> int \<Rightarrow> slice \<Rightarrow> VersionEdit" where
  "SetCompactPointer e level key = e\<lparr>ve_compact_pointers := ve_compact_pointers e @ [(level, key)]\<rparr>"

definition AddFile :: "VersionEdit \<Rightarrow> int \<Rightarrow> u64 \<Rightarrow> u64 \<Rightarrow> slice \<Rightarrow> slice \<Rightarrow> VersionEdit" where
  "AddFile e level file file_size smallest largest =
     e\<lparr>ve_new_files := ve_new_files e @
        [(level, new_FileMetaData\<lparr>fm_number := file, fm_file_size := file_size,
            fm_smallest := smallest, fm_largest := largest\<rparr>)]\<rparr>"

text \<open>Appending to one vector of an array over the levels.\<close>

definition push_level :: "'a list list \<Rightarrow> int \<Rightarrow> 'a \<Rightarrow> 'a list list" where
  "push_level vs level x = vs[nat level := vs ! nat level @ [x]]"

definition AddFileToSentinel :: "VersionEdit \<Rightarrow> FileMetaData \<Rightarrow> int \<Rightarrow> VersionEdit" where
  "AddFileToSentinel e f level = e\<lparr>ve_sentinel_files := push_level (ve_sentinel_files e) level f\<rparr>"

definition AddSentinelFile ::
  "VersionEdit \<Rightarrow> int \<Rightarrow> int \<Rightarrow> u64 \<Rightarrow> nat option \<Rightarrow> slice \<Rightarrow> slice \<Rightarrow> u64 \<Rightarrow> int \<Rightarrow> VersionEdit"
where
  "AddSentinelFile e level allowed_seeks file_size g largest smallest number refs =
     e\<lparr>ve_sentinel_files := push_level (ve_sentinel_files e) level
        (new_FileMetaData\<lparr>fm_allowed_seeks := allowed_seeks, fm_file_size := file_size, fm_guard := g,
           fm_largest := largest, fm_smallest := smallest, fm_number := number, fm_refs := refs\<rparr>)\<rparr>"

definition AddSentinelFileNo :: "VersionEdit \<Rightarrow> int \<Rightarrow> u64 \<Rightarrow> VersionEdit" where
  "AddSentinelFileNo e level number =
     e\<lparr>ve_sentinel_file_nos := push_level (ve_sentinel_file_nos e) level number\<rparr>"

definition AddGuard :: "VersionEdit \<Rightarrow> int \<Rightarrow> slice \<Rightarrow> VersionEdit" where
  "AddGuard e level guard_key =
     e\<lparr>ve_new_guards := push_level (ve_new_guards e) level
        (new_GuardMetaData\<lparr>gm_guard_key := guard_key, gm_level := level, gm_number_segments := 0\<rparr>)\<rparr>"

definition AddCompleteGuard :: "VersionEdit \<Rightarrow> int \<Rightarrow> slice \<Rightarrow> VersionEdit" where
  "AddCompleteGuard e level guard_key =
     e\<lparr>ve_new_complete_guards := push_level (ve_new_complete_guards e) level
        (new_GuardMetaData\<lparr>gm_guard_key := guard_key, gm_level := level, gm_number_segments := 0\<rparr>)\<rparr>"

definition AddGuardFromExisting :: "VersionEdit \<Rightarrow> int \<Rightarrow> GuardMetaData \<Rightarrow> VersionEdit" where
  "AddGuardFromExisting e level g = e\<lparr>ve_new_guards := push_level (ve_new_guards e) level g\<rparr>"

definition AddCompleteGuardFromExisting :: "VersionEdit \<Rightarrow> int \<Rightarrow> GuardMetaData \<Rightarrow> VersionEdit" where
  "AddCompleteGuardFromExisting e level g =
     e\<lparr>ve_new_complete_guards := push_level (ve_new_complete_guards e) level g\<rparr>"

definition AddGuardWithFiles ::
  "VersionEdit \<Rightarrow> int \<Rightarrow> u64 \<Rightarrow> slice \<Rightarrow> slice \<Rightarrow> slice \<Rightarrow> u64 list \<Rightarrow> VersionEdit"
where
  "AddGuardWithFiles e level number_segments guard_key smallest largest files =
     e\<lparr>ve_new_guards := push_level (ve_new_guards e) level
        (new_GuardMetaData\<lparr>gm_guard_key := guard_key, gm_level := level, gm_smallest := smallest,
           gm_largest := largest, gm_number_segments := number_segments, gm_files := files\<rparr>)\<rparr>"

definition edit_DeleteFile :: "VersionEdit \<Rightarrow> int \<Rightarrow> u64 \<Rightarrow> VersionEdit" where
  "edit_DeleteFile e level file = e\<lparr>ve_deleted_files := insort_insert (level, file) (ve_deleted_files e)\<rparr>"

definition DeleteSentinelFile :: "VersionEdit \<Rightarrow> int \<Rightarrow> u64 \<Rightarrow> VersionEdit" where
  "DeleteSentinelFile e level file =
     e\<lparr>ve_deleted_sentinel_files := insort_insert (level, file) (ve_deleted_sentinel_files e)\<rparr>"

text \<open>\<^verbatim>\<open>BySmallestPair\<close> orders by level; for equal levels it dereferences
  \<^verbatim>\<open>internal_comparator\<close>, which nothing sets.\<close>

definition BySmallestPair :: "int \<times> slice \<Rightarrow> int \<times> slice \<Rightarrow> bool option" where
  "BySmallestPair p1 p2 = (if fst p1 \<noteq> fst p2 then Some (fst p1 < fst p2) else None)"

fun guard_set_insert :: "int \<times> slice \<Rightarrow> (int \<times> slice) list \<Rightarrow> (int \<times> slice) list option" where
  "guard_set_insert x [] = Some [x]"
| "guard_set_insert x (y # ys) =
     do { b \<leftarrow> BySmallestPair x y;
          if b then Some (x # y # ys) else map_option (Cons y) (guard_set_insert x ys) }"

definition DeleteGuard :: "VersionEdit \<Rightarrow> int \<Rightarrow> slice \<Rightarrow> VersionEdit option" where
  "DeleteGuard e level guard =
     map_option (\<lambda>s. e\<lparr>ve_deleted_guards := s\<rparr>) (guard_set_insert (level, guard) (ve_deleted_guards e))"

definition UpdateGuards :: "VersionEdit \<Rightarrow> u64 list \<Rightarrow> u64 list" where
  "UpdateGuards e guard_array =
     map (\<lambda>i. guard_array ! i + of_nat (length (ve_new_guards e ! i))) [0..<kNumLevels] @ drop kNumLevels guard_array"

section \<open>Serialization\<close>

datatype EditTag = kComparator | kLogNumber | kNextFileNumber | kLastSequence | kCompactPointer
  | kDeletedFile | kNewFile | kPrevLogNumber | kDeletedGuard | kNewGuard | kFileInsideGuard
  | kNewSentinelFile | kDeletedSentinelFile | kNewCompleteGuard | kNewSentinelFileNo

fun EditTag_num :: "EditTag \<Rightarrow> u32" where
  "EditTag_num kComparator = 1"
| "EditTag_num kLogNumber = 2"
| "EditTag_num kNextFileNumber = 3"
| "EditTag_num kLastSequence = 4"
| "EditTag_num kCompactPointer = 5"
| "EditTag_num kDeletedFile = 6"
| "EditTag_num kNewFile = 7"
| "EditTag_num kPrevLogNumber = 9"
| "EditTag_num kDeletedGuard = 10"
| "EditTag_num kNewGuard = 11"
| "EditTag_num kFileInsideGuard = 12"
| "EditTag_num kNewSentinelFile = 13"
| "EditTag_num kDeletedSentinelFile = 14"
| "EditTag_num kNewCompleteGuard = 15"
| "EditTag_num kNewSentinelFileNo = 16"

definition PutTag :: "slice \<Rightarrow> EditTag \<Rightarrow> slice" where
  "PutTag dst t = PutVarint32 dst (EditTag_num t)"

definition PutLevel :: "slice \<Rightarrow> int \<Rightarrow> slice" where
  "PutLevel dst level = PutVarint32 dst (word_of_int level)"

definition put_deleted_files :: "EditTag \<Rightarrow> slice \<Rightarrow> (int \<times> u64) list \<Rightarrow> slice" where
  "put_deleted_files t dst fs = foldl (\<lambda>dst (level, n). PutVarint64 (PutLevel (PutTag dst t) level) n) dst fs"

definition put_guards :: "EditTag \<Rightarrow> slice \<Rightarrow> GuardMetaData list list \<Rightarrow> slice" where
  "put_guards t dst gss =
     foldl (\<lambda>dst k. foldl (\<lambda>dst g.
         PutLengthPrefixedSlice (PutVarint64 (PutLevel (PutTag dst t) (gm_level g)) 0) (gm_guard_key g))
       dst (gss ! k)) dst [0..<kNumLevels]"

definition EncodeTo :: "VersionEdit \<Rightarrow> slice \<Rightarrow> slice" where
  "EncodeTo e dst =
     (let dst = (if ve_has_comparator e
                 then PutLengthPrefixedSlice (PutTag dst kComparator) (ve_comparator e) else dst);
          dst = (if ve_has_log_number e then PutVarint64 (PutTag dst kLogNumber) (ve_log_number e) else dst);
          dst = (if ve_has_prev_log_number e
                 then PutVarint64 (PutTag dst kPrevLogNumber) (ve_prev_log_number e) else dst);
          dst = (if ve_has_next_file_number e
                 then PutVarint64 (PutTag dst kNextFileNumber) (ve_next_file_number e) else dst);
          dst = (if ve_has_last_sequence e
                 then PutVarint64 (PutTag dst kLastSequence) (ve_last_sequence e) else dst);
          dst = foldl (\<lambda>dst (level, key).
                  PutLengthPrefixedSlice (PutLevel (PutTag dst kCompactPointer) level) key)
                dst (ve_compact_pointers e);
          dst = put_deleted_files kDeletedFile dst (ve_deleted_files e);
          dst = foldl (\<lambda>dst (level, f).
                  PutLengthPrefixedSlice (PutLengthPrefixedSlice
                    (PutVarint64 (PutVarint64 (PutLevel (PutTag dst kNewFile) level) (fm_number f)) (fm_file_size f))
                    (fm_smallest f)) (fm_largest f))
                dst (ve_new_files e);
          dst = foldl (\<lambda>dst (level, key).
                  PutLengthPrefixedSlice (PutLevel (PutTag dst kDeletedGuard) level) key)
                dst (ve_deleted_guards e);
          dst = put_guards kNewGuard dst (ve_new_guards e);
          dst = put_guards kNewCompleteGuard dst (ve_new_complete_guards e)
      in put_deleted_files kDeletedSentinelFile dst (ve_deleted_sentinel_files e))"

definition GetInternalKey :: "slice \<Rightarrow> (slice \<times> slice) option" where
  "GetInternalKey input = GetLengthPrefixedSlice input"

definition GetLevel :: "slice \<Rightarrow> (int \<times> slice) option" where
  "GetLevel input =
     do { (v, input) \<leftarrow> GetVarint32 input;
          if v < of_nat kNumLevels then Some (uint v, input) else None }"

text \<open>The state of the decoding loop: the edit, and those of the local variables whose value
  can survive from one entry to a later one.\<close>

record decode_vars =
  dv_edit :: VersionEdit
  dv_g :: GuardMetaData
  dv_tag2 :: u32
  dv_fnumber :: u64

datatype decode_step = Entry slice decode_vars | Msg slice decode_vars | Dies

text \<open>The files of a guard; an unchecked read that fails leaves the variable as it is.\<close>

definition unchecked_varint32 :: "slice \<Rightarrow> u32 \<Rightarrow> u32 \<times> slice" where
  "unchecked_varint32 input old = (case GetVarint32 input of None \<Rightarrow> (old, input) | Some r \<Rightarrow> r)"

definition unchecked_varint64 :: "slice \<Rightarrow> u64 \<Rightarrow> u64 \<times> slice" where
  "unchecked_varint64 input old = (case GetVarint64 input of None \<Rightarrow> (old, input) | Some r \<Rightarrow> r)"

fun guard_files_loop :: "bool \<Rightarrow> nat \<Rightarrow> slice \<Rightarrow> decode_vars \<Rightarrow> (slice \<times> decode_vars) option" where
  "guard_files_loop ndebug 0 input v = Some (input, v)"
| "guard_files_loop ndebug (Suc n) input v =
     (case unchecked_varint32 input (dv_tag2 v) of (tag2, input) \<Rightarrow>
        if \<not> ndebug \<and> tag2 \<noteq> EditTag_num kFileInsideGuard then None
        else case unchecked_varint64 input (dv_fnumber v) of (fnumber, input) \<Rightarrow>
          guard_files_loop ndebug n input
            (v\<lparr>dv_tag2 := tag2, dv_fnumber := fnumber,
               dv_g := (dv_g v)\<lparr>gm_files := gm_files (dv_g v) @ [fnumber]\<rparr>\<rparr>))"

text \<open>The keys of a guard are read inside an assertion: with \<^verbatim>\<open>NDEBUG\<close> they are not read.\<close>

definition guard_keys :: "bool \<Rightarrow> slice \<Rightarrow> GuardMetaData \<Rightarrow> (slice \<times> GuardMetaData) option" where
  "guard_keys ndebug input g =
     (if ndebug then Some (input, g)
      else do { (smallest, input) \<leftarrow> GetInternalKey input;
                (largest, input) \<leftarrow> GetInternalKey input;
                Some (input, g\<lparr>gm_smallest := smallest, gm_largest := largest\<rparr>) })"

definition get_guard :: "slice \<Rightarrow> GuardMetaData \<Rightarrow> (slice \<times> GuardMetaData) option" where
  "get_guard input g =
     do { (level, input) \<leftarrow> GetLevel input;
          (number_segments, input) \<leftarrow> GetVarint64 input;
          (key, input) \<leftarrow> GetInternalKey input;
          Some (input, g\<lparr>gm_level := level, gm_number_segments := number_segments, gm_guard_key := key\<rparr>) }"

definition get_level_number :: "slice \<Rightarrow> (int \<times> u64 \<times> slice) option" where
  "get_level_number input =
     do { (level, input) \<leftarrow> GetLevel input; (n, input) \<leftarrow> GetVarint64 input; Some (level, n, input) }"

definition get_level_key :: "slice \<Rightarrow> (int \<times> slice \<times> slice) option" where
  "get_level_key input =
     do { (level, input) \<leftarrow> GetLevel input; (key, input) \<leftarrow> GetInternalKey input; Some (level, key, input) }"

definition get_file :: "slice \<Rightarrow> (int \<times> FileMetaData \<times> slice) option" where
  "get_file input =
     do { (level, input) \<leftarrow> GetLevel input;
          (number, input) \<leftarrow> GetVarint64 input;
          (file_size, input) \<leftarrow> GetVarint64 input;
          (smallest, input) \<leftarrow> GetInternalKey input;
          (largest, input) \<leftarrow> GetInternalKey input;
          Some (level, new_FileMetaData\<lparr>fm_number := number, fm_file_size := file_size,
                  fm_smallest := smallest, fm_largest := largest\<rparr>, input) }"

definition get_number :: "slice \<Rightarrow> string \<Rightarrow> decode_vars \<Rightarrow> (VersionEdit \<Rightarrow> u64 \<Rightarrow> VersionEdit) \<Rightarrow> decode_step" where
  "get_number input msg v setter =
     (case GetVarint64 input of
        None \<Rightarrow> Msg (str msg) v
      | Some (n, input) \<Rightarrow> Entry input (v\<lparr>dv_edit := setter (dv_edit v) n\<rparr>))"

definition decode_entry :: "bool \<Rightarrow> u32 \<Rightarrow> slice \<Rightarrow> decode_vars \<Rightarrow> decode_step" where
  "decode_entry ndebug tag input v =
     (let e = dv_edit v in
      if tag = EditTag_num kComparator then
        (case GetLengthPrefixedSlice input of
           None \<Rightarrow> Msg (str ''comparator name'') v
         | Some (s, input) \<Rightarrow> Entry input (v\<lparr>dv_edit := e\<lparr>ve_comparator := s, ve_has_comparator := True\<rparr>\<rparr>))
      else if tag = EditTag_num kLogNumber then get_number input ''log number'' v SetLogNumber
      else if tag = EditTag_num kPrevLogNumber then get_number input ''previous log number'' v SetPrevLogNumber
      else if tag = EditTag_num kNextFileNumber then get_number input ''next file number'' v SetNextFile
      else if tag = EditTag_num kLastSequence then get_number input ''last sequence number'' v SetLastSequence
      else if tag = EditTag_num kCompactPointer then
        (case get_level_key input of
           None \<Rightarrow> Msg (str ''compaction pointer'') v
         | Some (level, key, input) \<Rightarrow>
             Entry input (v\<lparr>dv_edit := e\<lparr>ve_compact_pointers := ve_compact_pointers e @ [(level, key)]\<rparr>\<rparr>))
      else if tag = EditTag_num kDeletedFile then
        (case get_level_number input of
           None \<Rightarrow> Msg (str ''deleted file'') v
         | Some (level, n, input) \<Rightarrow> Entry input (v\<lparr>dv_edit := edit_DeleteFile e level n\<rparr>))
      else if tag = EditTag_num kDeletedGuard then
        (case get_level_key input of
           None \<Rightarrow> Msg (str ''deleted guard'') v
         | Some (level, key, input) \<Rightarrow>
             (case DeleteGuard e level key of
                None \<Rightarrow> Dies
              | Some e \<Rightarrow> Entry input (v\<lparr>dv_edit := e\<rparr>)))
      else if tag = EditTag_num kDeletedSentinelFile then
        (case get_level_number input of
           None \<Rightarrow> Msg (str ''deleted sentinel file'') v
         | Some (level, n, input) \<Rightarrow> Entry input (v\<lparr>dv_edit := DeleteSentinelFile e level n\<rparr>))
      else if tag = EditTag_num kNewFile then
        (case get_file input of
           None \<Rightarrow> Msg (str ''new-file entry'') v
         | Some (level, f, input) \<Rightarrow> Entry input (v\<lparr>dv_edit := e\<lparr>ve_new_files := ve_new_files e @ [(level, f)]\<rparr>\<rparr>))
      else if tag = EditTag_num kNewSentinelFile then
        (case get_level_number input of
           None \<Rightarrow> Msg (str ''new-sentinel-file entry'') v
         | Some (level, n, input) \<Rightarrow>
             Entry input (v\<lparr>dv_edit := AddSentinelFileNo e level n, dv_fnumber := n\<rparr>))
      else if tag = EditTag_num kNewSentinelFileNo then
        (case get_file input of
           None \<Rightarrow> Msg (str ''new-sentinel-file entry'') v
         | Some (level, f, input) \<Rightarrow> Entry input (v\<lparr>dv_edit := e\<lparr>ve_new_files := ve_new_files e @ [(level, f)]\<rparr>\<rparr>))
      else if tag = EditTag_num kNewGuard then
        (case get_guard input (dv_g v) of
           None \<Rightarrow> Msg (str ''new-guard entry'') v
         | Some (input, g) \<Rightarrow>
             (case (if 0 < gm_number_segments g
                    then do { (input, g) \<leftarrow> guard_keys ndebug input (g\<lparr>gm_files := []\<rparr>);
                              guard_files_loop ndebug (unat (gm_number_segments g)) input (v\<lparr>dv_g := g\<rparr>) }
                    else Some (input, v\<lparr>dv_g := g\<lparr>gm_files := []\<rparr>\<rparr>)) of
                None \<Rightarrow> Dies
              | Some (input, v) \<Rightarrow>
                  Entry input (v\<lparr>dv_edit := AddGuardFromExisting e (gm_level (dv_g v)) (dv_g v)\<rparr>)))
      else if tag = EditTag_num kNewCompleteGuard then
        (case get_guard input (dv_g v) of
           None \<Rightarrow> Msg (str ''new-complete-guard entry'') v
         | Some (input, g) \<Rightarrow>
             (case (if 0 < gm_number_segments g then guard_keys ndebug input (g\<lparr>gm_files := []\<rparr>)
                    else Some (input, g\<lparr>gm_files := []\<rparr>)) of
                None \<Rightarrow> Dies
              | Some (input, g) \<Rightarrow>
                  Entry input (v\<lparr>dv_g := g, dv_edit := AddCompleteGuardFromExisting e (gm_level g) g\<rparr>)))
      else Msg (str ''unknown tag'') v)"

section \<open>Printing\<close>

definition debug_number :: "bool \<Rightarrow> string \<Rightarrow> u64 \<Rightarrow> slice \<Rightarrow> slice" where
  "debug_number has label n r = (if has then AppendNumberTo (r @ [10] @ str label) n else r)"

definition debug_guard :: "string \<Rightarrow> slice \<Rightarrow> GuardMetaData \<Rightarrow> slice" where
  "debug_guard label r g =
     (let r = AppendNumberTo (r @ [10] @ str label) (word_of_int (gm_level g));
          r = AppendNumberTo (r @ str '' '') (gm_number_segments g);
          r = r @ str '' '' @ InternalKey_DebugString (gm_guard_key g);
          r = r @ str '' '' @ InternalKey_DebugString (gm_smallest g);
          r = r @ str '' .. '' @ InternalKey_DebugString (gm_largest g) @ str '' Files: ''
      in if 0 < gm_number_segments g
         then foldl (\<lambda>r n. AppendNumberTo r n @ str '' '') r (gm_files g)
         else r)"

definition VersionEdit_DebugString :: "VersionEdit \<Rightarrow> slice" where
  "VersionEdit_DebugString e =
     (let r = str ''VersionEdit {'';
          r = (if ve_has_comparator e then r @ [10] @ str ''  Comparator: '' @ ve_comparator e else r);
          r = debug_number (ve_has_log_number e) ''  LogNumber: '' (ve_log_number e) r;
          r = debug_number (ve_has_prev_log_number e) ''  PrevLogNumber: '' (ve_prev_log_number e) r;
          r = debug_number (ve_has_next_file_number e) ''  NextFile: '' (ve_next_file_number e) r;
          r = debug_number (ve_has_last_sequence e) ''  LastSeq: '' (ve_last_sequence e) r;
          r = foldl (\<lambda>r (level, key). AppendNumberTo (r @ [10] @ str ''  CompactPointer: '') (word_of_int level)
                @ str '' '' @ InternalKey_DebugString key) r (ve_compact_pointers e);
          r = foldl (\<lambda>r (level, n). AppendNumberTo (AppendNumberTo (r @ [10] @ str ''  DeleteFile: '') (word_of_int level)
                @ str '' '') n) r (ve_deleted_files e);
          r = foldl (\<lambda>r (level, f).
                AppendNumberTo (AppendNumberTo (AppendNumberTo (r @ [10] @ str ''  AddFile: '') (word_of_int level)
                  @ str '' '') (fm_number f) @ str '' '') (fm_file_size f)
                @ str '' '' @ InternalKey_DebugString (fm_smallest f)
                @ str '' .. '' @ InternalKey_DebugString (fm_largest f)) r (ve_new_files e);
          r = foldl (\<lambda>r (level, key). AppendNumberTo (r @ [10] @ str ''  DeleteGuard: '') (word_of_int level)
                @ str '' '' @ InternalKey_DebugString key) r (ve_deleted_guards e);
          r = foldl (\<lambda>r k. foldl (debug_guard ''  AddGuard: '') r (ve_new_guards e ! k)) r [0..<kNumLevels];
          r = r @ [10];
          r = foldl (\<lambda>r k. foldl (debug_guard ''  AddCompleteGuard: '') r (ve_new_complete_guards e ! k)) r [0..<kNumLevels]
      in r @ [10] @ str ''}'' @ [10])"

section \<open>Every entry consumes input\<close>

named_theorems shrinks \<open>a reader leaves no more input than it was given\<close>

declare GetVarint32_shrinks [THEN less_imp_le, shrinks] GetVarint64_shrinks [THEN less_imp_le, shrinks]
  GetLengthPrefixedSlice_shrinks [THEN less_imp_le, shrinks]

lemma GetLevel_shrinks [shrinks]: "GetLevel i = Some (l, j) \<Longrightarrow> length j \<le> length i"
  by (auto simp: GetLevel_def split: Option.bind_splits if_splits dest!: shrinks)

lemma GetInternalKey_shrinks [shrinks]: "GetInternalKey i = Some (k, j) \<Longrightarrow> length j \<le> length i"
  by (auto simp: GetInternalKey_def dest!: shrinks)

lemma get_level_number_shrinks [shrinks]: "get_level_number i = Some (l, n, j) \<Longrightarrow> length j \<le> length i"
  by (auto simp: get_level_number_def split: Option.bind_splits dest!: shrinks)

lemma get_level_key_shrinks [shrinks]: "get_level_key i = Some (l, k, j) \<Longrightarrow> length j \<le> length i"
  by (auto simp: get_level_key_def split: Option.bind_splits dest!: shrinks)

lemma get_file_shrinks [shrinks]: "get_file i = Some (l, f, j) \<Longrightarrow> length j \<le> length i"
  by (auto simp: get_file_def split: Option.bind_splits dest!: shrinks)

lemma get_guard_shrinks [shrinks]: "get_guard i g = Some (j, g') \<Longrightarrow> length j \<le> length i"
  by (auto simp: get_guard_def split: Option.bind_splits dest!: shrinks)

lemma guard_keys_shrinks [shrinks]: "guard_keys nd i g = Some (j, g') \<Longrightarrow> length j \<le> length i"
  by (auto simp: guard_keys_def split: Option.bind_splits if_splits dest!: shrinks)

lemma unchecked_shrinks [shrinks]:
  "unchecked_varint32 i o1 = (t, j) \<Longrightarrow> length j \<le> length i"
  "unchecked_varint64 i o2 = (n, j) \<Longrightarrow> length j \<le> length i"
  by (auto simp: unchecked_varint32_def unchecked_varint64_def split: option.splits dest!: shrinks)

lemma guard_files_loop_shrinks [shrinks]: "guard_files_loop nd n i v = Some (j, v') \<Longrightarrow> length j \<le> length i"
proof (induction n arbitrary: i v)
  case (Suc n)
  then show ?case by (fastforce split: prod.splits if_splits dest!: unchecked_shrinks)
qed simp

lemma decode_entry_shrinks: "decode_entry nd tag i v = Entry j v' \<Longrightarrow> length j \<le> length i"
  unfolding decode_entry_def get_number_def Let_def
  by (auto split: if_splits option.splits prod.splits Option.bind_splits dest!: shrinks)

function decode_loop :: "bool \<Rightarrow> slice \<Rightarrow> decode_vars \<Rightarrow> (slice option \<times> slice \<times> decode_vars) option" where
  "decode_loop ndebug input v =
     (case GetVarint32 input of
        None \<Rightarrow> Some (None, input, v)
      | Some (tag, rest) \<Rightarrow>
          (case decode_entry ndebug tag rest v of
             Entry input v \<Rightarrow> decode_loop ndebug input v
           | Msg m v \<Rightarrow> Some (Some m, rest, v)
           | Dies \<Rightarrow> None))"
  by pat_completeness auto
termination
  by (relation "measure (\<lambda>(ndebug, input, v). length input)")
    (auto dest!: GetVarint32_shrinks decode_entry_shrinks)

declare decode_loop.simps [simp del]

text \<open>\<open>tag2\<close> and \<open>fnumber\<close> are the indeterminate values the locals of these names start with.\<close>

definition DecodeFrom :: "bool \<Rightarrow> u32 \<Rightarrow> u64 \<Rightarrow> VersionEdit \<Rightarrow> slice \<Rightarrow> (Status \<times> VersionEdit) option" where
  "DecodeFrom ndebug tag2 fnumber e src =
     (case decode_loop ndebug src
             \<lparr>dv_edit = VersionEdit_Clear e, dv_g = new_GuardMetaData, dv_tag2 = tag2, dv_fnumber = fnumber\<rparr> of
        None \<Rightarrow> None
      | Some (msg, input, v) \<Rightarrow>
          let msg = (if msg = None \<and> input \<noteq> [] then Some (str ''invalid tag'') else msg)
          in Some (case msg of None \<Rightarrow> OK | Some m \<Rightarrow> Corruption (str ''VersionEdit'') m, dv_edit v))"

section \<open>Entries and their bytes\<close>

abbreviation tagb :: "EditTag \<Rightarrow> slice" where
  "tagb t \<equiv> EncodeVarint32 (EditTag_num t)"

abbreviation levelb :: "int \<Rightarrow> slice" where
  "levelb l \<equiv> EncodeVarint32 (word_of_int l)"

definition level_ok :: "int \<Rightarrow> bool" where
  "level_ok l \<longleftrightarrow> 0 \<le> l \<and> l < int kNumLevels"

definition key_ok :: "slice \<Rightarrow> bool" where
  "key_ok k \<longleftrightarrow> length k < 2 ^ 32"

definition level_number_bytes :: "EditTag \<Rightarrow> int \<times> u64 \<Rightarrow> slice" where
  "level_number_bytes t x = tagb t @ levelb (fst x) @ EncodeVarint64 (snd x)"

definition level_key_bytes :: "EditTag \<Rightarrow> int \<times> slice \<Rightarrow> slice" where
  "level_key_bytes t x = tagb t @ levelb (fst x) @ lps (snd x)"

definition file_bytes :: "int \<times> FileMetaData \<Rightarrow> slice" where
  "file_bytes x = tagb kNewFile @ levelb (fst x) @ EncodeVarint64 (fm_number (snd x)) @
     EncodeVarint64 (fm_file_size (snd x)) @ lps (fm_smallest (snd x)) @ lps (fm_largest (snd x))"

definition guard_bytes :: "EditTag \<Rightarrow> GuardMetaData \<Rightarrow> slice" where
  "guard_bytes t g = tagb t @ levelb (gm_level g) @ EncodeVarint64 0 @ lps (gm_guard_key g)"

definition number_bytes :: "bool \<Rightarrow> EditTag \<Rightarrow> u64 \<Rightarrow> slice" where
  "number_bytes has t n = (if has then tagb t @ EncodeVarint64 n else [])"

lemma foldl_concat: "(\<And>dst x. f dst x = dst @ g x) \<Longrightarrow> foldl f dst xs = dst @ concat (map g xs)"
  by (induction xs arbitrary: dst) simp_all

lemma put_simps: "PutTag dst t = dst @ tagb t" "PutLevel dst l = dst @ levelb l"
  "PutVarint64 dst n = dst @ EncodeVarint64 n" "PutLengthPrefixedSlice dst v = dst @ lps v"
  by (simp_all add: PutTag_def PutLevel_def PutVarint32_def PutVarint64_def PutLengthPrefixedSlice_eq)

lemma put_guards_eq: "put_guards t dst gss = dst @ concat (map (\<lambda>k. concat (map (guard_bytes t) (gss ! k))) [0..<kNumLevels])"
  unfolding put_guards_def
  by (intro foldl_concat) (simp add: put_simps foldl_concat [where g = "guard_bytes t"] guard_bytes_def)

lemma put_deleted_files_eq: "put_deleted_files t dst fs = dst @ concat (map (level_number_bytes t) fs)"
  unfolding put_deleted_files_def
  by (intro foldl_concat) (simp add: put_simps level_number_bytes_def case_prod_beta)

lemma EncodeTo_eq: "EncodeTo e dst = dst @
    (if ve_has_comparator e then tagb kComparator @ lps (ve_comparator e) else []) @
    number_bytes (ve_has_log_number e) kLogNumber (ve_log_number e) @
    number_bytes (ve_has_prev_log_number e) kPrevLogNumber (ve_prev_log_number e) @
    number_bytes (ve_has_next_file_number e) kNextFileNumber (ve_next_file_number e) @
    number_bytes (ve_has_last_sequence e) kLastSequence (ve_last_sequence e) @
    concat (map (level_key_bytes kCompactPointer) (ve_compact_pointers e)) @
    concat (map (level_number_bytes kDeletedFile) (ve_deleted_files e)) @
    concat (map file_bytes (ve_new_files e)) @
    concat (map (level_key_bytes kDeletedGuard) (ve_deleted_guards e)) @
    concat (map (\<lambda>k. concat (map (guard_bytes kNewGuard) (ve_new_guards e ! k))) [0..<kNumLevels]) @
    concat (map (\<lambda>k. concat (map (guard_bytes kNewCompleteGuard) (ve_new_complete_guards e ! k))) [0..<kNumLevels]) @
    concat (map (level_number_bytes kDeletedSentinelFile) (ve_deleted_sentinel_files e))"
proof -
  have key: "foldl (\<lambda>dst (level, key). PutLengthPrefixedSlice (PutLevel (PutTag dst t) level) key) dst xs =
      dst @ concat (map (level_key_bytes t) xs)" for dst t xs
    by (intro foldl_concat) (simp add: put_simps level_key_bytes_def case_prod_beta)
  have files: "foldl (\<lambda>dst (level, f). PutLengthPrefixedSlice (PutLengthPrefixedSlice
        (PutVarint64 (PutVarint64 (PutLevel (PutTag dst kNewFile) level) (fm_number f)) (fm_file_size f))
        (fm_smallest f)) (fm_largest f)) dst xs = dst @ concat (map file_bytes xs)" for dst xs
    by (intro foldl_concat) (simp add: put_simps file_bytes_def case_prod_beta)
  show ?thesis
    unfolding EncodeTo_def Let_def key files put_guards_eq put_deleted_files_eq number_bytes_def
    by (simp add: put_simps)
qed

lemma GetLevel_levelb: "level_ok l \<Longrightarrow> GetLevel (levelb l @ rest) = Some (l, rest)"
proof -
  assume l: "level_ok l"
  then have u: "uint (word_of_int l :: u32) = l"
    by (simp add: level_ok_def kNumLevels_def uint_word_of_int_eq take_bit_int_eq_self)
  then have "(word_of_int l :: u32) < of_nat kNumLevels"
    using l by (simp add: level_ok_def kNumLevels_def word_less_def)
  with u show ?thesis by (simp add: GetLevel_def)
qed

lemma get_level_number_bytes: "level_ok l \<Longrightarrow> get_level_number (levelb l @ EncodeVarint64 n @ rest) = Some (l, n, rest)"
  by (simp add: get_level_number_def GetLevel_levelb)

lemma GetInternalKey_lps: "key_ok k \<Longrightarrow> GetInternalKey (lps k @ rest) = Some (k, rest)"
  unfolding GetInternalKey_def key_ok_def by (rule lpslice.dec_enc)

lemma get_level_key_bytes: "level_ok l \<Longrightarrow> key_ok k \<Longrightarrow> get_level_key (levelb l @ lps k @ rest) = Some (l, k, rest)"
  using GetInternalKey_lps [of k rest] by (simp add: get_level_key_def GetLevel_levelb)

lemma get_file_bytes: "level_ok l \<Longrightarrow> key_ok k1 \<Longrightarrow> key_ok k2 \<Longrightarrow>
    get_file (levelb l @ EncodeVarint64 n @ EncodeVarint64 z @ lps k1 @ lps k2 @ rest) =
    Some (l, new_FileMetaData\<lparr>fm_number := n, fm_file_size := z, fm_smallest := k1, fm_largest := k2\<rparr>, rest)"
  using GetInternalKey_lps [of k1 "lps k2 @ rest"] GetInternalKey_lps [of k2 rest]
  by (simp add: get_file_def GetLevel_levelb)

lemma get_guard_bytes: "level_ok l \<Longrightarrow> key_ok k \<Longrightarrow>
    get_guard (levelb l @ EncodeVarint64 n @ lps k @ rest) g =
    Some (rest, g\<lparr>gm_level := l, gm_number_segments := n, gm_guard_key := k\<rparr>)"
  using GetInternalKey_lps [of k rest] by (simp add: get_guard_def GetLevel_levelb)

lemma EditTag_num_inject [simp]: "EditTag_num s = EditTag_num t \<longleftrightarrow> s = t"
  by (cases s; cases t; simp)

declare EditTag_num.simps [simp del]

lemma decode_loop_step:
  "decode_loop ndebug (tagb t @ input) v =
     (case decode_entry ndebug (EditTag_num t) input v of
        Entry input v \<Rightarrow> decode_loop ndebug input v
      | Msg m v \<Rightarrow> Some (Some m, input, v)
      | Dies \<Rightarrow> None)"
  by (subst decode_loop.simps) simp

lemma decode_loop_Nil [simp]: "decode_loop ndebug [] v = Some (None, [], v)"
  by (subst decode_loop.simps)
    (simp add: GetVarint32_def GetVarint32Ptr_def GetVarint32PtrFallback_def)

lemma decode_loop_map:
  assumes "\<And>x v rest. x \<in> set xs \<Longrightarrow> decode_loop nd (enc x @ rest) v = decode_loop nd rest (v\<lparr>dv_edit := upd (dv_edit v) x\<rparr>)"
  shows "decode_loop nd (concat (map enc xs) @ rest) v = decode_loop nd rest (v\<lparr>dv_edit := foldl upd (dv_edit v) xs\<rparr>)"
  using assms by (induction xs arbitrary: v) simp_all

lemma decode_comparator: "key_ok k \<Longrightarrow>
    decode_loop nd (tagb kComparator @ lps k @ rest) v =
    decode_loop nd rest (v\<lparr>dv_edit := SetComparatorName (dv_edit v) k\<rparr>)"
  using lpslice.dec_enc [of k rest]
  by (cases "dv_edit v") (simp add: decode_loop_step decode_entry_def Let_def key_ok_def SetComparatorName_def)

definition set_number :: "EditTag \<Rightarrow> VersionEdit \<Rightarrow> u64 \<Rightarrow> VersionEdit" where
  "set_number t e n =
     (if t = kLogNumber then SetLogNumber e n
      else if t = kPrevLogNumber then SetPrevLogNumber e n
      else if t = kNextFileNumber then SetNextFile e n
      else SetLastSequence e n)"

lemma decode_number: "t \<in> {kLogNumber, kPrevLogNumber, kNextFileNumber, kLastSequence} \<Longrightarrow>
    decode_loop nd (number_bytes has t n @ rest) v =
    decode_loop nd rest (v\<lparr>dv_edit := if has then set_number t (dv_edit v) n else dv_edit v\<rparr>)"
  by (auto simp: number_bytes_def decode_loop_step decode_entry_def Let_def set_number_def get_number_def)

lemma decode_compact_pointer: "level_ok (fst x) \<Longrightarrow> key_ok (snd x) \<Longrightarrow>
    decode_loop nd (level_key_bytes kCompactPointer x @ rest) v =
    decode_loop nd rest (v\<lparr>dv_edit := SetCompactPointer (dv_edit v) (fst x) (snd x)\<rparr>)"
  using get_level_key_bytes [of "fst x" "snd x" rest]
  by (simp add: level_key_bytes_def decode_loop_step decode_entry_def Let_def SetCompactPointer_def)

lemma decode_deleted_file: "level_ok (fst x) \<Longrightarrow>
    decode_loop nd (level_number_bytes kDeletedFile x @ rest) v =
    decode_loop nd rest (v\<lparr>dv_edit := edit_DeleteFile (dv_edit v) (fst x) (snd x)\<rparr>)"
  using get_level_number_bytes [of "fst x" "snd x" rest]
  by (simp add: level_number_bytes_def decode_loop_step decode_entry_def Let_def)

lemma decode_deleted_sentinel_file: "level_ok (fst x) \<Longrightarrow>
    decode_loop nd (level_number_bytes kDeletedSentinelFile x @ rest) v =
    decode_loop nd rest (v\<lparr>dv_edit := DeleteSentinelFile (dv_edit v) (fst x) (snd x)\<rparr>)"
  using get_level_number_bytes [of "fst x" "snd x" rest]
  by (simp add: level_number_bytes_def decode_loop_step decode_entry_def Let_def)

lemma decode_file: "level_ok (fst x) \<Longrightarrow> key_ok (fm_smallest (snd x)) \<Longrightarrow> key_ok (fm_largest (snd x)) \<Longrightarrow>
    decode_loop nd (file_bytes x @ rest) v =
    decode_loop nd rest (v\<lparr>dv_edit := AddFile (dv_edit v) (fst x) (fm_number (snd x)) (fm_file_size (snd x))
      (fm_smallest (snd x)) (fm_largest (snd x))\<rparr>)"
  using get_file_bytes [of "fst x" "fm_smallest (snd x)" "fm_largest (snd x)" "fm_number (snd x)" "fm_file_size (snd x)" rest]
  by (simp add: file_bytes_def decode_loop_step decode_entry_def Let_def AddFile_def)

lemma decode_deleted_guard: "level_ok (fst x) \<Longrightarrow> key_ok (snd x) \<Longrightarrow>
    decode_loop nd (level_key_bytes kDeletedGuard x @ rest) v =
    (case DeleteGuard (dv_edit v) (fst x) (snd x) of None \<Rightarrow> None
     | Some e \<Rightarrow> decode_loop nd rest (v\<lparr>dv_edit := e\<rparr>))"
  using get_level_key_bytes [of "fst x" "snd x" rest]
  by (simp add: level_key_bytes_def decode_loop_step decode_entry_def Let_def split: option.split)

text \<open>Of a guard the manifest keeps the level and the key.\<close>

definition stored_guard :: "GuardMetaData \<Rightarrow> GuardMetaData" where
  "stored_guard g = new_GuardMetaData\<lparr>gm_level := gm_level g, gm_guard_key := gm_guard_key g\<rparr>"

definition plain_guard :: "GuardMetaData \<Rightarrow> bool" where
  "plain_guard g \<longleftrightarrow> stored_guard g = g"

lemma plain_stored [simp]: "plain_guard (stored_guard g)" "plain_guard new_GuardMetaData"
  by (simp_all add: plain_guard_def stored_guard_def new_GuardMetaData_def)

lemma plain_update: "plain_guard h \<Longrightarrow>
    h\<lparr>gm_level := gm_level g, gm_number_segments := 0, gm_guard_key := gm_guard_key g, gm_files := []\<rparr> = stored_guard g"
  by (cases h) (simp add: plain_guard_def stored_guard_def new_GuardMetaData_def)

definition add_guard :: "EditTag \<Rightarrow> VersionEdit \<Rightarrow> GuardMetaData \<Rightarrow> VersionEdit" where
  "add_guard t e g = (if t = kNewGuard then AddGuardFromExisting else AddCompleteGuardFromExisting) e (gm_level g) g"

lemma decode_guard: "t \<in> {kNewGuard, kNewCompleteGuard} \<Longrightarrow> level_ok (gm_level g) \<Longrightarrow> key_ok (gm_guard_key g) \<Longrightarrow>
    plain_guard (dv_g v) \<Longrightarrow>
    decode_loop nd (guard_bytes t g @ rest) v =
    decode_loop nd rest (v\<lparr>dv_g := stored_guard g, dv_edit := add_guard t (dv_edit v) (stored_guard g)\<rparr>)"
  using get_guard_bytes [of "gm_level g" "gm_guard_key g" 0 rest "dv_g v"] plain_update [of "dv_g v" g]
  by (auto simp: guard_bytes_def decode_loop_step decode_entry_def Let_def add_guard_def)

lemma decode_guards: "t \<in> {kNewGuard, kNewCompleteGuard} \<Longrightarrow>
    \<forall>g\<in>set gs. level_ok (gm_level g) \<and> key_ok (gm_guard_key g) \<Longrightarrow> plain_guard (dv_g v) \<Longrightarrow>
    \<exists>h. plain_guard h \<and> decode_loop nd (concat (map (guard_bytes t) gs) @ rest) v =
      decode_loop nd rest (v\<lparr>dv_g := h, dv_edit := foldl (add_guard t) (dv_edit v) (map stored_guard gs)\<rparr>)"
proof (induction gs arbitrary: v)
  case Nil
  then show ?case by (intro exI [of _ "dv_g v"]) simp
next
  case (Cons g gs)
  let ?v = "v\<lparr>dv_g := stored_guard g, dv_edit := add_guard t (dv_edit v) (stored_guard g)\<rparr>"
  from Cons.prems have "\<exists>h. plain_guard h \<and> decode_loop nd (concat (map (guard_bytes t) gs) @ rest) ?v =
      decode_loop nd rest (?v\<lparr>dv_g := h, dv_edit := foldl (add_guard t) (dv_edit ?v) (map stored_guard gs)\<rparr>)"
    by (intro Cons.IH) simp_all
  with decode_guard [of t g v nd] Cons.prems show ?case by simp
qed

section \<open>The edits the setters build\<close>

definition guards_ok :: "GuardMetaData list list \<Rightarrow> bool" where
  "guards_ok gss \<longleftrightarrow> length gss = kNumLevels \<and>
     (\<forall>i < kNumLevels. \<forall>g \<in> set (gss ! i). gm_level g = int i \<and> key_ok (gm_guard_key g))"

definition ve_ok :: "VersionEdit \<Rightarrow> bool" where
  "ve_ok e \<longleftrightarrow>
     (ve_has_comparator e \<longrightarrow> key_ok (ve_comparator e)) \<and>
     (\<forall>x \<in> set (ve_compact_pointers e). level_ok (fst x) \<and> key_ok (snd x)) \<and>
     sorted_wrt (<) (ve_deleted_files e) \<and> (\<forall>x \<in> set (ve_deleted_files e). level_ok (fst x)) \<and>
     sorted_wrt (<) (ve_deleted_sentinel_files e) \<and> (\<forall>x \<in> set (ve_deleted_sentinel_files e). level_ok (fst x)) \<and>
     (\<forall>x \<in> set (ve_new_files e). level_ok (fst x) \<and> key_ok (fm_smallest (snd x)) \<and> key_ok (fm_largest (snd x))) \<and>
     sorted_wrt (\<lambda>x y. fst x < fst y) (ve_deleted_guards e) \<and>
     (\<forall>x \<in> set (ve_deleted_guards e). level_ok (fst x) \<and> key_ok (snd x)) \<and>
     guards_ok (ve_new_guards e) \<and> guards_ok (ve_new_complete_guards e) \<and>
     length (ve_sentinel_files e) = kNumLevels \<and> length (ve_sentinel_file_nos e) = kNumLevels"

inductive edit_step :: "VersionEdit \<Rightarrow> VersionEdit \<Rightarrow> bool" where
  "key_ok name \<Longrightarrow> edit_step e (SetComparatorName e name)"
| "edit_step e (SetLogNumber e num)"
| "edit_step e (SetPrevLogNumber e num)"
| "edit_step e (SetNextFile e num)"
| "edit_step e (SetLastSequence e seq)"
| "level_ok level \<Longrightarrow> key_ok key \<Longrightarrow> edit_step e (SetCompactPointer e level key)"
| "level_ok level \<Longrightarrow> key_ok smallest \<Longrightarrow> key_ok largest \<Longrightarrow> edit_step e (AddFile e level file file_size smallest largest)"
| "level_ok level \<Longrightarrow> edit_step e (AddFileToSentinel e f level)"
| "level_ok level \<Longrightarrow> edit_step e (AddSentinelFile e level seeks file_size g largest smallest number refs)"
| "level_ok level \<Longrightarrow> edit_step e (AddSentinelFileNo e level number)"
| "level_ok level \<Longrightarrow> key_ok guard_key \<Longrightarrow> edit_step e (AddGuard e level guard_key)"
| "level_ok level \<Longrightarrow> key_ok guard_key \<Longrightarrow> edit_step e (AddCompleteGuard e level guard_key)"
| "level_ok level \<Longrightarrow> gm_level g' = level \<Longrightarrow> key_ok (gm_guard_key g') \<Longrightarrow> edit_step e (AddGuardFromExisting e level g')"
| "level_ok level \<Longrightarrow> gm_level g' = level \<Longrightarrow> key_ok (gm_guard_key g') \<Longrightarrow> edit_step e (AddCompleteGuardFromExisting e level g')"
| "level_ok level \<Longrightarrow> key_ok guard_key \<Longrightarrow> edit_step e (AddGuardWithFiles e level segments guard_key smallest largest files)"
| "level_ok level \<Longrightarrow> edit_step e (edit_DeleteFile e level file)"
| "level_ok level \<Longrightarrow> edit_step e (DeleteSentinelFile e level file)"
| "level_ok level \<Longrightarrow> key_ok key \<Longrightarrow> DeleteGuard e level key = Some e' \<Longrightarrow> edit_step e e'"
| "edit_step e (VersionEdit_Clear e)"

lemma strict_sorted_insort_insert: "sorted_wrt (<) xs \<Longrightarrow> sorted_wrt (<) (insort_insert (x :: 'a::linorder) xs)"
  by (simp add: strict_sorted_iff distinct_insort_insert sorted_insort_insert)

lemma guards_ok_push:
  assumes "guards_ok gss" "level_ok level" "gm_level g = level" "key_ok (gm_guard_key g)"
  shows "guards_ok (push_level gss level g)"
  unfolding guards_ok_def
proof (intro conjI allI impI ballI)
  show "length (push_level gss level g) = kNumLevels"
    using assms(1) by (simp add: guards_ok_def push_level_def)
  fix i h
  assume "i < kNumLevels" and "h \<in> set (push_level gss level g ! i)"
  then have "h \<in> set (gss ! i) \<or> h = g \<and> i = nat level"
    using assms(1) by (cases "i = nat level") (auto simp: guards_ok_def push_level_def)
  moreover have "gm_level h = int i \<and> key_ok (gm_guard_key h)" if "h \<in> set (gss ! i)"
    using assms(1) that \<open>i < kNumLevels\<close> unfolding guards_ok_def by blast
  moreover have "int (nat level) = level" using assms(2) by (simp add: level_ok_def)
  ultimately show "gm_level h = int i" "key_ok (gm_guard_key h)" using assms(3,4) by metis+
qed

lemma guard_set_insert_set: "guard_set_insert x ys = Some zs \<Longrightarrow> set zs = insert x (set ys)"
  by (induction ys arbitrary: zs) (auto split: Option.bind_splits if_splits)

lemma guard_set_insert_sorted: "sorted_wrt (\<lambda>x y. fst x < fst y) ys \<Longrightarrow> guard_set_insert x ys = Some zs \<Longrightarrow>
    sorted_wrt (\<lambda>x y. fst x < fst y) zs"
  by (induction ys arbitrary: zs)
    (fastforce simp: BySmallestPair_def dest: guard_set_insert_set split: Option.bind_splits if_splits)+

lemma guard_set_insert_iff: "guard_set_insert x ys = None \<longleftrightarrow>
    (\<exists>us y vs. ys = us @ y # vs \<and> fst y = fst x \<and> (\<forall>u \<in> set us. fst u < fst x))"
proof (induction ys)
  case (Cons y ys)
  consider "fst x < fst y" | "fst x = fst y" | "fst y < fst x" by linarith
  then show ?case
  proof cases
    case 1
    then show ?thesis by (auto simp: BySmallestPair_def Cons_eq_append_conv)
  next
    case 2
    then have "\<exists>us z vs. y # ys = us @ z # vs \<and> fst z = fst x \<and> (\<forall>u \<in> set us. fst u < fst x)"
      by (intro exI [of _ "[]"] exI [of _ y] exI [of _ ys]) simp
    with 2 show ?thesis by (simp add: BySmallestPair_def)
  next
    case 3
    then have "guard_set_insert x (y # ys) = None \<longleftrightarrow> guard_set_insert x ys = None"
      by (simp add: BySmallestPair_def)
    also have "\<dots> \<longleftrightarrow> (\<exists>us z vs. y # ys = us @ z # vs \<and> fst z = fst x \<and> (\<forall>u \<in> set us. fst u < fst x))"
      unfolding Cons.IH using 3 by (auto simp: Cons_eq_append_conv) (metis list.set_intros(1) set_ConsD)+
    finally show ?thesis .
  qed
qed simp

lemma DeleteGuard_dies_iff: "ve_ok e \<Longrightarrow> DeleteGuard e level key = None \<longleftrightarrow> level \<in> fst ` set (ve_deleted_guards e)"
proof -
  assume "ve_ok e"
  then have s: "sorted_wrt (\<lambda>x y. fst x < fst y) (ve_deleted_guards e)" by (simp add: ve_ok_def)
  have "DeleteGuard e level key = None \<longleftrightarrow> guard_set_insert (level, key) (ve_deleted_guards e) = None"
    by (simp add: DeleteGuard_def)
  also have "\<dots> \<longleftrightarrow> level \<in> fst ` set (ve_deleted_guards e)"
    unfolding guard_set_insert_iff
  proof
    assume "level \<in> fst ` set (ve_deleted_guards e)"
    then obtain us y vs where "ve_deleted_guards e = us @ y # vs" "fst y = level"
      by (metis imageE split_list)
    with s show "\<exists>us y vs. ve_deleted_guards e = us @ y # vs \<and> fst y = fst (level, key) \<and> (\<forall>u\<in>set us. fst u < fst (level, key))"
      by (intro exI [of _ us] exI [of _ y] exI [of _ vs]) (simp add: sorted_wrt_append)
  qed force
  finally show ?thesis .
qed

lemma edit_step_ve_ok: "edit_step e e' \<Longrightarrow> ve_ok e \<Longrightarrow> ve_ok e'"
proof (induction rule: edit_step.induct)
  case (18 level key e e')
  then obtain z where z: "guard_set_insert (level, key) (ve_deleted_guards e) = Some z"
      "e' = e\<lparr>ve_deleted_guards := z\<rparr>"
    by (auto simp: DeleteGuard_def)
  from guard_set_insert_sorted [OF _ z(1)] "18" show ?case
    by (simp add: z(2) ve_ok_def guard_set_insert_set [OF z(1)])
next
  case (19 e)
  then show ?case
    by (simp add: VersionEdit_Clear_def ve_ok_def guards_ok_def)
qed (auto simp: ve_ok_def SetComparatorName_def SetLogNumber_def SetPrevLogNumber_def SetNextFile_def
      SetLastSequence_def SetCompactPointer_def AddFile_def AddFileToSentinel_def AddSentinelFile_def
      AddSentinelFileNo_def AddGuard_def AddCompleteGuard_def AddGuardFromExisting_def
      AddCompleteGuardFromExisting_def AddGuardWithFiles_def edit_DeleteFile_def DeleteSentinelFile_def
      set_insort_insert strict_sorted_insort_insert intro: guards_ok_push, simp_all add: push_level_def)

lemma new_VersionEdit_ve_ok: "ve_ok new_VersionEdit"
  by (simp add: new_VersionEdit_def VersionEdit_Clear_def ve_ok_def guards_ok_def)

text \<open>C19. An edit that starts as a new one and to which any sequence of the setters is applied,
  with levels below \<open>kNumLevels\<close> and keys shorter than \<open>2 ^ 32\<close>, keeps the arrays over the
  levels at their length, every guard in the vector of its level, the sets of deleted files sorted
  without duplicates and at most one deleted guard per level. In such an edit, deleting a guard
  kills the program exactly when the edit already deletes a guard of the same level.\<close>

theorem version_edit_invariant:
  assumes "edit_step\<^sup>*\<^sup>* new_VersionEdit e"
  shows "ve_ok e \<and> (DeleteGuard e level key = None \<longleftrightarrow> level \<in> fst ` set (ve_deleted_guards e))"
proof -
  from assms have "ve_ok e"
    by (induction rule: rtranclp_induct) (auto intro: new_VersionEdit_ve_ok edit_step_ve_ok)
  then show ?thesis by (simp add: DeleteGuard_dies_iff)
qed

theorem version_edit_invariant_witness:
  "let e = AddGuard (edit_DeleteFile new_VersionEdit 2 7) 1 [97] in
   ve_ok e \<and> DeleteGuard e 3 [98] \<noteq> None"
proof -
  have "edit_step new_VersionEdit (edit_DeleteFile new_VersionEdit 2 7)"
    by (intro edit_step.intros(16)) (simp add: level_ok_def kNumLevels_def)
  moreover have "edit_step (edit_DeleteFile new_VersionEdit 2 7) (AddGuard (edit_DeleteFile new_VersionEdit 2 7) 1 [97])"
    by (intro edit_step.intros(11)) (simp_all add: level_ok_def key_ok_def kNumLevels_def)
  ultimately have "edit_step\<^sup>*\<^sup>* new_VersionEdit (AddGuard (edit_DeleteFile new_VersionEdit 2 7) 1 [97])" by simp
  from version_edit_invariant [OF this, of 3 "[98]"] show ?thesis
    by (simp add: AddGuard_def edit_DeleteFile_def new_VersionEdit_def VersionEdit_Clear_def)
qed

section \<open>The round trip\<close>

definition stored_file :: "FileMetaData \<Rightarrow> FileMetaData" where
  "stored_file f = new_FileMetaData\<lparr>fm_number := fm_number f, fm_file_size := fm_file_size f,
     fm_smallest := fm_smallest f, fm_largest := fm_largest f\<rparr>"

text \<open>What the manifest keeps of an edit: not the sentinel files, and of a file or a guard only
  the fields that are written.\<close>

definition stored :: "VersionEdit \<Rightarrow> VersionEdit" where
  "stored e = e\<lparr>
     ve_comparator := if ve_has_comparator e then ve_comparator e else [],
     ve_log_number := if ve_has_log_number e then ve_log_number e else 0,
     ve_prev_log_number := if ve_has_prev_log_number e then ve_prev_log_number e else 0,
     ve_next_file_number := if ve_has_next_file_number e then ve_next_file_number e else 0,
     ve_last_sequence := if ve_has_last_sequence e then ve_last_sequence e else 0,
     ve_new_files := map (\<lambda>(level, f). (level, stored_file f)) (ve_new_files e),
     ve_sentinel_files := replicate kNumLevels [],
     ve_sentinel_file_nos := replicate kNumLevels [],
     ve_new_guards := map (map stored_guard) (ve_new_guards e),
     ve_new_complete_guards := map (map stored_guard) (ve_new_complete_guards e)\<rparr>"

lemma foldl_insort_insert: "sorted_wrt (<) (ys @ xs) \<Longrightarrow> foldl (\<lambda>s x. insort_insert x s) ys xs = ys @ (xs :: 'a::linorder list)"
proof (induction xs arbitrary: ys)
  case (Cons x xs)
  then have "insort_insert x ys = ys @ [x]"
    by (auto simp: insort_insert_key_def sorted_wrt_append strict_sorted_iff less_imp_le
        intro!: sorted_insort_is_snoc)
  with Cons show ?case by simp
qed simp

lemma guard_set_insert_snoc: "\<forall>y \<in> set ys. fst y < fst x \<Longrightarrow> guard_set_insert x ys = Some (ys @ [x])"
  by (induction ys) (auto simp: BySmallestPair_def)

lemma decode_deleted_guards: "\<forall>x \<in> set xs. level_ok (fst x) \<and> key_ok (snd x) \<Longrightarrow>
    sorted_wrt (\<lambda>x y. fst x < fst y) (ve_deleted_guards (dv_edit v) @ xs) \<Longrightarrow>
    decode_loop nd (concat (map (level_key_bytes kDeletedGuard) xs) @ rest) v =
    decode_loop nd rest (v\<lparr>dv_edit := (dv_edit v)\<lparr>ve_deleted_guards := ve_deleted_guards (dv_edit v) @ xs\<rparr>\<rparr>)"
proof (induction xs arbitrary: v)
  case (Cons x xs)
  then have "DeleteGuard (dv_edit v) (fst x) (snd x) =
      Some ((dv_edit v)\<lparr>ve_deleted_guards := ve_deleted_guards (dv_edit v) @ [x]\<rparr>)"
    by (simp add: DeleteGuard_def guard_set_insert_snoc sorted_wrt_append)
  with Cons decode_deleted_guard [of x nd _ v] show ?case by simp
qed simp

lemma foldl_push_level:
  "\<forall>x \<in> set xs. nat (lev x) < length vs \<Longrightarrow>
   foldl (\<lambda>vs x. push_level vs (lev x) x) vs xs = map (\<lambda>i. vs ! i @ filter (\<lambda>x. nat (lev x) = i) xs) [0..<length vs]"
proof (induction xs arbitrary: vs)
  case Nil
  then show ?case by (simp add: map_nth)
next
  case (Cons x xs)
  then show ?case by (auto simp: push_level_def nth_list_update intro!: nth_equalityI)
qed

lemma guards_ok_filter: "guards_ok gss \<Longrightarrow> i < kNumLevels \<Longrightarrow>
    filter (\<lambda>g. nat (gm_level g) = i) (concat gss) = gss ! i"
proof -
  assume ok: "guards_ok gss" and i: "i < kNumLevels"
  have lev: "filter (\<lambda>g. nat (gm_level g) = i) (gss ! k) = (if k = i then gss ! k else [])" if "k < kNumLevels" for k
    using ok that by (auto simp: guards_ok_def filter_id_conv filter_empty_conv)
  have len: "length gss = kNumLevels" using ok by (simp add: guards_ok_def)
  then have "concat gss = concat (map ((!) gss) [0..<kNumLevels])" by (metis map_nth)
  then have "filter (\<lambda>g. nat (gm_level g) = i) (concat gss) =
      concat (map (\<lambda>k. if k = i then gss ! k else []) [0..<kNumLevels])"
    by (simp only: filter_concat map_map comp_def) (intro arg_cong [where f = concat] map_cong, simp_all add: lev)
  also have "[0..<kNumLevels] = [0..<i] @ i # [Suc i..<kNumLevels]"
    using i by (metis less_imp_le_nat upt_conv_Cons append_take_drop_id drop_upt take_upt add_0 zero_le le_add_diff_inverse)
  finally show ?thesis by (simp add: concat_eq_Nil_conv [THEN iffD2])
qed

lemma guards_ok_push_all: "guards_ok gss \<Longrightarrow>
    foldl (\<lambda>vs g. push_level vs (gm_level g) g) (replicate kNumLevels []) (map stored_guard (concat gss)) =
    map (map stored_guard) gss"
proof -
  assume ok: "guards_ok gss"
  then have "foldl (\<lambda>vs g. push_level vs (gm_level g) g) (replicate kNumLevels []) (map stored_guard (concat gss)) =
      map (\<lambda>i. filter (\<lambda>g. nat (gm_level g) = i) (map stored_guard (concat gss))) [0..<kNumLevels]"
    by (subst foldl_push_level)
      (auto simp: guards_ok_def stored_guard_def in_set_conv_nth [of _ gss] dest!: nth_mem)
  also have "\<dots> = map (\<lambda>i. map stored_guard (gss ! i)) [0..<kNumLevels]"
    using ok by (simp add: filter_map comp_def guards_ok_filter stored_guard_def cong: map_cong)
  also have "\<dots> = map (map stored_guard) gss"
    using ok by (auto simp: guards_ok_def intro: nth_equalityI)
  finally show ?thesis .
qed

lemma guards_flat: "guards_ok gss \<Longrightarrow>
    concat (map (\<lambda>k. concat (map (guard_bytes t) (gss ! k))) [0..<kNumLevels]) = concat (map (guard_bytes t) (concat gss))"
proof -
  assume "guards_ok gss"
  then have "map (\<lambda>k. concat (map (guard_bytes t) (gss ! k))) [0..<kNumLevels] = map (\<lambda>gs. concat (map (guard_bytes t) gs)) gss"
    by (intro nth_equalityI) (auto simp: guards_ok_def)
  moreover have "concat (map (\<lambda>gs. concat (map (guard_bytes t) gs)) gss) = concat (map (guard_bytes t) (concat gss))"
    by (induction gss) simp_all
  ultimately show ?thesis by simp
qed

lemma guards_ok_all: "guards_ok gss \<Longrightarrow> \<forall>g \<in> set (concat gss). level_ok (gm_level g) \<and> key_ok (gm_guard_key g)"
  by (auto simp: guards_ok_def level_ok_def in_set_conv_nth [of _ gss])

lemma foldl_edits:
  "foldl (\<lambda>e x. SetCompactPointer e (fst x) (snd x)) e ps = e\<lparr>ve_compact_pointers := ve_compact_pointers e @ ps\<rparr>"
  "foldl (\<lambda>e x. edit_DeleteFile e (fst x) (snd x)) e ds =
   e\<lparr>ve_deleted_files := foldl (\<lambda>s x. insort_insert x s) (ve_deleted_files e) ds\<rparr>"
  "foldl (\<lambda>e x. DeleteSentinelFile e (fst x) (snd x)) e ds =
   e\<lparr>ve_deleted_sentinel_files := foldl (\<lambda>s x. insort_insert x s) (ve_deleted_sentinel_files e) ds\<rparr>"
  "foldl (\<lambda>e x. AddFile e (fst x) (fm_number (snd x)) (fm_file_size (snd x)) (fm_smallest (snd x)) (fm_largest (snd x))) e fs =
   e\<lparr>ve_new_files := ve_new_files e @ map (\<lambda>(level, f). (level, stored_file f)) fs\<rparr>"
  "foldl (add_guard kNewGuard) e gs =
   e\<lparr>ve_new_guards := foldl (\<lambda>vs g. push_level vs (gm_level g) g) (ve_new_guards e) gs\<rparr>"
  "foldl (add_guard kNewCompleteGuard) e gs =
   e\<lparr>ve_new_complete_guards := foldl (\<lambda>vs g. push_level vs (gm_level g) g) (ve_new_complete_guards e) gs\<rparr>"
       apply (induction ps arbitrary: e; simp add: SetCompactPointer_def)
      apply (induction ds arbitrary: e; simp add: edit_DeleteFile_def)
     apply (induction ds arbitrary: e; simp add: DeleteSentinelFile_def)
    apply (induction fs arbitrary: e; simp add: AddFile_def stored_file_def split_beta)
   apply (induction gs arbitrary: e; simp add: add_guard_def AddGuardFromExisting_def)
  apply (induction gs arbitrary: e; simp add: add_guard_def AddCompleteGuardFromExisting_def)
  done

definition edit_head :: "VersionEdit \<Rightarrow> slice" where
  "edit_head e = (if ve_has_comparator e then tagb kComparator @ lps (ve_comparator e) else []) @
    number_bytes (ve_has_log_number e) kLogNumber (ve_log_number e) @
    number_bytes (ve_has_prev_log_number e) kPrevLogNumber (ve_prev_log_number e) @
    number_bytes (ve_has_next_file_number e) kNextFileNumber (ve_next_file_number e) @
    number_bytes (ve_has_last_sequence e) kLastSequence (ve_last_sequence e)"

definition stored_head :: "VersionEdit \<Rightarrow> VersionEdit" where
  "stored_head e = new_VersionEdit\<lparr>
     ve_has_comparator := ve_has_comparator e, ve_has_log_number := ve_has_log_number e,
     ve_has_prev_log_number := ve_has_prev_log_number e, ve_has_next_file_number := ve_has_next_file_number e,
     ve_has_last_sequence := ve_has_last_sequence e,
     ve_comparator := if ve_has_comparator e then ve_comparator e else [],
     ve_log_number := if ve_has_log_number e then ve_log_number e else 0,
     ve_prev_log_number := if ve_has_prev_log_number e then ve_prev_log_number e else 0,
     ve_next_file_number := if ve_has_next_file_number e then ve_next_file_number e else 0,
     ve_last_sequence := if ve_has_last_sequence e then ve_last_sequence e else 0\<rparr>"

lemma decode_head: "ve_ok e \<Longrightarrow> dv_edit v = new_VersionEdit \<Longrightarrow>
    decode_loop nd (edit_head e @ rest) v = decode_loop nd rest (v\<lparr>dv_edit := stored_head e\<rparr>)"
proof -
  assume ok: "ve_ok e" and v: "dv_edit v = new_VersionEdit"
  have cmp: "decode_loop nd ((if ve_has_comparator e then tagb kComparator @ lps (ve_comparator e) else []) @ rest) v =
      decode_loop nd rest (v\<lparr>dv_edit := if ve_has_comparator e then SetComparatorName (dv_edit v) (ve_comparator e) else dv_edit v\<rparr>)"
    for rest
    using ok decode_comparator [of "ve_comparator e" nd rest v] by (simp add: ve_ok_def)
  show ?thesis
    unfolding edit_head_def append_assoc cmp
    by (simp add: decode_number v set_number_def stored_head_def SetComparatorName_def SetLogNumber_def
        SetPrevLogNumber_def SetNextFile_def SetLastSequence_def new_VersionEdit_def VersionEdit_Clear_def
        cong: if_cong)
qed

lemma decode_middle: "ve_ok e \<Longrightarrow>
    ve_deleted_files (dv_edit v) = [] \<Longrightarrow> ve_deleted_guards (dv_edit v) = [] \<Longrightarrow>
    decode_loop nd
     (concat (map (level_key_bytes kCompactPointer) (ve_compact_pointers e)) @
      concat (map (level_number_bytes kDeletedFile) (ve_deleted_files e)) @
      concat (map file_bytes (ve_new_files e)) @
      concat (map (level_key_bytes kDeletedGuard) (ve_deleted_guards e)) @ rest) v =
    decode_loop nd rest (v\<lparr>dv_edit := (dv_edit v)\<lparr>
      ve_compact_pointers := ve_compact_pointers (dv_edit v) @ ve_compact_pointers e,
      ve_deleted_files := ve_deleted_files e,
      ve_new_files := ve_new_files (dv_edit v) @ map (\<lambda>(level, f). (level, stored_file f)) (ve_new_files e),
      ve_deleted_guards := ve_deleted_guards e\<rparr>\<rparr>)"
proof -
  assume ok: "ve_ok e" and v: "ve_deleted_files (dv_edit v) = []" "ve_deleted_guards (dv_edit v) = []"
  have ptrs: "decode_loop nd (concat (map (level_key_bytes kCompactPointer) (ve_compact_pointers e)) @ rest) v =
      decode_loop nd rest (v\<lparr>dv_edit := foldl (\<lambda>e x. SetCompactPointer e (fst x) (snd x)) (dv_edit v) (ve_compact_pointers e)\<rparr>)"
    for rest v
    using ok by (intro decode_loop_map decode_compact_pointer) (auto simp: ve_ok_def)
  have dels: "decode_loop nd (concat (map (level_number_bytes kDeletedFile) (ve_deleted_files e)) @ rest) v =
      decode_loop nd rest (v\<lparr>dv_edit := foldl (\<lambda>e x. edit_DeleteFile e (fst x) (snd x)) (dv_edit v) (ve_deleted_files e)\<rparr>)"
    for rest v
    using ok by (intro decode_loop_map decode_deleted_file) (auto simp: ve_ok_def)
  have files: "decode_loop nd (concat (map file_bytes (ve_new_files e)) @ rest) v =
      decode_loop nd rest (v\<lparr>dv_edit := foldl (\<lambda>e x. AddFile e (fst x) (fm_number (snd x)) (fm_file_size (snd x))
        (fm_smallest (snd x)) (fm_largest (snd x))) (dv_edit v) (ve_new_files e)\<rparr>)" for rest v
    using ok by (intro decode_loop_map decode_file) (auto simp: ve_ok_def)
  have "foldl (\<lambda>s x. insort_insert x s) [] (ve_deleted_files e) = ve_deleted_files e"
    using ok foldl_insort_insert [of "[]" "ve_deleted_files e"] by (simp add: ve_ok_def)
  then show ?thesis
    unfolding ptrs dels files foldl_edits
    using ok by (subst decode_deleted_guards) (simp_all add: v ve_ok_def)
qed

lemma decode_tail: "ve_ok e \<Longrightarrow> ve_new_guards (dv_edit v) = replicate kNumLevels [] \<Longrightarrow>
    ve_new_complete_guards (dv_edit v) = replicate kNumLevels [] \<Longrightarrow>
    ve_deleted_sentinel_files (dv_edit v) = [] \<Longrightarrow> plain_guard (dv_g v) \<Longrightarrow>
    \<exists>h. decode_loop nd
     (concat (map (\<lambda>k. concat (map (guard_bytes kNewGuard) (ve_new_guards e ! k))) [0..<kNumLevels]) @
      concat (map (\<lambda>k. concat (map (guard_bytes kNewCompleteGuard) (ve_new_complete_guards e ! k))) [0..<kNumLevels]) @
      concat (map (level_number_bytes kDeletedSentinelFile) (ve_deleted_sentinel_files e))) v =
    Some (None, [], v\<lparr>dv_g := h, dv_edit := (dv_edit v)\<lparr>
      ve_new_guards := map (map stored_guard) (ve_new_guards e),
      ve_new_complete_guards := map (map stored_guard) (ve_new_complete_guards e),
      ve_deleted_sentinel_files := ve_deleted_sentinel_files e\<rparr>\<rparr>)"
proof -
  assume ok: "ve_ok e" and ng: "ve_new_guards (dv_edit v) = replicate kNumLevels []"
    and nc: "ve_new_complete_guards (dv_edit v) = replicate kNumLevels []"
    and ds: "ve_deleted_sentinel_files (dv_edit v) = []" and h: "plain_guard (dv_g v)"
  let ?sents = "concat (map (level_number_bytes kDeletedSentinelFile) (ve_deleted_sentinel_files e))"
  let ?complete = "concat (map (guard_bytes kNewCompleteGuard) (concat (ve_new_complete_guards e)))"
  have g: "guards_ok (ve_new_guards e)" "guards_ok (ve_new_complete_guards e)" using ok by (simp_all add: ve_ok_def)
  have sents: "decode_loop nd (?sents @ rest) v =
      decode_loop nd rest (v\<lparr>dv_edit := foldl (\<lambda>e x. DeleteSentinelFile e (fst x) (snd x)) (dv_edit v) (ve_deleted_sentinel_files e)\<rparr>)"
    for rest v
    using ok by (intro decode_loop_map decode_deleted_sentinel_file) (auto simp: ve_ok_def)
  obtain h1 where h1: "plain_guard h1" "decode_loop nd (concat (map (guard_bytes kNewGuard) (concat (ve_new_guards e))) @ ?complete @ ?sents) v =
      decode_loop nd (?complete @ ?sents) (v\<lparr>dv_g := h1, dv_edit := foldl (add_guard kNewGuard) (dv_edit v) (map stored_guard (concat (ve_new_guards e)))\<rparr>)"
    using decode_guards [OF _ guards_ok_all [OF g(1)] h, of kNewGuard nd "?complete @ ?sents"] by auto
  let ?v = "v\<lparr>dv_g := h1, dv_edit := foldl (add_guard kNewGuard) (dv_edit v) (map stored_guard (concat (ve_new_guards e)))\<rparr>"
  obtain h2 where h2: "decode_loop nd (?complete @ ?sents) ?v =
      decode_loop nd ?sents (?v\<lparr>dv_g := h2, dv_edit := foldl (add_guard kNewCompleteGuard) (dv_edit ?v) (map stored_guard (concat (ve_new_complete_guards e)))\<rparr>)"
    using decode_guards [OF _ guards_ok_all [OF g(2)], of kNewCompleteGuard ?v nd ?sents] h1(1) by auto
  have "foldl (\<lambda>s x. insort_insert x s) [] (ve_deleted_sentinel_files e) = ve_deleted_sentinel_files e"
    using ok foldl_insort_insert [of "[]" "ve_deleted_sentinel_files e"] by (simp add: ve_ok_def)
  then show ?thesis
    using sents [of "[]"] h1(2) h2
    by (intro exI [of _ h2]) (simp add: guards_flat [OF g(1)] guards_flat [OF g(2)] foldl_edits guards_ok_push_all [OF g(1)]
      guards_ok_push_all [OF g(2)] ng nc ds del: map_concat)
qed



end
