(* ===== verification/RandomGen.thy ===== *)
theory RandomGen
  imports Prelude
begin

text \<open>
  \<^verbatim>\<open>util/random.h\<close>: the linear congruential generator that chooses the heights of skip list nodes.
  A generator is its seed. The shift-and-add reduction is shown to be the reduction modulo
  \<open>2 ^ 31 - 1\<close>, and the generator to stay among the seeds for which this holds.
\<close>

section \<open>Operations\<close>

type_synonym Random = u32

definition new_Random :: "u32 \<Rightarrow> Random" where
  "new_Random s =
     (let seed = s AND 0x7fffffff in if seed = 0 \<or> seed = 2147483647 then 1 else seed)"

definition rnd_M :: u32 where "rnd_M = 2147483647"

definition rnd_A :: u64 where "rnd_A = 16807"

definition rnd_Next :: "Random \<Rightarrow> u32 \<times> Random" where
  "rnd_Next seed =
     (let product = ucast seed * rnd_A;
          seed = ucast (drop_bit 31 product + (product AND ucast rnd_M));
          seed = (if rnd_M < seed then seed - rnd_M else seed)
      in (seed, seed))"

text \<open>\<open>n\<close> is positive where the code calls these.\<close>

definition rnd_Uniform :: "Random \<Rightarrow> u32 \<Rightarrow> u32 \<times> Random" where
  "rnd_Uniform seed n = (case rnd_Next seed of (x, seed) \<Rightarrow> (x mod n, seed))"

definition rnd_OneIn :: "Random \<Rightarrow> u32 \<Rightarrow> bool \<times> Random" where
  "rnd_OneIn seed n = (case rnd_Next seed of (x, seed) \<Rightarrow> (x mod n = 0, seed))"

definition rnd_Skewed :: "Random \<Rightarrow> u32 \<Rightarrow> u32 \<times> Random" where
  "rnd_Skewed seed max_log =
     (case rnd_Uniform seed (max_log + 1) of (k, seed) \<Rightarrow> rnd_Uniform seed (push_bit (unat k) 1))"

section \<open>The reduction\<close>

definition seed_ok :: "Random \<Rightarrow> bool" where
  "seed_ok seed \<longleftrightarrow> 0 < seed \<and> seed < rnd_M"

lemma seed_ok_unat: "seed_ok seed \<longleftrightarrow> 0 < unat seed \<and> unat seed < 2147483647"
  by (simp add: seed_ok_def rnd_M_def word_less_nat_alt)

lemma new_Random_ok: "seed_ok (new_Random s)"
proof -
  have "s AND 0x7fffffff = take_bit 31 s"
    by (simp add: take_bit_eq_mask mask_eq_exp_minus_1)
  moreover have "unat (take_bit 31 s) < 2 ^ 31"
    by (simp add: unsigned_take_bit_eq) (simp add: take_bit_eq_mod)
  ultimately show ?thesis
    by (auto simp: new_Random_def Let_def seed_ok_unat word_unat_eq_iff)
qed

text \<open>Splitting at bit 31 is division by \<open>2 ^ 31\<close>; the two parts add up to the value modulo
  \<open>2 ^ 31 - 1\<close>.\<close>

lemma mersenne_split: "(p div 2 ^ 31 + p mod 2 ^ 31) mod 2147483647 = p mod (2147483647 :: nat)"
proof -
  have "p = (p div 2 ^ 31 + p mod 2 ^ 31) + 2147483647 * (p div 2 ^ 31)"
    using div_mult_mod_eq [of p "2 ^ 31"] by simp
  then show ?thesis using mod_mult_self2 [of "p div 2 ^ 31 + p mod 2 ^ 31" 2147483647 "p div 2 ^ 31"] by presburger
qed

lemma next_not_zero: "0 < s \<Longrightarrow> s < 2147483647 \<Longrightarrow> (s * 16807) mod 2147483647 \<noteq> (0 :: nat)"
proof
  assume s: "0 < s" "s < 2147483647" and "(s * 16807) mod 2147483647 = 0"
  then have "2147483647 dvd s * 16807" by (simp add: dvd_eq_mod_eq_0)
  moreover have "coprime (2147483647 :: nat) 16807" by (simp add: coprime_iff_gcd_eq_1 gcd_non_0_nat)
  ultimately have "2147483647 dvd s" by (simp add: coprime_dvd_mult_left_iff)
  with s show False by (auto dest: dvd_imp_le)
qed

lemma reduce_once: "q < 2 * m \<Longrightarrow> q \<noteq> m \<Longrightarrow> (if m < q then q - m else q) = q mod (m :: nat)"
  by (auto simp: le_mod_geq)

lemma rnd_Next_seed: "seed_ok seed \<Longrightarrow>
    unat (fst (rnd_Next seed)) = (unat seed * 16807) mod 2147483647 \<and> snd (rnd_Next seed) = fst (rnd_Next seed)"
proof -
  assume ok: "seed_ok seed"
  let ?s = "unat seed" let ?p = "?s * 16807"
  let ?q = "?p div 2 ^ 31 + ?p mod 2 ^ 31"
  have s: "0 < ?s" "?s < 2147483647" using ok by (simp_all add: seed_ok_unat)
  have "unat (ucast seed :: u64) = ?s" using s by (simp add: unsigned_ucast_eq take_bit_eq_mod)
  then have prod: "unat (ucast seed * rnd_A :: u64) = ?p"
    using s by (simp add: unat_word_ariths rnd_A_def)
  have "unat (drop_bit 31 (ucast seed * rnd_A :: u64)) = ?p div 2 ^ 31"
    by (simp add: drop_bit_eq_div unat_div_distrib prod)
  moreover have "unat ((ucast seed * rnd_A :: u64) AND ucast rnd_M) = ?p mod 2 ^ 31"
  proof -
    have "(ucast rnd_M :: u64) = mask 31" by (simp add: rnd_M_def mask_eq_exp_minus_1)
    then have "(ucast seed * rnd_A :: u64) AND ucast rnd_M = take_bit 31 (ucast seed * rnd_A)"
      by (simp add: take_bit_eq_mask)
    then show ?thesis by (simp add: unsigned_take_bit_eq prod) (simp add: take_bit_eq_mod)
  qed
  moreover have q: "?q < 2 ^ 31 + 16807" "?q < 2 * 2147483647"
    using s by auto
  moreover define w :: u32 where "w = ucast (drop_bit 31 (ucast seed * rnd_A :: u64) + (ucast seed * rnd_A AND ucast rnd_M))"
  ultimately have sum: "unat w = ?q"
    by (simp add: unsigned_ucast_eq take_bit_eq_mod unat_word_ariths)
  have "?q \<noteq> 2147483647" "?q mod 2147483647 = ?p mod 2147483647"
    using next_not_zero [OF s] mersenne_split [of ?p] by auto
  then have "(if 2147483647 < ?q then ?q - 2147483647 else ?q) = ?p mod 2147483647"
    using reduce_once [OF q(2)] by metis
  then have "unat (if rnd_M < w then w - rnd_M else w) = ?p mod 2147483647"
    unfolding sum [symmetric] by (auto simp: word_less_nat_alt rnd_M_def unat_sub word_le_nat_alt)
  then show ?thesis unfolding rnd_Next_def Let_def w_def [symmetric] by simp
qed

text \<open>C28. A generator built from any seed stays between 1 and \<open>2 ^ 31 - 2\<close> forever, and each call
  of \<^verbatim>\<open>Next\<close> returns the old seed times 16807 modulo \<open>2 ^ 31 - 1\<close>.\<close>

theorem random_is_lehmer:
  "let r = ((snd \<circ> rnd_Next) ^^ n) (new_Random s)
   in 0 < r \<and> r < rnd_M \<and> unat (fst (rnd_Next r)) = (unat r * 16807) mod (2 ^ 31 - 1)"
proof -
  have "seed_ok (((snd \<circ> rnd_Next) ^^ n) (new_Random s))"
  proof (induction n)
    case (Suc n)
    with rnd_Next_seed [OF Suc] next_not_zero show ?case by (simp add: seed_ok_unat)
  qed (simp add: new_Random_ok)
  with rnd_Next_seed show ?thesis by (simp add: Let_def seed_ok_def)
qed

end
