(* ===== verification/Skiplist.thy ===== *)
theory Skiplist
  imports Comparator RandomGen "HOL-Library.Multiset"
begin

text \<open>
  \<^verbatim>\<open>db/skiplist.h\<close>: the skip list under the memtable, whose pointers carry a 64-bit hint of the key
  behind them. The nodes are a list and a node's address its position, the head at 0; an operation
  runs alone. Loops that may run forever or follow a null pointer are partial functions into
  options, and every operation is shown to return, to keep the list sorted with exact hints at
  every level, and to act on the sequence of keys as its specification says.
\<close>

section \<open>State\<close>

definition kMaxHeight :: nat where "kMaxHeight = 17"

text \<open>A null key is \<open>None\<close>; only the head has it.\<close>

record 'k sl_node =
  n_cmp :: u64
  n_key :: "'k option"
  n_ptrs :: "(u64 \<times> nat option) list"

record 'k SkipList =
  sl_nodes :: "'k sl_node list"
  sl_rnd :: Random

abbreviation NoBarrier_Cmp :: "'k sl_node list \<Rightarrow> nat \<Rightarrow> nat \<Rightarrow> u64" where
  "NoBarrier_Cmp ns x n \<equiv> fst (n_ptrs (ns ! x) ! n)"

abbreviation node_Next :: "'k sl_node list \<Rightarrow> nat \<Rightarrow> nat \<Rightarrow> nat option" where
  "node_Next ns x n \<equiv> snd (n_ptrs (ns ! x) ! n)"

abbreviation node_key :: "'k sl_node list \<Rightarrow> nat \<Rightarrow> 'k" where
  "node_key ns x \<equiv> the (n_key (ns ! x))"

section \<open>Nodes\<close>

definition SetNext :: "'k sl_node list \<Rightarrow> nat \<Rightarrow> nat \<Rightarrow> u64 \<Rightarrow> nat option \<Rightarrow> 'k sl_node list" where
  "SetNext ns x n c y = ns[x := (ns ! x)\<lparr>n_ptrs := (n_ptrs (ns ! x))[n := (c, y)]\<rparr>]"

text \<open>The loop that lowers a hint; a compare-and-swap returns the value it found.\<close>

partial_function (option) cas_cmp :: "u64 \<Rightarrow> u64 \<Rightarrow> u64 \<Rightarrow> u64 option" where
  "cas_cmp field expected new_cmp =
     (if new_cmp < expected
      then cas_cmp (if field = expected then new_cmp else field) field new_cmp
      else Some field)"

definition CasNext ::
  "'k sl_node list \<Rightarrow> nat \<Rightarrow> nat \<Rightarrow> nat option \<Rightarrow> nat \<Rightarrow> (bool \<times> 'k sl_node list) option"
where
  "CasNext ns x n old_node new_node =
     (if node_Next ns x n = old_node
      then case cas_cmp (NoBarrier_Cmp ns x n) (- 1) (n_cmp (ns ! new_node)) of
             None \<Rightarrow> None
           | Some c \<Rightarrow> Some (True, SetNext ns x n c (Some new_node))
      else Some (False, ns))"

definition NewNode :: "('k option \<Rightarrow> u64) \<Rightarrow> 'k sl_node list \<Rightarrow> 'k option \<Rightarrow> nat \<Rightarrow> nat \<times> 'k sl_node list" where
  "NewNode extractor ns key height =
     (length ns, ns @ [\<lparr>n_cmp = extractor key, n_key = key, n_ptrs = replicate height (- 1, None)\<rparr>])"

function random_height_loop :: "Random \<Rightarrow> nat \<Rightarrow> nat \<times> Random" where
  "random_height_loop rnd height =
     (if height < kMaxHeight
      then case rnd_Next rnd of (r, rnd) \<Rightarrow>
             if r mod 4 = 0 then random_height_loop rnd (height + 1) else (height, rnd)
      else (height, rnd))"
  by pat_completeness auto
termination by (relation "measure (\<lambda>(rnd, height). kMaxHeight - height)") auto

declare random_height_loop.simps [simp del]

definition RandomHeight :: "Random \<Rightarrow> nat \<times> Random" where
  "RandomHeight rnd = random_height_loop rnd 1"

section \<open>Searching\<close>

definition KeyIsAfterNode :: "('k \<Rightarrow> 'k \<Rightarrow> int) \<Rightarrow> 'k sl_node list \<Rightarrow> 'k \<Rightarrow> nat option \<Rightarrow> bool" where
  "KeyIsAfterNode compare ns key n =
     (case n of None \<Rightarrow> False | Some y \<Rightarrow> compare (node_key ns y) key < 0)"

text \<open>The arrays \<^verbatim>\<open>prev\<close> and \<^verbatim>\<open>obs\<close>, or null.\<close>

definition fill :: "'a list option \<Rightarrow> nat \<Rightarrow> 'a \<Rightarrow> 'a list option" where
  "fill a level x = map_option (\<lambda>a. a[level := x]) a"

fun fge_descend ::
  "'k sl_node list \<Rightarrow> u64 \<Rightarrow> nat \<Rightarrow> nat \<Rightarrow> nat list option \<Rightarrow> nat option list option \<Rightarrow>
   nat \<times> nat list option \<times> nat option list option"
where
  "fge_descend ns c x 0 prev obs = (0, prev, obs)"
| "fge_descend ns c x (Suc level) prev obs =
     (if c < NoBarrier_Cmp ns x (Suc level)
      then fge_descend ns c x level (fill prev (Suc level) x) (fill obs (Suc level) None)
      else (Suc level, prev, obs))"

partial_function (option) fge_loop ::
  "('k \<Rightarrow> 'k \<Rightarrow> int) \<Rightarrow> 'k sl_node list \<Rightarrow> 'k \<Rightarrow> u64 \<Rightarrow> nat \<Rightarrow> nat \<Rightarrow> nat list option \<Rightarrow> nat option list option \<Rightarrow>
   (nat option \<times> nat list option \<times> nat option list option) option"
where
  "fge_loop compare ns key cmp x level prev obs =
     (case fge_descend ns cmp x level prev obs of (level, prev, obs) \<Rightarrow>
      case n_ptrs (ns ! x) ! level of (c, next) \<Rightarrow>
        if c < cmp \<or> KeyIsAfterNode compare ns key next
        then case next of None \<Rightarrow> None | Some y \<Rightarrow> fge_loop compare ns key cmp y level prev obs
        else if level = 0 then Some (next, fill prev level x, fill obs level next)
        else fge_loop compare ns key cmp x (level - 1) (fill prev level x) (fill obs level next))"

definition FindGreaterOrEqual ::
  "('k \<Rightarrow> 'k \<Rightarrow> int) \<Rightarrow> ('k option \<Rightarrow> u64) \<Rightarrow> 'k sl_node list \<Rightarrow> 'k \<Rightarrow> nat list option \<Rightarrow> nat option list option \<Rightarrow>
   (nat option \<times> nat list option \<times> nat option list option) option"
where
  "FindGreaterOrEqual compare extractor ns key prev obs =
     fge_loop compare ns key (extractor (Some key)) 0 (kMaxHeight - 1) prev obs"

partial_function (option) less_than_loop ::
  "('k \<Rightarrow> 'k \<Rightarrow> int) \<Rightarrow> 'k sl_node list \<Rightarrow> 'k \<Rightarrow> nat \<Rightarrow> nat \<Rightarrow> nat option"
where
  "less_than_loop compare ns key x level =
     (if x = 0 \<or> compare (node_key ns x) key < 0
      then case node_Next ns x level of
             None \<Rightarrow> if level = 0 then Some x else less_than_loop compare ns key x (level - 1)
           | Some y \<Rightarrow>
               if 0 \<le> compare (node_key ns y) key
               then if level = 0 then Some x else less_than_loop compare ns key x (level - 1)
               else less_than_loop compare ns key y level
      else None)"

definition FindLessThan :: "('k \<Rightarrow> 'k \<Rightarrow> int) \<Rightarrow> 'k sl_node list \<Rightarrow> 'k \<Rightarrow> nat option" where
  "FindLessThan compare ns key = less_than_loop compare ns key 0 (kMaxHeight - 1)"

partial_function (option) find_last_loop :: "'k sl_node list \<Rightarrow> nat \<Rightarrow> nat \<Rightarrow> nat option" where
  "find_last_loop ns x level =
     (case node_Next ns x level of
        None \<Rightarrow> if level = 0 then Some x else find_last_loop ns x (level - 1)
      | Some y \<Rightarrow> find_last_loop ns y level)"

definition FindLast :: "'k sl_node list \<Rightarrow> nat option" where
  "FindLast ns = find_last_loop ns 0 (kMaxHeight - 1)"

section \<open>The list\<close>

definition new_SkipList :: "('k option \<Rightarrow> u64) \<Rightarrow> 'k SkipList" where
  "new_SkipList extractor =
     (case NewNode extractor [] None kMaxHeight of (head, ns) \<Rightarrow>
        \<lparr>sl_nodes = foldl (\<lambda>ns i. SetNext ns head i (- 1) None) ns [0..<kMaxHeight],
         sl_rnd = new_Random 0xdeadbeef\<rparr>)"

partial_function (option) insert_advance ::
  "('k \<Rightarrow> 'k \<Rightarrow> int) \<Rightarrow> 'k sl_node list \<Rightarrow> nat \<Rightarrow> nat \<Rightarrow> nat \<Rightarrow> (nat \<times> nat option) option"
where
  "insert_advance compare ns x i p =
     (case n_ptrs (ns ! p) ! i of (c, next) \<Rightarrow>
        if c < n_cmp (ns ! x) \<or> KeyIsAfterNode compare ns (node_key ns x) next
        then case next of None \<Rightarrow> None | Some y \<Rightarrow> insert_advance compare ns x i y
        else Some (p, next))"

partial_function (option) insert_level ::
  "('k \<Rightarrow> 'k \<Rightarrow> int) \<Rightarrow> 'k sl_node list \<Rightarrow> nat \<Rightarrow> nat \<Rightarrow> nat \<Rightarrow> nat option \<Rightarrow> 'k sl_node list option"
where
  "insert_level compare ns x i p n =
     (let c = (case n of None \<Rightarrow> - 1 | Some y \<Rightarrow> n_cmp (ns ! y));
          ns = SetNext ns x i c n
      in case (if n_cmp (ns ! x) \<le> c then CasNext ns p i n x else Some (False, ns)) of
           None \<Rightarrow> None
         | Some (swapped, ns) \<Rightarrow>
             if swapped then Some ns
             else case insert_advance compare ns x i p of
                    None \<Rightarrow> None
                  | Some (p, n) \<Rightarrow> insert_level compare ns x i p n)"

fun insert_levels ::
  "('k \<Rightarrow> 'k \<Rightarrow> int) \<Rightarrow> 'k sl_node list \<Rightarrow> nat \<Rightarrow> nat list \<Rightarrow> nat list \<Rightarrow> nat option list \<Rightarrow> 'k sl_node list option"
where
  "insert_levels compare ns x [] prev obs = Some ns"
| "insert_levels compare ns x (i # is) prev obs =
     (case insert_level compare ns x i (prev ! i) (obs ! i) of
        None \<Rightarrow> None
      | Some ns \<Rightarrow> insert_levels compare ns x is prev obs)"

text \<open>The two arrays are not initialized; \<open>prev0\<close> and \<open>obs0\<close> are what they hold.\<close>

definition Insert ::
  "('k \<Rightarrow> 'k \<Rightarrow> int) \<Rightarrow> ('k option \<Rightarrow> u64) \<Rightarrow> nat list \<Rightarrow> nat option list \<Rightarrow> 'k SkipList \<Rightarrow> 'k \<Rightarrow> 'k SkipList option"
where
  "Insert compare extractor prev0 obs0 s key =
     (case FindGreaterOrEqual compare extractor (sl_nodes s) key (Some prev0) (Some obs0) of
        Some (x, Some prev, Some obs) \<Rightarrow>
          if (case x of None \<Rightarrow> True | Some y \<Rightarrow> compare key (node_key (sl_nodes s) y) \<noteq> 0)
          then case RandomHeight (sl_rnd s) of (height, rnd) \<Rightarrow>
               case NewNode extractor (sl_nodes s) (Some key) height of (x, ns) \<Rightarrow>
                 (case insert_levels compare ns x [0..<height] prev obs of
                    None \<Rightarrow> None
                  | Some ns \<Rightarrow> Some (s\<lparr>sl_nodes := ns, sl_rnd := rnd\<rparr>))
          else None
      | _ \<Rightarrow> None)"

definition Contains :: "('k \<Rightarrow> 'k \<Rightarrow> int) \<Rightarrow> ('k option \<Rightarrow> u64) \<Rightarrow> 'k SkipList \<Rightarrow> 'k \<Rightarrow> bool option" where
  "Contains compare extractor s key =
     (case FindGreaterOrEqual compare extractor (sl_nodes s) key None None of
        None \<Rightarrow> None
      | Some (x, _) \<Rightarrow>
          Some (case x of None \<Rightarrow> False | Some y \<Rightarrow> compare key (node_key (sl_nodes s) y) = 0))"

section \<open>Iterators\<close>

text \<open>An iterator is its node, or null; outer \<open>None\<close> is a call that does not return.\<close>

type_synonym sl_iterator = "nat option"

definition new_Iterator :: sl_iterator where
  "new_Iterator = None"

definition iter_Valid :: "sl_iterator \<Rightarrow> bool" where
  "iter_Valid it \<longleftrightarrow> it \<noteq> None"

definition iter_key :: "'k SkipList \<Rightarrow> sl_iterator \<Rightarrow> 'k" where
  "iter_key s it = node_key (sl_nodes s) (the it)"

definition iter_Next :: "'k SkipList \<Rightarrow> sl_iterator \<Rightarrow> sl_iterator" where
  "iter_Next s it = node_Next (sl_nodes s) (the it) 0"

definition iter_Prev :: "('k \<Rightarrow> 'k \<Rightarrow> int) \<Rightarrow> 'k SkipList \<Rightarrow> sl_iterator \<Rightarrow> sl_iterator option" where
  "iter_Prev compare s it =
     (case FindLessThan compare (sl_nodes s) (iter_key s it) of
        None \<Rightarrow> None
      | Some x \<Rightarrow> Some (if x = 0 then None else Some x))"

definition iter_Seek :: "('k \<Rightarrow> 'k \<Rightarrow> int) \<Rightarrow> ('k option \<Rightarrow> u64) \<Rightarrow> 'k SkipList \<Rightarrow> 'k \<Rightarrow> sl_iterator option" where
  "iter_Seek compare extractor s target =
     (case FindGreaterOrEqual compare extractor (sl_nodes s) target None None of
        None \<Rightarrow> None
      | Some (x, _) \<Rightarrow> Some x)"

definition iter_SeekToFirst :: "'k SkipList \<Rightarrow> sl_iterator" where
  "iter_SeekToFirst s = node_Next (sl_nodes s) 0 0"

definition iter_SeekToLast :: "'k SkipList \<Rightarrow> sl_iterator option" where
  "iter_SeekToLast s =
     (case FindLast (sl_nodes s) of
        None \<Rightarrow> None
      | Some x \<Rightarrow> Some (if x = 0 then None else Some x))"

text \<open>A client's loops: inserting a sequence of keys, and reading from an iterator to the end.\<close>

fun sl_inserts ::
  "('k \<Rightarrow> 'k \<Rightarrow> int) \<Rightarrow> ('k option \<Rightarrow> u64) \<Rightarrow> nat list \<Rightarrow> nat option list \<Rightarrow> 'k SkipList \<Rightarrow> 'k list \<Rightarrow> 'k SkipList option"
where
  "sl_inserts compare extractor prev0 obs0 s [] = Some s"
| "sl_inserts compare extractor prev0 obs0 s (k # ks) =
     (case Insert compare extractor prev0 obs0 s k of
        None \<Rightarrow> None
      | Some s \<Rightarrow> sl_inserts compare extractor prev0 obs0 s ks)"

partial_function (option) sl_scan :: "'k SkipList \<Rightarrow> sl_iterator \<Rightarrow> 'k list option" where
  "sl_scan s it =
     (if iter_Valid it
      then Option.bind (sl_scan s (iter_Next s it)) (\<lambda>ks. Some (iter_key s it # ks))
      else Some [])"

section \<open>The lists of the levels\<close>

abbreviation node_height :: "'k sl_node list \<Rightarrow> nat \<Rightarrow> nat" where
  "node_height ns x \<equiv> length (n_ptrs (ns ! x))"

definition tall :: "'k sl_node list \<Rightarrow> nat \<Rightarrow> nat \<Rightarrow> bool" where
  "tall ns i x \<longleftrightarrow> i < node_height ns x"

definition hint :: "'k sl_node list \<Rightarrow> nat option \<Rightarrow> u64" where
  "hint ns y = (case y of None \<Rightarrow> - 1 | Some y \<Rightarrow> n_cmp (ns ! y))"

text \<open>Along a sequence of nodes, every pointer of one level leads to the next node of the sequence
  that is tall enough, and carries its hint.\<close>

fun linked_at :: "'k sl_node list \<Rightarrow> nat \<Rightarrow> nat list \<Rightarrow> bool" where
  "linked_at ns i [] = True"
| "linked_at ns i (x # xs) =
     ((tall ns i x \<longrightarrow> n_ptrs (ns ! x) ! i = (hint ns (find (tall ns i) xs), find (tall ns i) xs)) \<and>
      linked_at ns i xs)"

lemma linked_at_append: "linked_at ns i (xs @ ys) \<Longrightarrow> linked_at ns i ys"
  by (induction xs) auto

lemma find_append: "find P (xs @ ys) = (case find P xs of None \<Rightarrow> find P ys | Some y \<Rightarrow> Some y)"
  by (induction xs) auto

lemma find_SomeD: "find P xs = Some y \<Longrightarrow> y \<in> set xs \<and> P y"
  by (auto simp: find_Some_iff)

definition same_nodes :: "'k sl_node list \<Rightarrow> 'k sl_node list \<Rightarrow> bool" where
  "same_nodes ns ns' \<longleftrightarrow> length ns' = length ns \<and>
     (\<forall>y. n_cmp (ns' ! y) = n_cmp (ns ! y) \<and> n_key (ns' ! y) = n_key (ns ! y) \<and> node_height ns' y = node_height ns y)"

lemma same_nodes_simps:
  assumes "same_nodes ns ns'"
  shows "tall ns' = tall ns" "hint ns' = hint ns" "n_key (ns' ! y) = n_key (ns ! y)" "n_cmp (ns' ! y) = n_cmp (ns ! y)"
    "length ns' = length ns" "node_height ns' y = node_height ns y"
  using assms by (auto simp: same_nodes_def fun_eq_iff tall_def hint_def split: option.split)

lemma same_nodes_trans: "same_nodes ns ns' \<Longrightarrow> same_nodes ns' ns'' \<Longrightarrow> same_nodes ns ns''"
  by (simp add: same_nodes_def)

lemma same_nodes_SetNext: "same_nodes ns (SetNext ns x i c y)"
proof (cases "x < length ns")
  case True
  then show ?thesis by (auto simp: same_nodes_def SetNext_def nth_list_update)
next
  case False
  then show ?thesis by (simp add: same_nodes_def SetNext_def list_update_beyond not_less)
qed

lemma ptrs_SetNext: "x < length ns \<Longrightarrow> i < node_height ns x \<Longrightarrow>
    n_ptrs (SetNext ns x i c y ! z) ! j = (if z = x \<and> j = i then (c, y) else n_ptrs (ns ! z) ! j)"
  by (auto simp: SetNext_def nth_list_update)

lemma cas_cmp_min: "cas_cmp field (- 1) new_cmp = Some (min field new_cmp)"
proof -
  have stop: "cas_cmp f e n = Some f" if "e \<le> n" for f e n :: u64
    by (subst cas_cmp.simps) (simp add: leD [OF that])
  have hit: "cas_cmp f f n = Some n" if "n < f" for f n :: u64
    using that by (subst cas_cmp.simps) (subst cas_cmp.simps, simp add: stop)
  have miss: "cas_cmp f e n = cas_cmp f f n" if "n < e" "f \<noteq> e" for f e n :: u64
    using that by (subst cas_cmp.simps) simp
  show ?thesis
  proof (cases "new_cmp < - 1 \<and> field \<noteq> - 1")
    case True
    then show ?thesis by (cases "new_cmp < field") (simp_all add: miss hit stop min.absorb4 min.absorb1 not_less)
  next
    case False
    have "field \<le> - 1" "new_cmp \<le> - 1" by (simp_all add: word_order.extremum)
    with False show ?thesis
      by (cases "new_cmp < - 1") (auto simp: hit stop min.absorb4 min.absorb1 not_less dest: order.antisym)
  qed
qed

lemma random_height_bounds: "0 < h \<Longrightarrow> h \<le> kMaxHeight \<Longrightarrow>
    0 < fst (random_height_loop rnd h) \<and> fst (random_height_loop rnd h) \<le> kMaxHeight"
proof (induction rnd h rule: random_height_loop.induct)
  case (1 rnd h)
  obtain r rnd' where r: "rnd_Next rnd = (r, rnd')" by (cases "rnd_Next rnd")
  have eq: "random_height_loop rnd h =
      (if h < kMaxHeight then if r mod 4 = 0 then random_height_loop rnd' (h + 1) else (h, rnd') else (h, rnd))"
    by (subst random_height_loop.simps) (simp only: r prod.case)
  show ?case unfolding eq using "1.IH" [OF _ r [symmetric]] "1.prems" by simp
qed

text \<open>The arrays after a search that filled the levels up to one.\<close>

definition filled :: "(nat \<Rightarrow> 'a \<Rightarrow> bool) \<Rightarrow> nat \<Rightarrow> 'a list option \<Rightarrow> 'a list option \<Rightarrow> bool" where
  "filled P level a a' \<longleftrightarrow>
     (case a of
        None \<Rightarrow> a' = None
      | Some l \<Rightarrow> \<exists>l'. a' = Some l' \<and> length l' = length l \<and>
          (\<forall>j<length l. if j \<le> level then P j (l' ! j) else l' ! j = l ! j))"

lemma filled_here: "P 0 y \<Longrightarrow> filled P 0 a (fill a 0 y)"
  by (auto simp: filled_def fill_def nth_list_update split: option.split)

lemma filled_below:
  assumes y: "P (Suc level) y" and f: "filled P level (fill a (Suc level) y) a'"
  shows "filled P (Suc level) a a'"
proof (cases a)
  case None
  with f show ?thesis by (simp add: filled_def fill_def)
next
  case (Some l)
  with f obtain l' where l': "a' = Some l'" "length l' = length l"
      "\<And>j. j < length l \<Longrightarrow> if j \<le> level then P j (l' ! j) else l' ! j = l[Suc level := y] ! j"
    by (auto simp: filled_def fill_def)
  have "if j \<le> Suc level then P j (l' ! j) else l' ! j = l ! j" if "j < length l" for j
    using l'(3) [OF that] y that by (cases "j = Suc level") (auto simp: not_le split: if_splits)
  with l' Some show ?thesis by (simp add: filled_def)
qed

lemma fge_loop_unfold: "fge_loop compare ns key cmp x level prev obs =
    (if 0 < level \<and> cmp < NoBarrier_Cmp ns x level
     then fge_loop compare ns key cmp x (level - 1) (fill prev level x) (fill obs level None)
     else case n_ptrs (ns ! x) ! level of (c, next) \<Rightarrow>
        if c < cmp \<or> KeyIsAfterNode compare ns key next
        then case next of None \<Rightarrow> None | Some y \<Rightarrow> fge_loop compare ns key cmp y level prev obs
        else if level = 0 then Some (next, fill prev level x, fill obs level next)
        else fge_loop compare ns key cmp x (level - 1) (fill prev level x) (fill obs level next))"
proof (cases level)
  case 0
  show ?thesis unfolding 0 by (subst fge_loop.simps) (simp cong: prod.case_cong)
next
  case (Suc l)
  show ?thesis
  proof (cases "cmp < NoBarrier_Cmp ns x (Suc l)")
    case True
    then show ?thesis unfolding Suc by (subst (1 2) fge_loop.simps) simp
  next
    case False
    then show ?thesis unfolding Suc by (subst fge_loop.simps) (simp cong: prod.case_cong)
  qed
qed

section \<open>Sorted skip lists\<close>

locale sl_keys = comparator ok compare
  for ok :: "'k \<Rightarrow> bool" and compare :: "'k \<Rightarrow> 'k \<Rightarrow> int" +
  fixes extractor :: "'k option \<Rightarrow> u64"
  assumes extractor_mono: "ok a \<Longrightarrow> ok b \<Longrightarrow> compare a b \<le> 0 \<Longrightarrow> extractor (Some a) \<le> extractor (Some b)"
begin

definition sl_sorted :: "'k sl_node list \<Rightarrow> nat list \<Rightarrow> bool" where
  "sl_sorted ns base \<longleftrightarrow>
     node_height ns 0 = kMaxHeight \<and> distinct (0 # base) \<and> set (0 # base) \<subseteq> {..<length ns} \<and>
     increasing (map (node_key ns) base) \<and>
     (\<forall>y\<in>set base. n_key (ns ! y) \<noteq> None \<and> n_cmp (ns ! y) = extractor (n_key (ns ! y)) \<and>
        0 < node_height ns y \<and> node_height ns y \<le> kMaxHeight)"

definition sl_rep :: "'k sl_node list \<Rightarrow> nat list \<Rightarrow> bool" where
  "sl_rep ns base \<longleftrightarrow> sl_sorted ns base \<and> (\<forall>i. linked_at ns i (0 # base))"

definition before :: "'k sl_node list \<Rightarrow> 'k \<Rightarrow> nat list \<Rightarrow> nat list" where
  "before ns key base = takeWhile (\<lambda>y. compare (node_key ns y) key < 0) base"

definition after :: "'k sl_node list \<Rightarrow> 'k \<Rightarrow> nat list \<Rightarrow> nat list" where
  "after ns key base = dropWhile (\<lambda>y. compare (node_key ns y) key < 0) base"

lemma before_after [simp]: "before ns key base @ after ns key base = base"
  by (simp add: before_def after_def)

lemma before_less: "y \<in> set (before ns key base) \<Longrightarrow> compare (node_key ns y) key < 0"
  by (auto simp: before_def dest: set_takeWhileD)

lemma sorted_ok: "sl_sorted ns base \<Longrightarrow> y \<in> set base \<Longrightarrow> ok (node_key ns y)"
  by (auto simp: sl_sorted_def intro: increasing_ok)

lemma sorted_cmp: "sl_sorted ns base \<Longrightarrow> y \<in> set base \<Longrightarrow> n_cmp (ns ! y) = extractor (Some (node_key ns y))"
  by (auto simp: sl_sorted_def)

lemma after_not_less:
  assumes "sl_sorted ns base" "ok key" "y \<in> set (after ns key base)"
  shows "0 \<le> compare (node_key ns y) key"
proof -
  from assms(3) obtain z zs where zs: "after ns key base = z # zs" by (cases "after ns key base") auto
  then have z: "\<not> compare (node_key ns z) key < 0"
    unfolding after_def by (metis dropWhile_eq_Cons_conv)
  have mem: "set (after ns key base) \<subseteq> set base"
    unfolding after_def by (metis set_dropWhileD subsetI)
  have "increasing (map (node_key ns) (before ns key base @ z # zs))"
    using assms(1) zs before_after [of ns key base] by (metis sl_sorted_def)
  then have "y = z \<or> compare (node_key ns z) (node_key ns y) < 0"
    using assms(3) zs by (auto simp: increasing_append increasing_Cons)
  moreover have "ok (node_key ns y)" "ok (node_key ns z)"
    using sorted_ok [OF assms(1)] mem zs assms(3) by auto
  ultimately show ?thesis using z cmp_less_trans [of "node_key ns z" "node_key ns y" key] assms(2)
    by (metis not_less)
qed

lemma after_mem: "y \<in> set (after ns key base) \<Longrightarrow> y \<in> set base" and before_mem: "y \<in> set (before ns key base) \<Longrightarrow> y \<in> set base"
  unfolding after_def before_def by (auto dest: set_dropWhileD set_takeWhileD)

text \<open>One pointer, read at a node before the key: whether the search goes on.\<close>

lemma search_step:
  assumes rep: "sl_sorted ns base" and linked: "linked_at ns i (0 # base)" and key: "ok key" and at: "0 # before ns key base = as @ x # bs" and x: "tall ns i x"
    and f: "f = find (tall ns i) (bs @ after ns key base)"
  shows "n_ptrs (ns ! x) ! i = (hint ns f, f)"
    "find (tall ns i) bs = Some y \<Longrightarrow> f = Some y \<and> KeyIsAfterNode compare ns key f \<and> \<not> extractor (Some key) < hint ns f"
    "find (tall ns i) bs = None \<Longrightarrow> f = find (tall ns i) (after ns key base) \<and> \<not> KeyIsAfterNode compare ns key f \<and>
       extractor (Some key) \<le> hint ns f"
proof -
  have "linked_at ns i ((as @ x # bs) @ after ns key base)"
    unfolding at [symmetric] using linked by simp
  then have "linked_at ns i (x # bs @ after ns key base)" by (auto dest: linked_at_append)
  then show "n_ptrs (ns ! x) ! i = (hint ns f, f)" using x f by simp
  have bs: "set bs \<subseteq> set (before ns key base)"
    using at by (cases as) auto
  show "f = Some y \<and> KeyIsAfterNode compare ns key f \<and> \<not> extractor (Some key) < hint ns f"
    if y: "find (tall ns i) bs = Some y"
  proof -
    have "y \<in> set (before ns key base)" using find_SomeD [OF y] bs by auto
    then have "compare (node_key ns y) key < 0" "ok (node_key ns y)" "n_cmp (ns ! y) = extractor (Some (node_key ns y))"
      using before_less before_mem sorted_ok [OF rep] sorted_cmp [OF rep] by blast+
    then show ?thesis using y extractor_mono [of "node_key ns y" key] key
      by (simp add: f find_append KeyIsAfterNode_def hint_def)
  qed
  show "f = find (tall ns i) (after ns key base) \<and> \<not> KeyIsAfterNode compare ns key f \<and> extractor (Some key) \<le> hint ns f"
    if n: "find (tall ns i) bs = None"
  proof (cases f)
    case None
    then show ?thesis using n by (simp add: f find_append KeyIsAfterNode_def hint_def word_order.extremum)
  next
    case (Some y)
    then have y: "find (tall ns i) (after ns key base) = Some y" using n by (simp add: f find_append)
    then have "y \<in> set (after ns key base)" using find_SomeD by fast
    then have "0 \<le> compare (node_key ns y) key" "ok (node_key ns y)" "n_cmp (ns ! y) = extractor (Some (node_key ns y))"
      using after_not_less [OF rep key] after_mem sorted_ok [OF rep] sorted_cmp [OF rep] by blast+
    then show ?thesis using y Some n extractor_mono [of key "node_key ns y"] key cmp_swap(1) [of "node_key ns y" key]
      by (simp add: KeyIsAfterNode_def hint_def)
  qed
qed

lemma rep_sorted: "sl_rep ns base \<Longrightarrow> sl_sorted ns base"
  by (simp add: sl_rep_def)

lemma rep_search_step: "sl_rep ns base \<Longrightarrow> sl_sorted ns base \<and> linked_at ns i (0 # base)"
  by (simp add: sl_rep_def)

definition prev_at :: "'k sl_node list \<Rightarrow> 'k \<Rightarrow> nat list \<Rightarrow> nat \<Rightarrow> nat \<Rightarrow> bool" where
  "prev_at ns key base i p \<longleftrightarrow>
     (\<exists>as bs. 0 # before ns key base = as @ p # bs \<and> tall ns i p \<and> find (tall ns i) bs = None)"

definition obs_at :: "'k sl_node list \<Rightarrow> 'k \<Rightarrow> nat list \<Rightarrow> nat \<Rightarrow> nat option \<Rightarrow> bool" where
  "obs_at ns key base i n \<longleftrightarrow>
     n = (let f = find (tall ns i) (after ns key base)
          in if 0 < i \<and> extractor (Some key) < hint ns f then None else f)"

lemma obs_at_cases: "obs_at ns key base i n \<Longrightarrow> n = None \<or> n = find (tall ns i) (after ns key base)"
  by (auto simp: obs_at_def Let_def)

lemma fge_loop_returns:
  assumes rep: "sl_rep ns base" and key: "ok key"
  shows "0 # before ns key base = as @ x # bs \<Longrightarrow> tall ns level x \<Longrightarrow>
    \<exists>prev' obs'. fge_loop compare ns key (extractor (Some key)) x level prev obs =
      Some (find (tall ns 0) (after ns key base), prev', obs') \<and>
      filled (prev_at ns key base) level prev prev' \<and> filled (obs_at ns key base) level obs obs'"
proof (induction "level + length bs" arbitrary: as x bs level prev obs rule: less_induct)
  case less
  define f where "f = find (tall ns level) (bs @ after ns key base)"
  note step = search_step [OF conjunct1 [OF rep_search_step [OF rep]] conjunct2 [OF rep_search_step [OF rep]] key less.prems f_def]
  show ?case
  proof (cases "find (tall ns level) bs")
    case (Some y)
    from Some obtain cs ds where bs: "bs = cs @ y # ds" "tall ns level y"
      by (auto simp: find_Some_iff) (metis id_take_nth_drop)
    have goes: "fge_loop compare ns key (extractor (Some key)) x level prev obs =
        fge_loop compare ns key (extractor (Some key)) y level prev obs"
      using step(1) step(2) [OF Some] by (subst fge_loop_unfold) auto
    show ?thesis
      unfolding goes using less.prems bs by (intro less.hyps [where as = "as @ x # cs" and bs = ds]) simp_all
  next
    case None
    have stay: "\<not> hint ns f < extractor (Some key)" "\<not> KeyIsAfterNode compare ns key f"
      using step(3) [OF None] by (auto simp: not_less)
    have p: "prev_at ns key base level x" unfolding prev_at_def using less.prems None by blast
    have f: "f = find (tall ns level) (after ns key base)" using step(3) [OF None] by blast
    have obs: "obs_at ns key base level (if 0 < level \<and> extractor (Some key) < hint ns f then None else f)"
      by (simp add: obs_at_def Let_def f)
    show ?thesis
    proof (cases level)
      case 0
      have "fge_loop compare ns key (extractor (Some key)) x level prev obs = Some (f, fill prev 0 x, fill obs 0 f)"
        using step(1) stay by (subst fge_loop_unfold) (simp add: 0)
      then show ?thesis using f p obs by (simp add: 0 filled_here)
    next
      case (Suc l)
      define n where "n = (if extractor (Some key) < hint ns f then None else f)"
      have goes: "fge_loop compare ns key (extractor (Some key)) x level prev obs =
          fge_loop compare ns key (extractor (Some key)) x l (fill prev level x) (fill obs level n)"
        using step(1) stay by (subst fge_loop_unfold) (simp add: Suc n_def)
      have "obs_at ns key base level n" using obs by (simp add: n_def Suc)
      moreover have "tall ns l x" using less.prems(2) Suc by (simp add: tall_def)
      ultimately show ?thesis
        unfolding goes using less.hyps [OF _ less.prems(1), of l "fill prev level x" "fill obs level n"] p
        by (auto simp: Suc intro: filled_below)
    qed
  qed
qed

lemma rep_head: "sl_rep ns base \<Longrightarrow> i < kMaxHeight \<Longrightarrow> tall ns i 0"
  by (simp add: sl_rep_def sl_sorted_def tall_def)

lemma rep_tall_0: "sl_rep ns base \<Longrightarrow> y \<in> set base \<Longrightarrow> tall ns 0 y"
  by (simp add: sl_rep_def sl_sorted_def tall_def)

definition first :: "'a list \<Rightarrow> 'a option" where
  "first xs = (case xs of [] \<Rightarrow> None | x # _ \<Rightarrow> Some x)"

lemma find_tall_0: "sl_rep ns base \<Longrightarrow> set xs \<subseteq> set base \<Longrightarrow> find (tall ns 0) xs = first xs"
  by (cases xs) (auto simp: first_def rep_tall_0)

lemma FindGreaterOrEqual_returns:
  assumes "sl_rep ns base" "ok key"
  shows "\<exists>prev' obs'. FindGreaterOrEqual compare extractor ns key prev obs = Some (first (after ns key base), prev', obs') \<and>
      filled (prev_at ns key base) (kMaxHeight - 1) prev prev' \<and> filled (obs_at ns key base) (kMaxHeight - 1) obs obs'"
proof -
  have "find (tall ns 0) (after ns key base) = first (after ns key base)"
    using assms after_mem by (intro find_tall_0) auto
  then show ?thesis
    using fge_loop_returns [OF assms, of "[]" 0 "before ns key base" "kMaxHeight - 1" prev obs] rep_head [OF assms(1)]
    by (simp add: FindGreaterOrEqual_def kMaxHeight_def)
qed

lemma last_tall_0:
  assumes "sl_rep ns base" "0 # xs = as @ x # bs" "set xs \<subseteq> set base" "find (tall ns 0) bs = None"
  shows "x = last (0 # xs)"
proof -
  have "set bs \<subseteq> set base" using assms(2,3) by (cases as) auto
  with assms(1,4) have "bs = []" by (cases bs) (auto dest: rep_tall_0)
  with assms(2) show ?thesis by simp
qed

lemma less_than_loop_returns:
  assumes rep: "sl_rep ns base" and key: "ok key"
  shows "0 # before ns key base = as @ x # bs \<Longrightarrow> tall ns level x \<Longrightarrow>
    less_than_loop compare ns key x level = Some (last (0 # before ns key base))"
proof (induction "level + length bs" arbitrary: as x bs level rule: less_induct)
  case less
  define f where "f = find (tall ns level) (bs @ after ns key base)"
  note step = search_step [OF conjunct1 [OF rep_search_step [OF rep]] conjunct2 [OF rep_search_step [OF rep]] key less.prems f_def]
  have "x = 0 \<or> x \<in> set (before ns key base)" using less.prems(1) by (cases as) auto
  then have x: "x = 0 \<or> compare (node_key ns x) key < 0" by (auto dest: before_less)
  show ?case
  proof (cases "find (tall ns level) bs")
    case (Some y)
    from Some obtain cs ds where bs: "bs = cs @ y # ds" "tall ns level y"
      by (auto simp: find_Some_iff) (metis id_take_nth_drop)
    have "less_than_loop compare ns key x level = less_than_loop compare ns key y level"
      using step(1) step(2) [OF Some] x by (subst less_than_loop.simps) (auto simp: KeyIsAfterNode_def)
    also have "\<dots> = Some (last (0 # before ns key base))"
      using less.prems bs by (intro less.hyps [where as = "as @ x # cs" and bs = ds]) simp_all
    finally show ?thesis .
  next
    case None
    have stay: "\<not> KeyIsAfterNode compare ns key f" using step(3) [OF None] by auto
    have "less_than_loop compare ns key x level = (if level = 0 then Some x else less_than_loop compare ns key x (level - 1))"
      using step(1) stay x by (subst less_than_loop.simps) (auto simp: KeyIsAfterNode_def not_less split: option.split)
    then show ?thesis
    proof (cases level)
      case 0
      have "set (before ns key base) \<subseteq> set base" using before_mem by blast
      with 0 None last_tall_0 [OF rep less.prems(1)]
        \<open>less_than_loop compare ns key x level = _\<close> show ?thesis by simp
    next
      case (Suc l)
      have "tall ns l x" using less.prems(2) Suc by (simp add: tall_def)
      with less.hyps [OF _ less.prems(1), of l] Suc \<open>less_than_loop compare ns key x level = _\<close> show ?thesis by simp
    qed
  qed
qed

lemma FindLessThan_returns: "sl_rep ns base \<Longrightarrow> ok key \<Longrightarrow>
    FindLessThan compare ns key = Some (last (0 # before ns key base))"
  using less_than_loop_returns [of ns base key "[]" 0 "before ns key base" "kMaxHeight - 1"] rep_head
  by (simp add: FindLessThan_def kMaxHeight_def)

lemma find_last_loop_returns:
  assumes rep: "sl_rep ns base"
  shows "0 # base = as @ x # bs \<Longrightarrow> tall ns level x \<Longrightarrow> find_last_loop ns x level = Some (last (0 # base))"
proof (induction "level + length bs" arbitrary: as x bs level rule: less_induct)
  case less
  have "linked_at ns level (as @ x # bs)" unfolding less.prems(1) [symmetric] using rep by (simp add: sl_rep_def)
  then have "linked_at ns level (x # bs)" by (rule linked_at_append)
  then have ptr: "node_Next ns x level = find (tall ns level) bs" using less.prems(2) by simp
  show ?case
  proof (cases "find (tall ns level) bs")
    case (Some y)
    from Some obtain cs ds where bs: "bs = cs @ y # ds" "tall ns level y"
      by (auto simp: find_Some_iff) (metis id_take_nth_drop)
    have "find_last_loop ns x level = find_last_loop ns y level"
      using ptr Some by (subst find_last_loop.simps) simp
    also have "\<dots> = Some (last (0 # base))"
      using less.prems bs by (intro less.hyps [where as = "as @ x # cs" and bs = ds]) simp_all
    finally show ?thesis .
  next
    case None
    then have eq: "find_last_loop ns x level = (if level = 0 then Some x else find_last_loop ns x (level - 1))"
      using ptr by (subst find_last_loop.simps) simp
    show ?thesis
    proof (cases level)
      case 0
      with None last_tall_0 [OF rep less.prems(1)] eq show ?thesis by simp
    next
      case (Suc l)
      have "tall ns l x" using less.prems(2) Suc by (simp add: tall_def)
      with less.hyps [OF _ less.prems(1), of l] Suc eq show ?thesis by simp
    qed
  qed
qed

lemma FindLast_returns: "sl_rep ns base \<Longrightarrow> FindLast ns = Some (last (0 # base))"
  using find_last_loop_returns [of ns base "[]" 0 base "kMaxHeight - 1"] rep_head
  by (simp add: FindLast_def kMaxHeight_def)

end

section \<open>Insertion\<close>

text \<open>At one level, hooking a tall new node in between two parts of the sequence.\<close>

lemma linked_at_hook:
  assumes "linked_at ns i (xs @ ys)" "tall ns i z" "same_nodes ns ns'"
    "tall ns i p" "xs = as @ p # bs" "find (tall ns i) bs = None" "distinct (xs @ ys)"
    "\<And>y. n_ptrs (ns' ! y) ! i = (if y = p then (n_cmp (ns ! z), Some z)
        else if y = z then (hint ns (find (tall ns i) ys), find (tall ns i) ys) else n_ptrs (ns ! y) ! i)"
    "z \<notin> set (xs @ ys)"
  shows "linked_at ns' i (xs @ z # ys)"
  using assms(1,5,7,9)
proof (induction xs arbitrary: as)
  case (Cons x xs)
  note simps = same_nodes_simps [OF assms(3)]
  show ?case
  proof (cases as)
    case Nil
    with Cons.prems have x: "x = p" "xs = bs" by auto
    have "linked_at ns' i l" if "linked_at ns i l" "p \<notin> set l" "z \<notin> set l" for l
      using that by (induction l) (auto simp: simps assms(8))
    moreover have "linked_at ns i ys" using Cons.prems(1) linked_at_append by blast
    moreover have "p \<notin> set ys" "z \<notin> set ys" "z \<noteq> p" using Cons.prems x by auto
    ultimately have ys: "linked_at ns' i ys" by blast
    have "linked_at ns' i (cs @ z # ys)" if "find (tall ns i) cs = None" for cs
      using that ys \<open>z \<noteq> p\<close> by (induction cs) (auto simp: simps assms(8) split: if_splits)
    then show ?thesis
      using x assms(2,6) by (simp add: simps assms(8) find_append hint_def)
  next
    case (Cons a as')
    with Cons.prems have xs: "xs = as' @ p # bs" and "x \<noteq> p" "x \<noteq> z" by auto
    moreover have "find (tall ns i) (xs @ ys) = find (tall ns i) (xs @ z # ys)"
      using assms(4) by (simp add: xs find_append split: option.split)
    ultimately show ?thesis
      using Cons.IH [OF _ xs] Cons.prems by (simp add: simps assms(8))
  qed
qed simp

lemma linked_at_skip: "linked_at ns i (xs @ ys) \<Longrightarrow> \<not> tall ns i z \<Longrightarrow> linked_at ns i (xs @ z # ys)"
  by (induction xs) (auto simp: find_append split: option.splits)

lemma linked_at_cong: "same_nodes ns ns' \<Longrightarrow> (\<And>y. y \<in> set xs \<Longrightarrow> n_ptrs (ns' ! y) ! i = n_ptrs (ns ! y) ! i) \<Longrightarrow>
    linked_at ns' i xs = linked_at ns i xs"
  by (induction xs) (simp_all add: same_nodes_simps)

context sl_keys
begin

text \<open>The state in which one level of a new node is linked.\<close>

definition linking :: "'k sl_node list \<Rightarrow> nat list \<Rightarrow> 'k \<Rightarrow> nat \<Rightarrow> nat \<Rightarrow> bool" where
  "linking ns base key x i \<longleftrightarrow>
     sl_sorted ns base \<and> ok key \<and> linked_at ns i (0 # base) \<and> x \<notin> set (0 # base) \<and> x < length ns \<and>
     n_key (ns ! x) = Some key \<and> n_cmp (ns ! x) = extractor (Some key) \<and> tall ns i x"

lemma same_nodes_keys:
  assumes "same_nodes ns ns'"
  shows "sl_sorted ns' base = sl_sorted ns base" "before ns' key base = before ns key base" "after ns' key base = after ns key base"
    "prev_at ns' key base i p = prev_at ns key base i p" "obs_at ns' key base i n = obs_at ns key base i n"
  using same_nodes_simps [OF assms]
  by (simp_all add: sl_sorted_def before_def after_def prev_at_def obs_at_def)

lemma linking_SetNext_self: "linking ns base key x i \<Longrightarrow> linking (SetNext ns x i c n) base key x i"
proof -
  assume l: "linking ns base key x i"
  note same = same_nodes_SetNext [of ns x i c n]
  have "linked_at (SetNext ns x i c n) i (0 # base) = linked_at ns i (0 # base)"
    using l by (intro linked_at_cong [OF same]) (auto simp: linking_def ptrs_SetNext tall_def)
  with l show ?thesis
    by (simp add: linking_def same_nodes_simps [OF same] same_nodes_keys [OF same])
qed

lemma linking_ptr:
  assumes "linking ns base key x i" "prev_at ns key base i p"
  shows "n_ptrs (ns ! p) ! i = (hint ns (find (tall ns i) (after ns key base)), find (tall ns i) (after ns key base))"
    "extractor (Some key) \<le> hint ns (find (tall ns i) (after ns key base))"
    "\<not> KeyIsAfterNode compare ns key (find (tall ns i) (after ns key base))"
    "p \<noteq> x" "p < length ns" "tall ns i p"
proof -
  obtain as bs where p: "0 # before ns key base = as @ p # bs" "tall ns i p" "find (tall ns i) bs = None"
    using assms(2) by (auto simp: prev_at_def)
  have l: "sl_sorted ns base" "linked_at ns i (0 # base)" "ok key" using assms(1) by (simp_all add: linking_def)
  define f where "f = find (tall ns i) (bs @ after ns key base)"
  note step = search_step [OF l p(1,2) f_def]
  have f: "f = find (tall ns i) (after ns key base)" using step(3) [OF p(3)] by blast
  show "n_ptrs (ns ! p) ! i = (hint ns (find (tall ns i) (after ns key base)), find (tall ns i) (after ns key base))"
    "extractor (Some key) \<le> hint ns (find (tall ns i) (after ns key base))"
    "\<not> KeyIsAfterNode compare ns key (find (tall ns i) (after ns key base))"
    using step(1) step(3) [OF p(3)] unfolding f [symmetric] by auto
  have "p \<in> set (0 # before ns key base)" unfolding p(1) by simp
  then have "p \<in> set (0 # base)" using before_mem [of p ns key base] by auto
  then show "p \<noteq> x" "p < length ns" using assms(1) by (auto simp: linking_def sl_sorted_def)
  show "tall ns i p" by (rule p(2))
qed

lemma insert_level_found:
  assumes l: "linking ns base key x i" and p: "prev_at ns key base i p"
    and n: "n = find (tall ns i) (after ns key base)"
  shows "\<exists>ns'. insert_level compare ns x i p n = Some ns' \<and> same_nodes ns ns' \<and>
    (\<forall>y j. j \<noteq> i \<longrightarrow> n_ptrs (ns' ! y) ! j = n_ptrs (ns ! y) ! j) \<and>
    linked_at ns' i (0 # before ns key base @ x # after ns key base)"
proof -
  let ?c = "hint ns n" and ?k = "extractor (Some key)"
  define ns1 where "ns1 = SetNext ns x i ?c n"
  define ns2 where "ns2 = SetNext ns1 p i ?k (Some x)"
  have same1: "same_nodes ns ns1" unfolding ns1_def by (rule same_nodes_SetNext)
  then have same: "same_nodes ns ns2" using same_nodes_SetNext same_nodes_trans unfolding ns2_def by blast
  have x: "x < length ns" "tall ns i x" "n_cmp (ns ! x) = ?k" using l by (simp_all add: linking_def)
  note ptr = linking_ptr [OF l p]
  have n_ptr1: "n_ptrs (ns1 ! y) ! j = (if y = x \<and> j = i then (?c, n) else n_ptrs (ns ! y) ! j)" for y j
    using x by (simp add: ns1_def ptrs_SetNext tall_def)
  have n_ptr2: "n_ptrs (ns2 ! y) ! j = (if y = p \<and> j = i then (?k, Some x) else n_ptrs (ns1 ! y) ! j)" for y j
    unfolding ns2_def using ptr(5,6) same_nodes_simps(5,6) [OF same1] by (simp add: ptrs_SetNext tall_def)
  have "CasNext ns1 p i n x = Some (True, ns2)"
    using ptr by (simp add: CasNext_def n_ptr1 n cas_cmp_min same_nodes_simps [OF same1] x ns2_def min.absorb2)
  moreover have "?k \<le> ?c" using ptr(2) n by simp
  ultimately have "insert_level compare ns x i p n = Some ns2"
    by (subst insert_level.simps)
      (simp add: Let_def hint_def [symmetric] ns1_def [symmetric] same_nodes_simps [OF same1] x)
  moreover have "linked_at ns2 i ((0 # before ns key base) @ x # after ns key base)"
  proof -
    obtain as bs where at: "0 # before ns key base = as @ p # bs" "find (tall ns i) bs = None"
      using p by (auto simp: prev_at_def)
    have split: "(0 # before ns key base) @ after ns key base = 0 # base" by simp
    have linked: "linked_at ns i ((0 # before ns key base) @ after ns key base)"
      and dist: "distinct ((0 # before ns key base) @ after ns key base)"
      and notin: "x \<notin> set ((0 # before ns key base) @ after ns key base)"
      unfolding split using l by (simp_all add: linking_def sl_sorted_def)
    show ?thesis
      by (rule linked_at_hook [OF linked x(2) same ptr(6) at dist _ notin])
        (use ptr(4) in \<open>simp add: n_ptr1 n_ptr2 x(3) n\<close>)
  qed
  moreover have "\<forall>y j. j \<noteq> i \<longrightarrow> n_ptrs (ns2 ! y) ! j = n_ptrs (ns ! y) ! j" by (simp add: n_ptr1 n_ptr2)
  ultimately show ?thesis using same by auto
qed

lemma insert_level_returns:
  assumes l: "linking ns base key x i" and p: "prev_at ns key base i p" and n: "obs_at ns key base i n"
  shows "\<exists>ns'. insert_level compare ns x i p n = Some ns' \<and> same_nodes ns ns' \<and>
    (\<forall>y j. j \<noteq> i \<longrightarrow> n_ptrs (ns' ! y) ! j = n_ptrs (ns ! y) ! j) \<and>
    linked_at ns' i (0 # before ns key base @ x # after ns key base)"
proof (cases "n = find (tall ns i) (after ns key base)")
  case True
  then show ?thesis using insert_level_found [OF l p] by simp
next
  case False
  define f where "f = find (tall ns i) (after ns key base)"
  define ns1 where "ns1 = SetNext ns x i (- 1) None"
  have None: "n = None" "f \<noteq> None" using obs_at_cases [OF n] False by (auto simp: f_def)
  have same: "same_nodes ns ns1" unfolding ns1_def by (rule same_nodes_SetNext)
  note same_simps = same_nodes_simps [OF same] same_nodes_keys [OF same]
  have l1: "linking ns1 base key x i" unfolding ns1_def using l by (rule linking_SetNext_self)
  have p1: "prev_at ns1 key base i p" using p by (simp add: same_simps)
  have f1: "f = find (tall ns1 i) (after ns1 key base)" by (simp add: f_def same_simps)
  note ptr = linking_ptr [OF l1 p1, folded f1]
  have x: "n_cmp (ns1 ! x) = extractor (Some key)" "n_key (ns1 ! x) = Some key" using l1 by (simp_all add: linking_def)
  have "insert_advance compare ns1 x i p = Some (p, f)"
    using ptr(1-3) x by (subst insert_advance.simps) (simp add: not_less [symmetric])
  moreover have "CasNext ns1 p i None x = Some (False, ns1)"
    using ptr(1) None(2) by (auto simp: CasNext_def)
  ultimately have eq: "insert_level compare ns x i p n = insert_level compare ns1 x i p f"
    using x None(1) by (subst insert_level.simps) (simp add: Let_def ns1_def [symmetric])
  obtain ns' where ns': "insert_level compare ns1 x i p f = Some ns'" "same_nodes ns1 ns'"
      "\<forall>y j. j \<noteq> i \<longrightarrow> n_ptrs (ns' ! y) ! j = n_ptrs (ns1 ! y) ! j" "linked_at ns' i (0 # before ns1 key base @ x # after ns1 key base)"
    using insert_level_found [OF l1 p1 f1] by blast
  have "n_ptrs (ns1 ! y) ! j = n_ptrs (ns ! y) ! j" if "j \<noteq> i" for y j
    using that l by (simp add: ns1_def ptrs_SetNext linking_def tall_def)
  with ns' same_nodes_trans [OF same ns'(2)] show ?thesis by (simp add: eq same_simps)
qed

lemma insert_levels_returns:
  assumes "sl_sorted ns base" "ok key" "x \<notin> set (0 # base)" "x < length ns" "n_key (ns ! x) = Some key"
    "n_cmp (ns ! x) = extractor (Some key)"
    "\<forall>j<node_height ns x. prev_at ns key base j (prev ! j) \<and> obs_at ns key base j (obs ! j)"
    "\<forall>j<i. linked_at ns j (0 # before ns key base @ x # after ns key base)" "\<forall>j\<ge>i. linked_at ns j (0 # base)"
  shows "\<exists>ns'. insert_levels compare ns x [i..<node_height ns x] prev obs = Some ns' \<and> same_nodes ns ns' \<and>
    (\<forall>j. linked_at ns' j (0 # before ns key base @ x # after ns key base))"
  using assms
proof (induction "node_height ns x - i" arbitrary: i ns)
  case 0
  have "linked_at ns j (0 # before ns key base @ x # after ns key base)" for j
  proof (cases "j < i")
    case False
    with 0 have "\<not> tall ns j x" "linked_at ns j ((0 # before ns key base) @ after ns key base)"
      by (simp_all add: tall_def)
    then show ?thesis using linked_at_skip by fastforce
  qed (use 0 in simp)
  with 0 show ?case by (simp add: same_nodes_def)
next
  case (Suc d)
  then have i: "i < node_height ns x" by simp
  have l: "linking ns base key x i" using Suc.prems i by (simp add: linking_def tall_def)
  obtain ns1 where ns1: "insert_level compare ns x i (prev ! i) (obs ! i) = Some ns1" "same_nodes ns ns1"
      "\<forall>y j. j \<noteq> i \<longrightarrow> n_ptrs (ns1 ! y) ! j = n_ptrs (ns ! y) ! j"
      "linked_at ns1 i (0 # before ns key base @ x # after ns key base)"
    using insert_level_returns [OF l] Suc.prems(7) i by blast
  note same = same_nodes_simps [OF ns1(2)] same_nodes_keys [OF ns1(2)]
  have "linked_at ns1 j xs = linked_at ns j xs" if "j \<noteq> i" for j xs
    using that ns1(3) by (intro linked_at_cong [OF ns1(2)]) simp
  then have linked: "\<forall>j<Suc i. linked_at ns1 j (0 # before ns1 key base @ x # after ns1 key base)"
    "\<forall>j\<ge>Suc i. linked_at ns1 j (0 # base)"
    using ns1(4) Suc.prems(8,9) unfolding same by (auto simp: less_Suc_eq simp del: linked_at.simps)
  have "\<exists>ns'. insert_levels compare ns1 x [Suc i..<node_height ns1 x] prev obs = Some ns' \<and> same_nodes ns1 ns' \<and>
    (\<forall>j. linked_at ns' j (0 # before ns1 key base @ x # after ns1 key base))"
    using Suc.prems(1-7) Suc.hyps(2) by (intro Suc.hyps(1) linked) (simp_all add: same)
  then show ?case
    using ns1(1) same_nodes_trans [OF ns1(2)] i by (auto simp: same upt_conv_Cons)
qed

lemma insert_between: "us @ vs = base \<Longrightarrow> set (us @ x # vs) = insert x (set base) \<and> (distinct (us @ x # vs) \<longleftrightarrow> distinct (x # base))"
  by auto

lemma NewNode_keeps:
  assumes "NewNode extractor ns key h = (x, ns')" and y: "y < length ns"
  shows "ns' ! y = ns ! y" and "x = length ns" "length ns' = Suc (length ns)"
    "ns' ! x = \<lparr>n_cmp = extractor key, n_key = key, n_ptrs = replicate h (- 1, None)\<rparr>"
  using assms by (auto simp: NewNode_def nth_append)

lemma linked_at_same: "(\<And>y. y \<in> set xs \<Longrightarrow> ns' ! y = ns ! y) \<Longrightarrow> linked_at ns' i xs = linked_at ns i xs"
proof (induction xs)
  case (Cons x xs)
  then have "find (tall ns' i) xs = find (tall ns i) xs"
    by (intro find_cong) (simp_all add: tall_def)
  moreover have "hint ns' (find (tall ns i) xs) = hint ns (find (tall ns i) xs)"
    using Cons.prems by (auto simp: hint_def dest: find_SomeD split: option.split)
  ultimately show ?case using Cons by (simp add: tall_def)
qed simp

lemma NewNode_rep:
  assumes rep: "sl_rep ns base" and new: "NewNode extractor ns key h = (x, ns')"
  shows "sl_rep ns' base" "x \<notin> set (0 # base)" "before ns' k base = before ns k base" "after ns' k base = after ns k base"
    "prev_at ns' k base i p \<longleftrightarrow> prev_at ns k base i p" "obs_at ns' k base i n \<longleftrightarrow> obs_at ns k base i n"
proof -
  have lt: "y < length ns" if "y \<in> set (0 # base)" for y
    using rep that by (auto simp: sl_rep_def sl_sorted_def)
  then have keep: "ns' ! y = ns ! y" if "y \<in> set (0 # base)" for y using NewNode_keeps(1) [OF new] that by blast
  have len: "length ns' = Suc (length ns)" "x = length ns" using new by (auto simp: NewNode_def)
  have "map (node_key ns') base = map (node_key ns) base" using keep by simp
  then have "increasing (map (node_key ns') base)" using rep by (metis sl_rep_def sl_sorted_def)
  then have "sl_sorted ns' base"
    using rep keep len by (auto simp: sl_rep_def sl_sorted_def intro: less_SucI)
  moreover have "linked_at ns' i (0 # base)" for i
    using rep linked_at_same [of "0 # base" ns' ns i] keep by (simp add: sl_rep_def del: linked_at.simps)
  ultimately show "sl_rep ns' base" by (simp add: sl_rep_def)
  show "x \<notin> set (0 # base)" using lt len by blast
  show b: "before ns' k base = before ns k base"
    unfolding before_def using keep by (intro takeWhile_cong) simp_all
  show a: "after ns' k base = after ns k base"
    unfolding after_def using keep by (intro dropWhile_cong) simp_all
  have tall: "tall ns' i y = tall ns i y" if "y \<in> set (0 # base)" for i y using keep [OF that] by (simp add: tall_def)
  have tail: "find (tall ns' i) bs = find (tall ns i) bs \<and> tall ns' i p = tall ns i p"
    if "0 # before ns k base = as @ p # bs" for as p bs i
  proof -
    have "set (as @ p # bs) \<subseteq> set (0 # base)" unfolding that [symmetric] using before_mem by auto
    then have "\<forall>y\<in>set bs. tall ns' i y = tall ns i y" "tall ns' i p = tall ns i p" using tall by auto
    then show ?thesis using find_cong [OF refl, of bs "tall ns' i" "tall ns i"] by simp
  qed
  show "prev_at ns' k base i p \<longleftrightarrow> prev_at ns k base i p"
    unfolding prev_at_def b using tail by metis
  have f: "find (tall ns' i) (after ns k base) = find (tall ns i) (after ns k base)"
    using tall after_mem [of _ ns k base] by (intro find_cong) auto
  have "hint ns' (find (tall ns i) (after ns k base)) = hint ns (find (tall ns i) (after ns k base))"
    using keep after_mem [of _ ns k base] by (auto simp: hint_def dest!: find_SomeD split: option.split)
  then show "obs_at ns' k base i n \<longleftrightarrow> obs_at ns k base i n" by (simp add: obs_at_def a f)
qed

theorem Insert_returns:
  assumes rep: "sl_rep (sl_nodes s) base" and key: "ok key" and new: "\<forall>y\<in>set base. compare key (node_key (sl_nodes s) y) \<noteq> 0"
    and arrays: "length prev0 = kMaxHeight" "length obs0 = kMaxHeight"
  shows "\<exists>s' x. Insert compare extractor prev0 obs0 s key = Some s' \<and>
    sl_rep (sl_nodes s') (before (sl_nodes s) key base @ x # after (sl_nodes s) key base) \<and>
    map (node_key (sl_nodes s')) (before (sl_nodes s) key base @ x # after (sl_nodes s) key base) =
      map (node_key (sl_nodes s)) (before (sl_nodes s) key base) @ key # map (node_key (sl_nodes s)) (after (sl_nodes s) key base)"
proof -
  let ?ns = "sl_nodes s" and ?before = "before (sl_nodes s) key base" and ?after = "after (sl_nodes s) key base"
  obtain prev obs where fge: "FindGreaterOrEqual compare extractor ?ns key (Some prev0) (Some obs0) = Some (first ?after, Some prev, Some obs)"
      and prev: "\<forall>j<kMaxHeight. prev_at ?ns key base j (prev ! j)" and obs: "\<forall>j<kMaxHeight. obs_at ?ns key base j (obs ! j)"
    using FindGreaterOrEqual_returns [OF rep key, of "Some prev0" "Some obs0"] arrays
    by (auto simp: filled_def kMaxHeight_def)
  have neq: "case first ?after of None \<Rightarrow> True | Some y \<Rightarrow> compare key (node_key ?ns y) \<noteq> 0"
    using new after_mem [of _ ?ns key base] by (auto simp: first_def split: list.split)
  obtain h rnd where h: "RandomHeight (sl_rnd s) = (h, rnd)" by (cases "RandomHeight (sl_rnd s)")
  have hb: "0 < h" "h \<le> kMaxHeight"
    using random_height_bounds [of 1 "sl_rnd s"] h by (simp_all add: RandomHeight_def kMaxHeight_def)
  obtain x ns1 where ns1: "NewNode extractor ?ns (Some key) h = (x, ns1)" by (cases "NewNode extractor ?ns (Some key) h")
  note rep1 = NewNode_rep [OF rep ns1]
  have len: "0 < length ?ns" using rep by (auto simp: sl_rep_def sl_sorted_def)
  have x: "ns1 ! x = \<lparr>n_cmp = extractor (Some key), n_key = Some key, n_ptrs = replicate h (- 1, None)\<rparr>"
      "x = length ?ns" "length ns1 = Suc (length ?ns)"
    using NewNode_keeps [OF ns1 len] by auto
  have "\<exists>ns2. insert_levels compare ns1 x [0..<node_height ns1 x] prev obs = Some ns2 \<and> same_nodes ns1 ns2 \<and>
    (\<forall>j. linked_at ns2 j (0 # before ns1 key base @ x # after ns1 key base))"
    using rep1(1) prev obs hb x key rep1(2) by (intro insert_levels_returns) (auto simp: sl_rep_def rep1(3-))
  then obtain ns2 where ns2: "insert_levels compare ns1 x [0..<h] prev obs = Some ns2" "same_nodes ns1 ns2"
    "\<forall>j. linked_at ns2 j (0 # ?before @ x # ?after)"
    unfolding rep1(3,4) x(1) by auto
  note same = same_nodes_simps [OF ns2(2)]
  have keys: "node_key ns2 y = node_key ?ns y" if "y \<in> set base" for y
    using that rep NewNode_keeps(1) [OF ns1, of y] by (auto simp: same sl_rep_def sl_sorted_def)
  have kx: "node_key ns2 x = key" by (simp add: same x(1))
  have maps: "map (node_key ns2) ?before = map (node_key ?ns) ?before" "map (node_key ns2) ?after = map (node_key ?ns) ?after"
    using keys before_mem [of _ ?ns key base] after_mem [of _ ?ns key base] by auto
  have "sl_sorted ns2 (?before @ x # ?after)"
  proof -
    have s2: "sl_sorted ns2 base" using rep1(1) same_nodes_keys(1) [OF ns2(2)] by (simp add: sl_rep_def)
    have "increasing (map (node_key ns2) (?before @ x # ?after))"
    proof -
      have "increasing (map (node_key ?ns) (?before @ ?after))" using rep by (simp add: sl_rep_def sl_sorted_def)
      moreover have "compare (node_key ?ns y) key < 0" if "y \<in> set ?before" for y using that by (rule before_less)
      moreover have "compare key (node_key ?ns y) < 0" if y: "y \<in> set ?after" for y
      proof -
        have "ok (node_key ?ns y)" using sorted_ok [OF rep_sorted [OF rep]] after_mem [OF y] by blast
        then have "compare key (node_key ?ns y) \<le> 0"
          using after_not_less [OF rep_sorted [OF rep] key y] cmp_swap(1) [of "node_key ?ns y" key] key by simp
        with new after_mem [OF y] show ?thesis by force
      qed
      ultimately show ?thesis
        using key by (auto simp: maps kx increasing_append increasing_Cons simp del: before_after)
    qed
    moreover have "set (?before @ x # ?after) = insert x (set base)" "distinct (?before @ x # ?after) \<longleftrightarrow> distinct (x # base)"
      using insert_between [OF before_after [of ?ns key base]] by auto
    ultimately show ?thesis
      using s2 rep1(2) x hb by (auto simp: sl_sorted_def same)
  qed
  with ns2 have "sl_rep ns2 (?before @ x # ?after)" by (simp add: sl_rep_def)
  moreover have "Insert compare extractor prev0 obs0 s key = Some (s\<lparr>sl_nodes := ns2, sl_rnd := rnd\<rparr>)"
    using neq by (simp add: Insert_def fge h ns1 ns2(1))
  ultimately show ?thesis by (intro exI [of _ "s\<lparr>sl_nodes := ns2, sl_rnd := rnd\<rparr>"] exI [of _ x]) (simp add: maps kx)
qed

text \<open>The search overwrites the arrays it is given, so what they hold before does not matter.\<close>

lemma prev_at_unique: "prev_at ns key base i p \<Longrightarrow> prev_at ns key base i p' \<Longrightarrow> p = p'"
proof -
  have "p = last (filter (tall ns i) (0 # before ns key base))" if "prev_at ns key base i p" for p
  proof -
    obtain as bs where p: "0 # before ns key base = as @ p # bs" "tall ns i p" "find (tall ns i) bs = None"
      using \<open>prev_at ns key base i p\<close> by (auto simp: prev_at_def)
    then have "filter (tall ns i) bs = []" by (auto simp: find_None_iff filter_empty_conv)
    with p show ?thesis by simp
  qed
  then show "prev_at ns key base i p \<Longrightarrow> prev_at ns key base i p' \<Longrightarrow> p = p'" by blast
qed

lemma filled_unique:
  assumes "\<And>j x y. P j x \<Longrightarrow> P j y \<Longrightarrow> x = y" "filled P n (Some l1) r1" "filled P n (Some l2) r2" "length l1 = Suc n" "length l2 = Suc n"
  shows "r1 = r2"
  using assms by (auto simp: filled_def less_Suc_eq_le intro!: nth_equalityI)

lemma Insert_arrays:
  assumes "sl_rep (sl_nodes s) base" "ok key" "length prev0 = kMaxHeight" "length obs0 = kMaxHeight"
    "length prev1 = kMaxHeight" "length obs1 = kMaxHeight"
  shows "Insert compare extractor prev0 obs0 s key = Insert compare extractor prev1 obs1 s key"
proof -
  have *: "kMaxHeight = Suc (kMaxHeight - 1)" by (simp add: kMaxHeight_def)
  have "FindGreaterOrEqual compare extractor (sl_nodes s) key (Some prev0) (Some obs0) =
      FindGreaterOrEqual compare extractor (sl_nodes s) key (Some prev1) (Some obs1)"
    using FindGreaterOrEqual_returns [OF assms(1,2), of "Some prev0" "Some obs0"]
      FindGreaterOrEqual_returns [OF assms(1,2), of "Some prev1" "Some obs1"] assms(3-)
      filled_unique [of "prev_at (sl_nodes s) key base" "kMaxHeight - 1" prev0 _ prev1]
      filled_unique [of "obs_at (sl_nodes s) key base" "kMaxHeight - 1" obs0 _ obs1]
      prev_at_unique * by (fastforce simp: obs_at_def)
  then show ?thesis by (simp add: Insert_def)
qed

text \<open>A list represents a sequence of keys; an iterator stands at a position of it.\<close>

definition sl_holds :: "'k SkipList \<Rightarrow> nat list \<Rightarrow> 'k list \<Rightarrow> bool" where
  "sl_holds s base ks \<longleftrightarrow> sl_rep (sl_nodes s) base \<and> ks = map (node_key (sl_nodes s)) base"

definition at_pos :: "nat list \<Rightarrow> nat \<Rightarrow> sl_iterator" where
  "at_pos base i = (if i < length base then Some (base ! i) else None)"

lemma new_holds: "sl_holds (new_SkipList extractor) [] []"
proof -
  have "(replicate n x)[a := x] = replicate n x" for n a :: nat and x :: "u64 \<times> nat option"
    by (cases "a < n") (simp_all add: list_update_same_conv list_update_beyond not_less)
  then have "foldl (\<lambda>ns i. SetNext ns 0 i (- 1) None) [\<lparr>n_cmp = c, n_key = None :: 'k option, n_ptrs = replicate kMaxHeight (- 1, None)\<rparr>] is =
      [\<lparr>n_cmp = c, n_key = None, n_ptrs = replicate kMaxHeight (- 1, None)\<rparr>]" for c "is"
    by (induction "is") (simp_all add: SetNext_def)
  then show ?thesis
    by (auto simp: sl_holds_def new_SkipList_def NewNode_def sl_rep_def sl_sorted_def increasing_def tall_def hint_def kMaxHeight_def)
qed

lemma holds_increasing: "sl_holds s base ks \<Longrightarrow> increasing ks"
  by (simp add: sl_holds_def sl_rep_def sl_sorted_def)

lemma holds_before: "sl_holds s base ks \<Longrightarrow>
    map (node_key (sl_nodes s)) (before (sl_nodes s) key base) = takeWhile (\<lambda>k. compare k key < 0) ks"
  "sl_holds s base ks \<Longrightarrow>
    map (node_key (sl_nodes s)) (after (sl_nodes s) key base) = dropWhile (\<lambda>k. compare k key < 0) ks"
  by (simp_all add: sl_holds_def before_def after_def takeWhile_map dropWhile_map comp_def)

lemma Insert_holds:
  assumes "sl_holds s base ks" "ok key" "\<forall>k\<in>set ks. compare key k \<noteq> 0" "length prev0 = kMaxHeight" "length obs0 = kMaxHeight"
  shows "\<exists>s' base'. Insert compare extractor prev0 obs0 s key = Some s' \<and>
    sl_holds s' base' (takeWhile (\<lambda>k. compare k key < 0) ks @ key # dropWhile (\<lambda>k. compare k key < 0) ks)"
  using Insert_returns [of s base key prev0 obs0] assms holds_before [OF assms(1), of key]
  by (fastforce simp: sl_holds_def)

lemma Insert_duplicate:
  assumes holds: "sl_holds s base ks" and key: "ok key" and k: "k \<in> set ks" "compare key k = 0"
    and arrays: "length prev0 = kMaxHeight" "length obs0 = kMaxHeight"
  shows "Insert compare extractor prev0 obs0 s key = None"
proof -
  have rep: "sl_rep (sl_nodes s) base" using holds by (simp add: sl_holds_def)
  have ok: "ok k'" if "k' \<in> set ks" for k' using increasing_ok [OF holds_increasing [OF holds] that] .
  have eq: "compare k key = 0" using cmp_swap(3) [of key k] key ok k by simp
  have "\<not> compare k key < 0" using eq by simp
  then have "k \<in> set (dropWhile (\<lambda>k. compare k key < 0) ks)"
    by (metis Un_iff k(1) set_append set_takeWhileD takeWhile_dropWhile_id)
  then obtain d ds where d: "dropWhile (\<lambda>k. compare k key < 0) ks = d # ds" "k = d \<or> k \<in> set ds"
    by (cases "dropWhile (\<lambda>k. compare k key < 0) ks") auto
  have inc: "increasing (d # ds)"
    using holds_increasing [OF holds] takeWhile_dropWhile_id [of "\<lambda>k. compare k key < 0" ks] d(1)
    by (metis increasing_append)
  have "\<not> compare d key < 0" using d(1) by (metis dropWhile_eq_Cons_conv)
  then have "k = d"
    using d(2) inc ok [OF k(1)] eq cmp_less_le_trans [of d k key] key by (auto simp: increasing_Cons)
  obtain y ys where y: "after (sl_nodes s) key base = y # ys" "node_key (sl_nodes s) y = d"
    using holds_before(2) [OF holds, of key] d(1) by (cases "after (sl_nodes s) key base") auto
  obtain p obs where "FindGreaterOrEqual compare extractor (sl_nodes s) key (Some prev0) (Some obs0) = Some (Some y, p, obs)"
    using FindGreaterOrEqual_returns [OF rep key, of "Some prev0" "Some obs0"] y(1) by (auto simp: first_def)
  then show ?thesis
    using y(2) \<open>k = d\<close> k(2) by (auto simp: Insert_def split: option.split)
qed

lemma holds_ptr: "sl_holds s base ks \<Longrightarrow> i < length base \<Longrightarrow>
    node_Next (sl_nodes s) (base ! i) 0 = at_pos base (Suc i)"
proof -
  assume h: "sl_holds s base ks" and i: "i < length base"
  have rep: "sl_rep (sl_nodes s) base" using h by (simp add: sl_holds_def)
  have "linked_at (sl_nodes s) 0 ((0 # take i base) @ base ! i # drop (Suc i) base)"
    using rep i by (simp add: sl_rep_def id_take_nth_drop [symmetric])
  then have "linked_at (sl_nodes s) 0 (base ! i # drop (Suc i) base)" by (rule linked_at_append)
  moreover have "find (tall (sl_nodes s) 0) (drop (Suc i) base) = first (drop (Suc i) base)"
    using rep by (intro find_tall_0) (auto dest: in_set_dropD)
  ultimately show ?thesis
    using rep_tall_0 [OF rep nth_mem [OF i]]
    by (cases "Suc i < length base") (simp_all add: first_def at_pos_def Cons_nth_drop_Suc [symmetric])
qed

lemma iter_pos:
  assumes "sl_holds s base ks"
  shows "iter_SeekToFirst s = at_pos base 0"
    "i < length ks \<Longrightarrow> iter_Next s (at_pos base i) = at_pos base (Suc i)"
    "i < length ks \<Longrightarrow> iter_key s (at_pos base i) = ks ! i"
    "iter_Valid (at_pos base i) \<longleftrightarrow> i < length ks"
proof -
  have len: "length ks = length base" and rep: "sl_rep (sl_nodes s) base" using assms by (simp_all add: sl_holds_def)
  have "find (tall (sl_nodes s) 0) base = first base" by (rule find_tall_0 [OF rep]) simp
  moreover have "linked_at (sl_nodes s) 0 (0 # base)" using rep by (simp add: sl_rep_def)
  ultimately show "iter_SeekToFirst s = at_pos base 0"
    using rep_head [OF rep, of 0] by (cases base) (simp_all add: iter_SeekToFirst_def at_pos_def first_def kMaxHeight_def)
  show "i < length ks \<Longrightarrow> iter_Next s (at_pos base i) = at_pos base (Suc i)"
    using holds_ptr [OF assms, of i] len by (simp add: iter_Next_def at_pos_def)
  show "i < length ks \<Longrightarrow> iter_key s (at_pos base i) = ks ! i"
    using assms by (simp add: iter_key_def at_pos_def sl_holds_def)
  show "iter_Valid (at_pos base i) \<longleftrightarrow> i < length ks" by (simp add: iter_Valid_def at_pos_def len)
qed

lemma first_pos: "us @ vs = base \<Longrightarrow> first vs = at_pos base (length us)"
  by (cases vs) (auto simp: first_def at_pos_def)

lemma iter_Seek_pos: "sl_holds s base ks \<Longrightarrow> ok target \<Longrightarrow>
    iter_Seek compare extractor s target = Some (at_pos base (length (takeWhile (\<lambda>k. compare k target < 0) ks)))"
proof -
  assume h: "sl_holds s base ks" and t: "ok target"
  have "length (takeWhile (\<lambda>k. compare k target < 0) ks) = length (before (sl_nodes s) target base)"
    using holds_before(1) [OF h, of target] by (metis length_map)
  moreover have "first (after (sl_nodes s) target base) = at_pos base (length (before (sl_nodes s) target base))"
    using before_after [of "sl_nodes s" target base]
    by (rule first_pos)
  ultimately show ?thesis
    using FindGreaterOrEqual_returns [OF _ t, of "sl_nodes s" base None None] h by (auto simp: iter_Seek_def sl_holds_def)
qed

lemma rep_nonzero: "sl_rep ns base \<Longrightarrow> i < length base \<Longrightarrow> base ! i \<noteq> 0"
  unfolding sl_rep_def sl_sorted_def by (metis distinct.simps(2) nth_mem)

lemma iter_SeekToLast_pos: "sl_holds s base ks \<Longrightarrow>
    iter_SeekToLast s = Some (if ks = [] then None else at_pos base (length ks - 1))"
proof -
  assume h: "sl_holds s base ks"
  then have rep: "sl_rep (sl_nodes s) base" "length ks = length base" by (simp_all add: sl_holds_def)
  have "base ! (length base - 1) \<noteq> 0" if "base \<noteq> []" using rep_nonzero [OF rep(1)] that by simp
  with rep show ?thesis
    by (cases "base = []") (auto simp: iter_SeekToLast_def FindLast_returns last_conv_nth at_pos_def)
qed

lemma iter_Prev_pos: "sl_holds s base ks \<Longrightarrow> i < length ks \<Longrightarrow>
    iter_Prev compare s (at_pos base i) = Some (if i = 0 then None else at_pos base (i - 1))"
proof -
  assume h: "sl_holds s base ks" and i: "i < length ks"
  have rep: "sl_rep (sl_nodes s) base" "length ks = length base" using h by (simp_all add: sl_holds_def)
  have ok: "ok (ks ! i)" using increasing_ok [OF holds_increasing [OF h]] i by simp
  have split: "ks = take i ks @ ks ! i # drop (Suc i) ks" using i by (rule id_take_nth_drop)
  have "\<forall>k\<in>set (take i ks). compare k (ks ! i) < 0"
    using holds_increasing [OF h] split by (metis increasing_append list.set_intros(1))
  then have "takeWhile (\<lambda>k. compare k (ks ! i) < 0) ks = take i ks"
    using ok by (subst (2) split) (simp add: takeWhile_append2)
  then have "length (before (sl_nodes s) (ks ! i) base) = i"
    using holds_before(1) [OF h, of "ks ! i"] i by (metis length_map length_take min.absorb2 less_imp_le)
  then have b: "before (sl_nodes s) (ks ! i) base = take i base"
    by (metis append_eq_conv_conj before_after)
  have "base ! (i - 1) \<noteq> 0" using rep_nonzero [OF rep(1)] i rep(2) by simp
  moreover have "last (0 # take i base) = (if i = 0 then 0 else base ! (i - 1))"
    using i rep(2) by (auto simp: last_conv_nth min_def)
  ultimately show ?thesis
    unfolding iter_Prev_def iter_pos(3) [OF h i] FindLessThan_returns [OF rep(1) ok] b using i rep(2)
    by (auto simp: at_pos_def)
qed

lemma sl_scan_pos: "sl_holds s base ks \<Longrightarrow> i \<le> length ks \<Longrightarrow> sl_scan s (at_pos base i) = Some (drop i ks)"
proof (induction "length ks - i" arbitrary: i)
  case 0
  then show ?case by (subst sl_scan.simps) (simp add: iter_pos)
next
  case (Suc d)
  then have "sl_scan s (at_pos base (Suc i)) = Some (drop (Suc i) ks)" by simp
  with Suc show ?case by (subst sl_scan.simps) (simp add: iter_pos Cons_nth_drop_Suc)
qed

text \<open>In an increasing sequence a key is compared to what is left after the smaller ones are dropped.\<close>

lemma increasing_dropWhile:
  assumes "increasing ks" "ok key"
  shows "(\<exists>k\<in>set ks. compare key k = 0) \<longleftrightarrow>
    (case dropWhile (\<lambda>k. compare k key < 0) ks of [] \<Rightarrow> False | k # _ \<Rightarrow> compare key k = 0)"
  using assms
proof (induction ks)
  case (Cons a ks)
  then have a: "ok a" "\<forall>k\<in>set ks. compare a k < 0 \<and> ok k" by (auto simp: increasing_Cons dest: increasing_ok)
  show ?case
  proof (cases "compare a key < 0")
    case True
    then have "compare key a \<noteq> 0" using cmp_swap(3) [of a key] a Cons.prems by simp
    with True Cons show ?thesis by (simp add: increasing_Cons)
  next
    case False
    have "compare key k \<noteq> 0" if "k \<in> set ks" for k
      using that False a Cons.prems(2) cmp_less_le_trans [of a k key] cmp_swap(3) [of key k] by auto
    with False show ?thesis by auto
  qed
qed simp

lemma Contains_holds: "sl_holds s base ks \<Longrightarrow> ok key \<Longrightarrow>
    Contains compare extractor s key = Some (\<exists>k\<in>set ks. compare key k = 0)"
proof -
  assume h: "sl_holds s base ks" and key: "ok key"
  have "dropWhile (\<lambda>k. compare k key < 0) ks = map (node_key (sl_nodes s)) (after (sl_nodes s) key base)"
    using holds_before(2) [OF h, of key] by simp
  then show ?thesis
    using FindGreaterOrEqual_returns [OF _ key, of "sl_nodes s" base None None] h increasing_dropWhile [OF holds_increasing [OF h] key]
    by (auto simp: Contains_def sl_holds_def first_def split: list.splits)
qed

lemma sl_inserts_holds:
  assumes "sl_holds s base ks0" "\<forall>k\<in>set ks. ok k" "\<forall>k\<in>set ks. \<forall>k0\<in>set ks0. compare k k0 \<noteq> 0"
    "sorted_wrt (\<lambda>a b. compare b a \<noteq> 0) ks" "length prev0 = kMaxHeight" "length obs0 = kMaxHeight"
  shows "\<exists>s' base' ks'. sl_inserts compare extractor prev0 obs0 s ks = Some s' \<and> sl_holds s' base' ks' \<and> mset ks' = mset (ks0 @ ks)"
  using assms
proof (induction ks arbitrary: s base ks0)
  case (Cons k ks)
  let ?ks0 = "takeWhile (\<lambda>a. compare a k < 0) ks0 @ k # dropWhile (\<lambda>a. compare a k < 0) ks0"
  have m: "mset ?ks0 = mset (k # ks0)"
    using arg_cong [OF takeWhile_dropWhile_id [of "\<lambda>a. compare a k < 0" ks0], of mset]
    by (simp del: takeWhile_dropWhile_id)
  then have set: "set ?ks0 = set (k # ks0)" by (rule mset_eq_setD)
  obtain s1 base1 where s1: "Insert compare extractor prev0 obs0 s k = Some s1" "sl_holds s1 base1 ?ks0"
    using Insert_holds [OF Cons.prems(1), of k prev0 obs0] Cons.prems by auto
  have "\<exists>s' base' ks'. sl_inserts compare extractor prev0 obs0 s1 ks = Some s' \<and> sl_holds s' base' ks' \<and> mset ks' = mset (?ks0 @ ks)"
    using Cons.prems set by (intro Cons.IH [OF s1(2)]) simp_all
  moreover have "mset (?ks0 @ ks) = mset (ks0 @ k # ks)" using m by simp
  ultimately show ?case using s1(1) by (simp del: mset_append)
qed auto

end

section \<open>The skip list is a sorted sequence\<close>

text \<open>C12. For any key order with an extractor that is monotone in it: inserting keys that are
  pairwise different always returns, whatever the uninitialized search arrays hold, and the scan
  from the first position gives exactly these keys in increasing order. A seek stops at the first key
  not below its target, membership is decided correctly, and inserting another key kills the
  program exactly when an equal one is present.\<close>

theorem skiplist_correct:
  assumes "sl_keys ok compare extractor" "\<forall>k\<in>set ks. ok k" "sorted_wrt (\<lambda>a b. compare b a \<noteq> 0) ks"
    "length prev0 = kMaxHeight" "length obs0 = kMaxHeight" "ok t"
  shows "\<exists>s ss it. sl_inserts compare extractor prev0 obs0 (new_SkipList extractor) ks = Some s \<and>
    sl_scan s (iter_SeekToFirst s) = Some ss \<and> mset ss = mset ks \<and> sorted_wrt (\<lambda>a b. compare a b < 0) ss \<and>
    iter_Seek compare extractor s t = Some it \<and> sl_scan s it = Some (dropWhile (\<lambda>k. compare k t < 0) ss) \<and>
    Contains compare extractor s t = Some (\<exists>k\<in>set ks. compare t k = 0) \<and>
    (Insert compare extractor prev0 obs0 s t = None \<longleftrightarrow> (\<exists>k\<in>set ks. compare t k = 0))"
proof -
  note keys = assms(1)
  obtain s base ss where s: "sl_inserts compare extractor prev0 obs0 (new_SkipList extractor) ks = Some s"
      and h: "sl_keys.sl_holds ok compare extractor s base ss" and m: "mset ss = mset ks"
    using sl_keys.sl_inserts_holds [OF keys sl_keys.new_holds [OF keys], of ks prev0 obs0] assms by auto
  have scan: "sl_scan s (iter_SeekToFirst s) = Some ss"
    using sl_keys.sl_scan_pos [OF keys h, of 0] sl_keys.iter_pos(1) [OF keys h] by simp
  have set: "set ss = set ks" using m by (rule mset_eq_setD)
  have sorted: "sorted_wrt (\<lambda>a b. compare a b < 0) ss"
    using sl_keys.holds_increasing [OF keys h] sl_keys.axioms(1) [OF keys] comparator.increasing_def by fast
  let ?n = "length (takeWhile (\<lambda>k. compare k t < 0) ss)"
  have "sl_scan s (sl_keys.at_pos base ?n) = Some (dropWhile (\<lambda>k. compare k t < 0) ss)"
    using sl_keys.sl_scan_pos [OF keys h, of ?n] by (simp add: length_takeWhile_le dropWhile_eq_drop)
  moreover have "Insert compare extractor prev0 obs0 s t = None \<longleftrightarrow> (\<exists>k\<in>set ss. compare t k = 0)"
    using sl_keys.Insert_duplicate [OF keys h assms(6) _ _ assms(4,5)] sl_keys.Insert_holds [OF keys h assms(6) _ assms(4,5)]
    by fastforce
  ultimately show ?thesis
    using s scan m sorted sl_keys.iter_Seek_pos [OF keys h assms(6)] sl_keys.Contains_holds [OF keys h assms(6)]
    unfolding set by (intro exI [of _ s] exI [of _ ss] exI [of _ "sl_keys.at_pos base ?n"]) simp
qed

text \<open>User keys in bytewise order with the extractor of the bytewise comparator.\<close>

definition user_KeyNum :: "slice option \<Rightarrow> u64" where
  "user_KeyNum k = (case k of None \<Rightarrow> - 1 | Some k \<Rightarrow> KeyNum k)"

interpretation user_keys: sl_keys "\<lambda>_. True" Bytewise_Compare user_KeyNum
  by unfold_locales (simp add: user_KeyNum_def KeyNum_mono)

theorem skiplist_correct_witness:
  "\<exists>s ss. sl_inserts Bytewise_Compare user_KeyNum (replicate 17 0) (replicate 17 None) (new_SkipList user_KeyNum)
     [[98], [97, 99], [97]] = Some s \<and>
   sl_scan s (iter_SeekToFirst s) = Some ss \<and> mset ss = mset [[97], [97, 99], [98]] \<and>
   Contains Bytewise_Compare user_KeyNum s [97] = Some True \<and>
   Insert Bytewise_Compare user_KeyNum (replicate 17 0) (replicate 17 None) s [97] = None"
proof -
  let ?ks = "[[98], [97, 99], [97]] :: slice list"
  have "sorted_wrt (\<lambda>a b. Bytewise_Compare b a \<noteq> 0) ?ks" and "Bytewise_Compare [97] [97] = 0"
    by (simp_all add: Bytewise_Compare_def Slice_compare_def)
  then show ?thesis
    using skiplist_correct [OF user_keys.sl_keys_axioms, of ?ks "replicate 17 0" "replicate 17 None" "[97]"]
    by (fastforce simp: kMaxHeight_def)
qed

end
