(* ===== verification/MemTable.thy ===== *)
theory MemTable
  imports DbFormat Skiplist Status
begin

text \<open>
  \<^verbatim>\<open>db/memtable.cc\<close>: the table of recent writes, a skip list of encoded entries. A pointer into an
  entry is the bytes from there on; the memory of the entries is not recycled while the table
  lives, so an entry is its bytes. Adding and looking up are shown to implement a map from user
  keys and snapshots to the newest write.
\<close>

section \<open>Entries\<close>

text \<open>The length prefix is read from at most five bytes. A corrupt prefix is undefined behaviour in
  the code, which assumes there is none; the model then reads nothing.\<close>

definition mem_split :: "slice \<Rightarrow> slice \<times> slice" where
  "mem_split data =
     (case GetVarint32Ptr (take 5 data) of
        None \<Rightarrow> ([], data)
      | Some (len, rest) \<Rightarrow>
          let p = drop (length (take 5 data) - length rest) data
          in (take (unat len) p, drop (unat len) p))"

definition mem_GetLengthPrefixedSlice :: "slice \<Rightarrow> slice" where
  "mem_GetLengthPrefixedSlice data = fst (mem_split data)"

definition KeyComparator :: "(slice \<Rightarrow> slice \<Rightarrow> int) \<Rightarrow> slice \<Rightarrow> slice \<Rightarrow> int" where
  "KeyComparator user_compare aptr bptr =
     InternalKey_Compare user_compare (mem_GetLengthPrefixedSlice aptr) (mem_GetLengthPrefixedSlice bptr)"

definition KeyExtractor :: "(slice \<Rightarrow> u64) \<Rightarrow> slice option \<Rightarrow> u64" where
  "KeyExtractor user_keynum k =
     (case k of
        None \<Rightarrow> - 1
      | Some k \<Rightarrow> let key = mem_GetLengthPrefixedSlice k in user_keynum (take (length key - 8) key))"

definition EncodeKey :: "slice \<Rightarrow> slice" where
  "EncodeKey target = PutVarint32 [] (of_nat (length target)) @ target"

section \<open>The table\<close>

record MemTable =
  mt_table :: "slice SkipList"
  mt_refs :: u64
  mt_num_entries :: "32 word"

definition new_MemTable :: "(slice \<Rightarrow> u64) \<Rightarrow> MemTable" where
  "new_MemTable user_keynum =
     \<lparr>mt_table = new_SkipList (KeyExtractor user_keynum), mt_refs = 0, mt_num_entries = 0\<rparr>"

definition mem_Ref :: "MemTable \<Rightarrow> MemTable" where
  "mem_Ref m = m\<lparr>mt_refs := mt_refs m + 1\<rparr>"

text \<open>\<^verbatim>\<open>Unref\<close> deletes the table when no reference is left.\<close>

definition mem_Unref :: "MemTable \<Rightarrow> MemTable option" where
  "mem_Unref m = (let ref = mt_refs m - 1 in if ref = 0 then None else Some (m\<lparr>mt_refs := ref\<rparr>))"

definition mem_entry_bytes :: "SequenceNumber \<Rightarrow> ValueType \<Rightarrow> slice \<Rightarrow> slice \<Rightarrow> slice" where
  "mem_entry_bytes s t key val =
     EncodeVarint32 (of_nat (length key + 8)) @ key @ EncodeFixed64 (push_bit 8 s OR ucast t) @
     EncodeVarint32 (of_nat (length val)) @ val"

text \<open>\<open>None\<close>: an assertion fails, or the insertion does not return.\<close>

definition mem_Add ::
  "(slice \<Rightarrow> slice \<Rightarrow> int) \<Rightarrow> (slice \<Rightarrow> u64) \<Rightarrow> nat list \<Rightarrow> nat option list \<Rightarrow> MemTable \<Rightarrow>
   SequenceNumber \<Rightarrow> ValueType \<Rightarrow> slice \<Rightarrow> slice \<Rightarrow> MemTable option"
where
  "mem_Add user_compare user_keynum prev0 obs0 m s t key val =
     (let key_size = length key;
          val_size = length val;
          internal_key_size = key_size + 8;
          encoded_len = VarintLength (of_nat internal_key_size) + internal_key_size +
                        VarintLength (of_nat val_size) + val_size;
          buf = mem_entry_bytes s t key val
      in if length buf = encoded_len
         then case Insert (KeyComparator user_compare) (KeyExtractor user_keynum) prev0 obs0 (mt_table m) buf of
                None \<Rightarrow> None
              | Some table \<Rightarrow> Some (m\<lparr>mt_table := table, mt_num_entries := mt_num_entries m + 1\<rparr>)
         else None)"

text \<open>\<^verbatim>\<open>Get\<close> returns whether it found an entry, and the new contents of \<^verbatim>\<open>*value\<close> and \<^verbatim>\<open>*s\<close>.\<close>

definition mem_Get ::
  "(slice \<Rightarrow> slice \<Rightarrow> int) \<Rightarrow> (slice \<Rightarrow> u64) \<Rightarrow> MemTable \<Rightarrow> LookupKey \<Rightarrow> slice \<Rightarrow> Status \<Rightarrow>
   (bool \<times> slice \<times> Status) option"
where
  "mem_Get user_compare user_keynum m key val s =
     (case iter_Seek (KeyComparator user_compare) (KeyExtractor user_keynum) (mt_table m) (memtable_key key) of
        None \<Rightarrow> None
      | Some it \<Rightarrow> Some (
          if iter_Valid it
          then case mem_split (iter_key (mt_table m) it) of (ik, rest) \<Rightarrow>
               if user_compare (take (length ik - 8) ik) (user_key key) = 0
               then let tag = DecodeFixed64 (drop (length ik - 8) ik);
                        t = ucast (tag AND 0xff) :: ValueType
                    in if t = kTypeValue then (True, mem_GetLengthPrefixedSlice rest, s)
                       else if t = kTypeDeletion then (True, val, NotFound [] [])
                       else (False, val, s)
               else (False, val, s)
          else (False, val, s)))"

section \<open>The iterator of the table\<close>

definition mem_Seek ::
  "(slice \<Rightarrow> slice \<Rightarrow> int) \<Rightarrow> (slice \<Rightarrow> u64) \<Rightarrow> MemTable \<Rightarrow> slice \<Rightarrow> sl_iterator option"
where
  "mem_Seek user_compare user_keynum m k =
     iter_Seek (KeyComparator user_compare) (KeyExtractor user_keynum) (mt_table m) (EncodeKey k)"

definition mem_SeekToFirst :: "MemTable \<Rightarrow> sl_iterator" where
  "mem_SeekToFirst m = iter_SeekToFirst (mt_table m)"

definition mem_SeekToLast :: "MemTable \<Rightarrow> sl_iterator option" where
  "mem_SeekToLast m = iter_SeekToLast (mt_table m)"

definition mem_Next :: "MemTable \<Rightarrow> sl_iterator \<Rightarrow> sl_iterator" where
  "mem_Next m it = iter_Next (mt_table m) it"

definition mem_Prev :: "(slice \<Rightarrow> slice \<Rightarrow> int) \<Rightarrow> MemTable \<Rightarrow> sl_iterator \<Rightarrow> sl_iterator option" where
  "mem_Prev user_compare m it = iter_Prev (KeyComparator user_compare) (mt_table m) it"

definition mem_key :: "MemTable \<Rightarrow> sl_iterator \<Rightarrow> slice" where
  "mem_key m it = mem_GetLengthPrefixedSlice (iter_key (mt_table m) it)"

definition mem_value :: "MemTable \<Rightarrow> sl_iterator \<Rightarrow> slice" where
  "mem_value m it = mem_GetLengthPrefixedSlice (snd (mem_split (iter_key (mt_table m) it)))"

section \<open>Specification\<close>

type_synonym mem_write = "SequenceNumber \<times> ValueType \<times> slice \<times> slice"

fun mem_Adds ::
  "(slice \<Rightarrow> slice \<Rightarrow> int) \<Rightarrow> (slice \<Rightarrow> u64) \<Rightarrow> nat list \<Rightarrow> nat option list \<Rightarrow> MemTable \<Rightarrow> mem_write list \<Rightarrow> MemTable option"
where
  "mem_Adds user_compare user_keynum prev0 obs0 m [] = Some m"
| "mem_Adds user_compare user_keynum prev0 obs0 m ((s, t, key, val) # ws) =
     (case mem_Add user_compare user_keynum prev0 obs0 m s t key val of
        None \<Rightarrow> None
      | Some m \<Rightarrow> mem_Adds user_compare user_keynum prev0 obs0 m ws)"

fun write_ok :: "mem_write \<Rightarrow> bool" where
  "write_ok (s, t, key, val) \<longleftrightarrow>
     s \<le> kMaxSequenceNumber \<and> t \<le> kTypeValue \<and> length key + 8 < 2 ^ 32 \<and> length val < 2 ^ 32"

fun visible :: "slice \<Rightarrow> SequenceNumber \<Rightarrow> mem_write \<Rightarrow> bool" where
  "visible u snapshot (s, t, key, val) \<longleftrightarrow> key = u \<and> s \<le> snapshot"

text \<open>The newest of the writes to a user key that a snapshot sees.\<close>

fun newest :: "slice \<Rightarrow> SequenceNumber \<Rightarrow> mem_write list \<Rightarrow> mem_write option" where
  "newest u snapshot [] = None"
| "newest u snapshot (w # ws) =
     (case newest u snapshot ws of
        None \<Rightarrow> if visible u snapshot w then Some w else None
      | Some w' \<Rightarrow> if visible u snapshot w \<and> fst w' < fst w then Some w else Some w')"

section \<open>Encoded entries as skip list keys\<close>

lemma mem_split_lps: "length k < 2 ^ 32 \<Longrightarrow> mem_split (lps k @ rest) = (k, rest)"
proof -
  assume k: "length k < 2 ^ 32"
  let ?e = "EncodeVarint32 (of_nat (length k))"
  have "take 5 (lps k @ rest) = ?e @ take (5 - length ?e) (k @ rest)"
    using length_EncodeVarint32_le [of "of_nat (length k)"] by simp
  moreover have "unat (of_nat (length k) :: u32) = length k" using k by (simp add: unsigned_of_nat take_bit_nat_eq_self)
  ultimately show ?thesis by (simp add: mem_split_def Let_def)
qed

lemma mem_GetLengthPrefixedSlice_lps: "length k < 2 ^ 32 \<Longrightarrow> mem_GetLengthPrefixedSlice (lps k @ rest) = k"
  using mem_split_lps [of k rest] by (simp add: mem_GetLengthPrefixedSlice_def)

definition entry_ok :: "slice \<Rightarrow> bool" where
  "entry_ok e \<longleftrightarrow> (\<exists>k r. valid_ikey k \<and> length k < 2 ^ 32 \<and> e = lps k @ r)"

locale mem_keys = user_comparator ucmp usep usucc
  for ucmp :: "slice \<Rightarrow> slice \<Rightarrow> int" and usep :: "slice \<Rightarrow> slice \<Rightarrow> slice" and usucc :: "slice \<Rightarrow> slice" +
  fixes uknum :: "slice \<Rightarrow> u64"
  assumes uknum_mono: "ucmp a b \<le> 0 \<Longrightarrow> uknum a \<le> uknum b"
begin

lemma entry_key: "entry_ok e \<Longrightarrow> valid_ikey (mem_GetLengthPrefixedSlice e)"
  by (auto simp: entry_ok_def mem_GetLengthPrefixedSlice_lps [simplified])

end

sublocale mem_keys \<subseteq> entries: sl_keys entry_ok "KeyComparator ucmp" "KeyExtractor uknum"
proof (unfold_locales, goal_cases)
  case (1 a b)
  then show ?case unfolding KeyComparator_def by (intro ikeys.cmp_antisym entry_key)
next
  case (2 a b c)
  then show ?case
    using ikeys.cmp_trans [of "mem_GetLengthPrefixedSlice a" "mem_GetLengthPrefixedSlice b" "mem_GetLengthPrefixedSlice c"]
    by (simp add: KeyComparator_def entry_key)
next
  case (3 a b)
  then show ?case
    by (auto simp: KeyComparator_def KeyExtractor_def Let_def icmp_le ExtractUserKey_def intro!: uknum_mono)
qed

interpretation bytewise_mem: mem_keys Bytewise_Compare Bytewise_FindShortestSeparator Bytewise_FindShortSuccessor KeyNum
  by unfold_locales (rule KeyNum_mono)

section \<open>The table implements the map\<close>

lemma newest_None: "newest u snapshot ws = None \<longleftrightarrow> (\<forall>w\<in>set ws. \<not> visible u snapshot w)"
  by (induction ws) (auto split: option.splits)

lemma newest_Some: "newest u snapshot ws = Some w \<Longrightarrow>
    w \<in> set ws \<and> visible u snapshot w \<and> (\<forall>w'\<in>set ws. visible u snapshot w' \<longrightarrow> fst w' \<le> fst w)"
proof (induction ws arbitrary: w)
  case (Cons a ws)
  show ?case
  proof (cases "newest u snapshot ws")
    case None
    with Cons.prems newest_None [of u snapshot ws] show ?thesis by (auto split: if_splits)
  next
    case (Some w')
    with Cons.IH [OF Some] Cons.prems show ?thesis by (auto simp: not_less split: if_splits)
  qed
qed simp

fun entry_of :: "mem_write \<Rightarrow> slice" where
  "entry_of (s, t, key, val) = mem_entry_bytes s t key val"

fun key_of :: "mem_write \<Rightarrow> slice" where
  "key_of (s, t, key, val) = ikey key s t"

lemma entry_of_lps: "entry_of (s, t, key, val) = lps (ikey key s t) @ lps val"
  by (simp add: mem_entry_bytes_def PackSequenceAndType_def)

lemma key_of_valid: "write_ok w \<Longrightarrow> valid_ikey (key_of w) \<and> length (key_of w) < 2 ^ 32"
  by (cases w) (auto simp: valid_ikey_def PackSequenceAndType_max)

lemma entry_of_ok: "write_ok w \<Longrightarrow> entry_ok (entry_of w)"
  using key_of_valid [of w] by (cases w) (auto simp: entry_ok_def entry_of_lps simp del: entry_of.simps; blast)

lemma entry_of_split: "write_ok w \<Longrightarrow> mem_split (entry_of w) = (key_of w, lps (snd (snd (snd w))))"
  using key_of_valid [of w] mem_split_lps [of "key_of w" "lps (snd (snd (snd w)))"]
  by (cases w) (simp add: entry_of_lps del: entry_of.simps)

lemma ValueType_cases: "t \<le> kTypeValue \<longleftrightarrow> t = kTypeValue \<or> t = kTypeDeletion"
  by (auto simp: ValueType_defs word_le_nat_alt word_unat_eq_iff)

lemma ucast_of_nat: "n < 2 ^ 32 \<Longrightarrow> (ucast (of_nat n :: u32) :: u64) = of_nat n"
  by (simp add: word_unat_eq_iff unsigned_ucast_eq unsigned_of_nat take_bit_nat_eq_self)

lemma mem_Add_assertion: "write_ok (s, t, key, val) \<Longrightarrow>
    length (mem_entry_bytes s t key val) =
    VarintLength (of_nat (length key + 8)) + (length key + 8) + VarintLength (of_nat (length val)) + length val"
  by (simp add: mem_entry_bytes_def EncodeVarint32_eq_64 VarintLength_eq ucast_of_nat [simplified] del: of_nat_add of_nat_Suc)

context mem_keys
begin

definition mem_holds :: "MemTable \<Rightarrow> slice list \<Rightarrow> mem_write list \<Rightarrow> bool" where
  "mem_holds m es ws \<longleftrightarrow>
     (\<exists>base. entries.sl_holds (mt_table m) base es) \<and> mset es = mset (map entry_of ws) \<and>
     list_all write_ok ws \<and> mt_num_entries m = of_nat (length ws)"

lemma new_mem_holds: "mem_holds (new_MemTable uknum) [] []"
  using entries.new_holds by (auto simp: mem_holds_def new_MemTable_def)

lemma KeyComparator_entries: "write_ok w \<Longrightarrow> KeyComparator ucmp (entry_of w) e = icmp (key_of w) (mem_GetLengthPrefixedSlice e)"
  "write_ok w \<Longrightarrow> KeyComparator ucmp e (entry_of w) = icmp (mem_GetLengthPrefixedSlice e) (key_of w)"
  by (simp_all add: KeyComparator_def mem_GetLengthPrefixedSlice_def entry_of_split)

lemma key_of_parts: "ExtractUserKey (key_of (s, t, key, val)) = key" "key_tag (key_of (s, t, key, val)) = PackSequenceAndType s t"
  by simp_all

lemma tag_less: "s \<le> kMaxSequenceNumber \<Longrightarrow> s' \<le> kMaxSequenceNumber \<Longrightarrow> s < s' \<Longrightarrow>
    PackSequenceAndType s t < PackSequenceAndType s' t'"
proof -
  assume s: "s \<le> kMaxSequenceNumber" "s' \<le> kMaxSequenceNumber" "s < s'"
  have "unat s * 256 + unat t < (unat s + 1) * 256" using unsigned_less [where ?'a = nat, of t] by simp
  also have "\<dots> \<le> unat s' * 256 + unat t'" using s(3) by (simp add: word_less_nat_alt)
  finally show ?thesis by (simp add: word_less_nat_alt unat_PackSequenceAndType s)
qed

lemma entries_differ:
  assumes "write_ok w" "write_ok w'" "fst w \<noteq> fst w'"
  shows "KeyComparator ucmp (entry_of w) (entry_of w') \<noteq> 0"
proof -
  obtain s t k v s' t' k' v' where w: "w = (s, t, k, v)" "w' = (s', t', k', v')" by (metis prod.exhaust)
  have "PackSequenceAndType s t \<noteq> PackSequenceAndType s' t'"
    using assms PackSequenceAndType_seq [of s t] PackSequenceAndType_seq [of s' t'] by (auto simp: w)
  then show ?thesis
    using assms by (auto simp: KeyComparator_def mem_GetLengthPrefixedSlice_def entry_of_split w InternalKey_Compare_tag Let_def simp del: entry_of.simps)
qed

lemma mem_Add_holds:
  assumes h: "mem_holds m es ws" and w: "write_ok (s, t, key, val)" and new: "s \<notin> fst ` set ws"
    and arrays: "length prev0 = kMaxHeight" "length obs0 = kMaxHeight"
  shows "\<exists>m' es'. mem_Add ucmp uknum prev0 obs0 m s t key val = Some m' \<and> mem_holds m' es' ((s, t, key, val) # ws)"
proof -
  let ?w = "(s, t, key, val)" let ?e = "entry_of ?w"
  obtain base where base: "entries.sl_holds (mt_table m) base es" using h by (auto simp: mem_holds_def)
  have ws: "list_all write_ok ws" "mset es = mset (map entry_of ws)" using h by (simp_all add: mem_holds_def)
  have es: "set es = entry_of ` set ws" using mset_eq_setD [OF ws(2)] by (simp only: set_map)
  have "\<forall>e\<in>set es. KeyComparator ucmp ?e e \<noteq> 0"
    unfolding es
  proof (intro ballI, elim imageE)
    fix e w' assume w': "w' \<in> set ws" "e = entry_of w'"
    have "write_ok w'" "fst ?w \<noteq> fst w'" using w'(1) ws(1) new by (auto simp: list_all_iff)
    then show "KeyComparator ucmp ?e e \<noteq> 0" unfolding w'(2) by (rule entries_differ [OF w])
  qed
  then obtain table base' where ins: "Insert (KeyComparator ucmp) (KeyExtractor uknum) prev0 obs0 (mt_table m) ?e = Some table"
      "entries.sl_holds table base' (takeWhile (\<lambda>k. KeyComparator ucmp k ?e < 0) es @ ?e # dropWhile (\<lambda>k. KeyComparator ucmp k ?e < 0) es)"
    using entries.Insert_holds [OF base entry_of_ok [OF w] _ arrays] by metis
  have "mset (takeWhile (\<lambda>k. KeyComparator ucmp k ?e < 0) es @ ?e # dropWhile (\<lambda>k. KeyComparator ucmp k ?e < 0) es) =
      mset (map entry_of (?w # ws))"
    using arg_cong [OF takeWhile_dropWhile_id [of "\<lambda>k. KeyComparator ucmp k ?e < 0" es], of mset] ws(2)
    by (simp del: takeWhile_dropWhile_id)
  moreover have "mem_Add ucmp uknum prev0 obs0 m s t key val =
      Some (m\<lparr>mt_table := table, mt_num_entries := mt_num_entries m + 1\<rparr>)"
    using ins(1) mem_Add_assertion [OF w] by (simp add: mem_Add_def Let_def)
  ultimately show ?thesis
    using ins(2) ws(1) w h by (intro exI conjI) (auto simp: mem_holds_def)
qed

lemma mem_Adds_holds:
  assumes "mem_holds m es ws0" "list_all write_ok ws" "distinct (map fst ws)" "fst ` set ws \<inter> fst ` set ws0 = {}"
    "length prev0 = kMaxHeight" "length obs0 = kMaxHeight"
  shows "\<exists>m' es'. mem_Adds ucmp uknum prev0 obs0 m ws = Some m' \<and> mem_holds m' es' (rev ws @ ws0)"
  using assms
proof (induction ws arbitrary: m es ws0)
  case (Cons w ws)
  obtain s t k v where w: "w = (s, t, k, v)" by (cases w)
  obtain m1 es1 where m1: "mem_Add ucmp uknum prev0 obs0 m s t k v = Some m1" "mem_holds m1 es1 (w # ws0)"
    using mem_Add_holds [OF Cons.prems(1), of s t k v prev0 obs0] Cons.prems by (auto simp: w)
  have "\<exists>m' es'. mem_Adds ucmp uknum prev0 obs0 m1 ws = Some m' \<and> mem_holds m' es' (rev ws @ w # ws0)"
    using Cons.prems by (intro Cons.IH [OF m1(2)]) auto
  then show ?case using m1(1) by (simp add: w)
qed auto

text \<open>Where a seek to a lookup key ends: at the first entry that is not before it.\<close>

lemma seek_first:
  assumes inc: "entries.increasing es" and t: "entry_ok t" and i: "i = length (takeWhile (\<lambda>k. KeyComparator ucmp k t < 0) es)"
  shows "i < length es \<Longrightarrow> 0 \<le> KeyComparator ucmp (es ! i) t"
    "e \<in> set es \<Longrightarrow> 0 \<le> KeyComparator ucmp e t \<Longrightarrow> i < length es \<and> KeyComparator ucmp (es ! i) e \<le> 0"
proof -
  show "i < length es \<Longrightarrow> 0 \<le> KeyComparator ucmp (es ! i) t"
    using nth_length_takeWhile [of "\<lambda>k. KeyComparator ucmp k t < 0" es] i by simp
  assume e: "e \<in> set es" "0 \<le> KeyComparator ucmp e t"
  then obtain j where j: "j < length es" "e = es ! j" by (auto simp: in_set_conv_nth)
  have "i \<le> j"
  proof (rule ccontr)
    assume "\<not> i \<le> j"
    then have "es ! j \<in> set (takeWhile (\<lambda>k. KeyComparator ucmp k t < 0) es)"
      using i by (metis not_le nth_mem takeWhile_nth)
    then show False using e(2) j(2) by (auto dest: set_takeWhileD)
  qed
  moreover have "entry_ok e" using entries.increasing_ok [OF inc e(1)] .
  ultimately show "i < length es \<and> KeyComparator ucmp (es ! i) e \<le> 0"
    using entries.increasing_nth [OF inc, of i j] j by (cases "i = j") auto
qed

lemma visible_seek:
  assumes "write_ok (s, t, key, val)" "snapshot \<le> kMaxSequenceNumber" "length u + 8 < 2 ^ 32"
  shows "0 \<le> KeyComparator ucmp (entry_of (s, t, key, val)) (memtable_key (new_LookupKey u snapshot)) \<longleftrightarrow>
    0 < ucmp key u \<or> ucmp key u = 0 \<and> s \<le> snapshot"
proof -
  have t: "mem_GetLengthPrefixedSlice (memtable_key (new_LookupKey u snapshot)) = ikey u snapshot kValueTypeForSeek"
    using mem_GetLengthPrefixedSlice_lps [of "ikey u snapshot kValueTypeForSeek" "[]"] assms(3)
    by (simp add: LookupKey_parts)
  have "PackSequenceAndType s t \<le> PackSequenceAndType snapshot kValueTypeForSeek \<longleftrightarrow> s \<le> snapshot"
  proof (cases s snapshot rule: linorder_cases)
    case less
    then show ?thesis using assms tag_less [of s snapshot t kValueTypeForSeek] by (auto dest: order.strict_implies_order)
  next
    case equal
    then show ?thesis
      using assms by (auto simp: word_le_nat_alt unat_PackSequenceAndType kValueTypeForSeek_def)
  next
    case greater
    then show ?thesis using assms tag_less [of snapshot s kValueTypeForSeek t] by (auto dest: leD)
  qed
  then have "icmp (key_of (s, t, key, val)) (ikey u snapshot kValueTypeForSeek) < 0 \<longleftrightarrow>
      ucmp key u < 0 \<or> ucmp key u = 0 \<and> \<not> s \<le> snapshot"
    unfolding icmp_less by (metis key_of.simps ikey_parts not_le)
  then show ?thesis
    unfolding KeyComparator_entries(1) [OF assms(1)] t by auto
qed

lemma cmp_eq_eq: "ucmp a u = 0 \<Longrightarrow> ucmp b u = 0 \<Longrightarrow> ucmp a b = 0"
  using cmp_trans [of a u b] cmp_trans [of b u a] cmp_swap [of a b] cmp_swap [of a u] cmp_swap [of b u] by simp

lemma mem_Get_found:
  assumes h: "mem_holds m es ws" and u: "length u + 8 < 2 ^ 32" "snapshot \<le> kMaxSequenceNumber"
  shows "\<exists>r. mem_Get ucmp uknum m (new_LookupKey u snapshot) val0 st0 = Some r \<and>
    (if \<exists>w\<in>set ws. ucmp (fst (snd (snd w))) u = 0 \<and> fst w \<le> snapshot
     then \<exists>s t key val. (s, t, key, val) \<in> set ws \<and> ucmp key u = 0 \<and> s \<le> snapshot \<and>
       (\<forall>w\<in>set ws. ucmp (fst (snd (snd w))) u = 0 \<and> fst w \<le> snapshot \<longrightarrow> fst w \<le> s) \<and>
       r = (True, if t = kTypeValue then (val, st0) else (val0, NotFound [] []))
     else r = (False, val0, st0))"
proof -
  let ?t = "memtable_key (new_LookupKey u snapshot)"
  obtain base where base: "entries.sl_holds (mt_table m) base es" using h by (auto simp: mem_holds_def)
  have ws: "list_all write_ok ws" "mset es = mset (map entry_of ws)" using h by (simp_all add: mem_holds_def)
  have es: "set es = entry_of ` set ws" using mset_eq_setD [OF ws(2)] by (simp only: set_map)
  have t: "entry_ok ?t"
    using u PackSequenceAndType_max [of snapshot kValueTypeForSeek]
    unfolding entry_ok_def by (intro exI [of _ "ikey u snapshot kValueTypeForSeek"] exI [of _ "[]"])
      (auto simp: LookupKey_parts valid_ikey_def kValueTypeForSeek_def)
  note inc = entries.holds_increasing [OF base]
  define i where "i = length (takeWhile (\<lambda>k. KeyComparator ucmp k ?t < 0) es)"
  note first = seek_first [OF inc t i_def]
  note seek = entries.iter_Seek_pos [OF base t, folded i_def]
  have vis: "0 \<le> KeyComparator ucmp (entry_of (s, t, key, val)) ?t \<longleftrightarrow> 0 < ucmp key u \<or> ucmp key u = 0 \<and> s \<le> snapshot"
    if "(s, t, key, val) \<in> set ws" for s t key val
    using ws(1) that u by (intro visible_seek) (auto simp: list_all_iff simp del: write_ok.simps)
  show ?thesis
  proof (cases "i < length es")
    case False
    then have "\<not> (\<exists>w\<in>set ws. ucmp (fst (snd (snd w))) u = 0 \<and> fst w \<le> snapshot)"
      using first(2) vis es by fastforce
    moreover have "mem_Get ucmp uknum m (new_LookupKey u snapshot) val0 st0 = Some (False, val0, st0)"
      using False by (simp add: mem_Get_def seek entries.iter_pos [OF base])
    ultimately show ?thesis by simp
  next
    case True
    then have "es ! i \<in> entry_of ` set ws" unfolding es [symmetric] by simp
    then obtain w0 where w0: "w0 \<in> set ws" "es ! i = entry_of w0" by blast
    obtain s t key val where "w0 = (s, t, key, val)" by (cases w0)
    with w0 have w: "(s, t, key, val) \<in> set ws" "es ! i = entry_of (s, t, key, val)" by simp_all
    have ok: "write_ok (s, t, key, val)" using ws(1) w(1) by (auto simp: list_all_iff)
    have ge: "0 < ucmp key u \<or> ucmp key u = 0 \<and> s \<le> snapshot" using first(1) [OF True] vis [OF w(1)] w(2) by simp
    have below: "icmp (key_of (s, t, key, val)) (key_of w') \<le> 0"
      if "w' \<in> set ws" "ucmp (fst (snd (snd w'))) u = 0" "fst w' \<le> snapshot" for w'
    proof -
      obtain s' t' key' val' where w': "w' = (s', t', key', val')" by (cases w')
      have ok': "write_ok w'" using ws(1) that(1) by (auto simp: list_all_iff)
      have "0 \<le> KeyComparator ucmp (entry_of w') ?t" using vis [of s' t' key' val'] that w' by simp
      moreover have "entry_of w' \<in> set es" using that(1) es by blast
      ultimately have "KeyComparator ucmp (es ! i) (entry_of w') \<le> 0" using first(2) by blast
      then show ?thesis
        unfolding w(2) KeyComparator_entries(1) [OF ok] using entry_of_split [OF ok']
        by (simp add: mem_GetLengthPrefixedSlice_def del: entry_of.simps key_of.simps)
    qed
    have get: "mem_Get ucmp uknum m (new_LookupKey u snapshot) val0 st0 = Some
        (if ucmp key u = 0 then (True, if t = kTypeValue then (val, st0) else (val0, NotFound [] [])) else (False, val0, st0))"
    proof -
      have "mem_GetLengthPrefixedSlice (lps val) = val"
        using ok mem_GetLengthPrefixedSlice_lps [of val "[]"] by simp
      moreover have "t = kTypeValue \<or> t = kTypeDeletion" using ok by (auto simp: ValueType_cases)
      moreover have "DecodeFixed64 (drop (length (ikey key s t) - 8) (ikey key s t)) = PackSequenceAndType s t"
        using key_of_parts(2) [of s t key val] by (simp add: key_tag_def)
      ultimately show ?thesis
        using True entry_of_split [OF ok]
        by (auto simp: mem_Get_def seek entries.iter_pos [OF base] w(2) LookupKey_parts(2) Let_def PackSequenceAndType_byte
            simp del: entry_of.simps)
    qed
    show ?thesis
    proof (cases "ucmp key u = 0")
      case eq: True
      have "s' \<le> s" if w': "(s', t', key', val') \<in> set ws" "ucmp key' u = 0" "s' \<le> snapshot" for s' t' key' val'
      proof (rule ccontr)
        assume "\<not> s' \<le> s"
        then have "PackSequenceAndType s t < PackSequenceAndType s' t'"
          using ok ws(1) w'(1) by (intro tag_less) (auto simp: list_all_iff)
        moreover have "ucmp key key' = 0" using eq w'(2) cmp_eq_eq by blast
        ultimately show False using below [OF w'(1)] w'(2,3) by (simp add: icmp_le)
      qed
      then have newest: "\<forall>w\<in>set ws. ucmp (fst (snd (snd w))) u = 0 \<and> fst w \<le> snapshot \<longrightarrow> fst w \<le> s" by auto
      have "\<exists>w\<in>set ws. ucmp (fst (snd (snd w))) u = 0 \<and> fst w \<le> snapshot"
        using w(1) eq ge by force
      then show ?thesis
        unfolding get by (simp only: eq simp_thms if_True option.inject)
          (intro exI [of _ "(True, if t = kTypeValue then (val, st0) else (val0, NotFound [] []))"] conjI refl
            exI [of _ s] exI [of _ t] exI [of _ key] exI [of _ val]; use w(1) eq ge newest in auto)
    next
      case False
      have "\<not> (ucmp (fst (snd (snd w'))) u = 0 \<and> fst w' \<le> snapshot)" if w': "w' \<in> set ws" for w'
      proof
        assume vis: "ucmp (fst (snd (snd w'))) u = 0 \<and> fst w' \<le> snapshot"
        obtain s' t' key' val' where eq: "w' = (s', t', key', val')" by (cases w')
        have "ucmp key key' \<le> 0" using below [OF w'] vis by (auto simp: eq icmp_le)
        then have "ucmp key u \<le> 0" using vis cmp_trans [of key key' u] by (simp add: eq)
        then show False using ge False by simp
      qed
      then have "\<not> (\<exists>w\<in>set ws. ucmp (fst (snd (snd w))) u = 0 \<and> fst w \<le> snapshot)" by blast
      then show ?thesis using get False by simp
    qed
  qed
qed

end

text \<open>What a lookup answers, as a value; and what a lookup in a table that holds some writes answers.\<close>

definition get_answer :: "mem_write option \<Rightarrow> slice \<Rightarrow> Status \<Rightarrow> bool \<times> slice \<times> Status" where
  "get_answer w val0 st0 =
     (case w of
        None \<Rightarrow> (False, val0, st0)
      | Some (s, t, key, val) \<Rightarrow> (True, if t = kTypeValue then (val, st0) else (val0, NotFound [] [])))"

lemma bytewise_Get_newest:
  assumes h: "bytewise_mem.mem_holds m es ws'" and ws: "set ws' = set ws" "distinct (map fst ws)"
    and u: "length u + 8 < 2 ^ 32" "snapshot \<le> kMaxSequenceNumber"
  shows "mem_Get Bytewise_Compare KeyNum m (new_LookupKey u snapshot) val0 st0 =
    Some (get_answer (newest u snapshot ws) val0 st0)"
proof -
  have eq: "Bytewise_Compare a b = 0 \<longleftrightarrow> a = b" for a b
    by (simp add: Bytewise_Compare_def Slice_compare_lexcmp lexcmp_eq_0)
  have vis: "visible u snapshot w \<longleftrightarrow> Bytewise_Compare (fst (snd (snd w))) u = 0 \<and> fst w \<le> snapshot" for w
    by (cases w) (simp add: eq)
  obtain r where r: "mem_Get Bytewise_Compare KeyNum m (new_LookupKey u snapshot) val0 st0 = Some r"
      "if \<exists>w\<in>set ws. visible u snapshot w
       then \<exists>s t key val. (s, t, key, val) \<in> set ws \<and> visible u snapshot (s, t, key, val) \<and>
         (\<forall>w\<in>set ws. visible u snapshot w \<longrightarrow> fst w \<le> s) \<and>
         r = (True, if t = kTypeValue then (val, st0) else (val0, NotFound [] []))
       else r = (False, val0, st0)"
    using bytewise_mem.mem_Get_found [OF h u, of val0 st0]
    unfolding vis ws(1) fst_conv snd_conv conj_assoc by (elim exE conjE) blast
  show ?thesis
  proof (cases "newest u snapshot ws")
    case None
    with r newest_None [of u snapshot ws] show ?thesis by (auto simp: get_answer_def)
  next
    case (Some w)
    note w = newest_Some [OF Some]
    then obtain s t key val where f: "(s, t, key, val) \<in> set ws" "visible u snapshot (s, t, key, val)"
        "\<forall>w\<in>set ws. visible u snapshot w \<longrightarrow> fst w \<le> s"
        "r = (True, if t = kTypeValue then (val, st0) else (val0, NotFound [] []))"
      using r(2) by (auto split: if_splits)
    then have "fst (s, t, key, val) = fst w" using w by fastforce
    then have "w = (s, t, key, val)" using ws(2) w f(1) by (metis distinct_map inj_onD)
    then show ?thesis using Some f(4) r(1) by (auto simp: get_answer_def)
  qed
qed

text \<open>C4. The memtable implements a multi-version map. For any writes with different sequence
  numbers, added in any order, every addition returns, and a lookup of a user key at a snapshot
  returns the value of the newest write to that key the snapshot sees, a not-found status if this
  write is a deletion, and reports that it found nothing if there is none.\<close>

theorem memtable_refines_map:
  assumes "list_all write_ok ws" "distinct (map fst ws)" "length prev0 = kMaxHeight" "length obs0 = kMaxHeight"
    "length u + 8 < 2 ^ 32" "snapshot \<le> kMaxSequenceNumber"
  shows "\<exists>m. mem_Adds Bytewise_Compare KeyNum prev0 obs0 (new_MemTable KeyNum) ws = Some m \<and>
    mem_Get Bytewise_Compare KeyNum m (new_LookupKey u snapshot) val0 st0 =
    Some (get_answer (newest u snapshot ws) val0 st0)"
proof -
  obtain m es where m: "mem_Adds Bytewise_Compare KeyNum prev0 obs0 (new_MemTable KeyNum) ws = Some m"
      and h: "bytewise_mem.mem_holds m es (rev ws)"
    using bytewise_mem.mem_Adds_holds [OF bytewise_mem.new_mem_holds, of ws prev0 obs0] assms by auto
  with bytewise_Get_newest [OF h _ assms(2,5,6), of val0 st0] show ?thesis by simp
qed

theorem memtable_refines_map_witness:
  "let ws = [(7, kTypeValue, [97], [1]), (9, kTypeDeletion, [97], []), (8, kTypeValue, [97], [2])]
   in \<exists>m. mem_Adds Bytewise_Compare KeyNum (replicate 17 0) (replicate 17 None) (new_MemTable KeyNum) ws = Some m \<and>
      mem_Get Bytewise_Compare KeyNum m (new_LookupKey [97] 8) [] OK = Some (True, [2], OK)"
proof -
  let ?ws = "[(7, kTypeValue, [97], [1]), (9, kTypeDeletion, [97], []), (8, kTypeValue, [97], [2])] :: mem_write list"
  have "list_all write_ok ?ws" by (simp add: ValueType_defs kMaxSequenceNumber_def)
  moreover have "newest [97] 8 ?ws = Some (8, kTypeValue, [97], [2])" by simp
  ultimately show ?thesis
    using memtable_refines_map [of ?ws "replicate 17 0" "replicate 17 None" "[97]" 8 "[]" OK]
    by (simp add: kMaxHeight_def kMaxSequenceNumber_def get_answer_def)
qed

end
