(* ===== verification/Hash.thy ===== *)
theory Hash
  imports Coding
begin

text \<open>
  \<^verbatim>\<open>util/hash.cc\<close> and the 32-bit hash of \<^verbatim>\<open>db/murmurhash3.cc\<close>. A word is read in the byte order of a
  little-endian machine; a plain \<^verbatim>\<open>char\<close> is signed, so the last bytes of a key are sign-extended
  in \<^verbatim>\<open>Hash\<close> but not in \<^verbatim>\<open>MurmurHash3_x86_32\<close>.
\<close>

section \<open>Hash\<close>

definition hash_m :: u32 where "hash_m = 0xc6a4a793"

fun hash_words :: "u32 \<Rightarrow> slice \<Rightarrow> u32 \<times> slice" where
  "hash_words h (a # b # c # d # data) =
     (let w = DecodeFixed32 [a, b, c, d];
          h = (h + w) * hash_m
      in hash_words (h XOR drop_bit 16 h) data)"
| "hash_words h data = (h, data)"

definition char_shift :: "slice \<Rightarrow> nat \<Rightarrow> nat \<Rightarrow> u32" where
  "char_shift data i n = push_bit n (scast (data ! i))"

definition hash_tail :: "u32 \<Rightarrow> slice \<Rightarrow> u32" where
  "hash_tail h data =
     (let h = (if length data = 3 then h + char_shift data 2 16 else h);
          h = (if length data = 3 \<or> length data = 2 then h + char_shift data 1 8 else h)
      in if length data = 3 \<or> length data = 2 \<or> length data = 1
         then let h = (h + char_shift data 0 0) * hash_m in h XOR drop_bit 24 h
         else h)"

definition Hash :: "slice \<Rightarrow> u32 \<Rightarrow> u32" where
  "Hash data seed =
     (case hash_words (seed XOR (of_nat (length data) * hash_m)) data of (h, rest) \<Rightarrow> hash_tail h rest)"

section \<open>Murmur hash\<close>

definition rotl32 :: "u32 \<Rightarrow> nat \<Rightarrow> u32" where
  "rotl32 x r = push_bit r x OR drop_bit (32 - r) x"

definition fmix32 :: "u32 \<Rightarrow> u32" where
  "fmix32 h =
     (let h = h XOR drop_bit 16 h;
          h = h * 0x85ebca6b;
          h = h XOR drop_bit 13 h;
          h = h * 0xc2b2ae35
      in h XOR drop_bit 16 h)"

definition murmur_k :: "u32 \<Rightarrow> u32" where
  "murmur_k k = rotl32 (k * 0xcc9e2d51) 15 * 0x1b873593"

fun murmur_body :: "u32 \<Rightarrow> slice \<Rightarrow> u32 \<times> slice" where
  "murmur_body h (a # b # c # d # data) =
     (let k = murmur_k (DecodeFixed32 [a, b, c, d])
      in murmur_body (rotl32 (h XOR k) 13 * 5 + 0xe6546b64) data)"
| "murmur_body h data = (h, data)"

definition murmur_tail :: "u32 \<Rightarrow> slice \<Rightarrow> u32" where
  "murmur_tail h data =
     (let k = 0 :: u32;
          k = (if length data = 3 then k XOR push_bit 16 (ucast (data ! 2)) else k);
          k = (if length data = 3 \<or> length data = 2 then k XOR push_bit 8 (ucast (data ! 1)) else k)
      in if length data = 3 \<or> length data = 2 \<or> length data = 1
         then h XOR murmur_k (k XOR ucast (data ! 0))
         else h)"

definition MurmurHash3_x86_32 :: "slice \<Rightarrow> u32 \<Rightarrow> u32" where
  "MurmurHash3_x86_32 key seed =
     (case murmur_body seed key of (h, tail) \<Rightarrow>
        fmix32 (murmur_tail h tail XOR of_nat (length key)))"

section \<open>The loops stop at the last whole word\<close>

lemma drop_word: "drop (4 * ((4 + n) div 4)) (a # b # c # d # xs) = drop (4 * (n div 4)) xs"
proof -
  have "4 * ((4 + n) div 4) = Suc (Suc (Suc (Suc (4 * (n div 4)))))" by presburger
  then show ?thesis by (simp only: drop_Suc_Cons)
qed

lemma hash_words_rest: "snd (hash_words h data) = drop (4 * (length data div 4)) data"
  by (induction h data rule: hash_words.induct) (simp_all add: Let_def drop_word)

lemma murmur_body_rest: "snd (murmur_body h data) = drop (4 * (length data div 4)) data"
  by (induction h data rule: murmur_body.induct) (simp_all add: Let_def drop_word)

end
