(* ===== verification/WriteBatch.thy ===== *)
theory WriteBatch
  imports VersionEdit MemTable Hash
begin

text \<open>
  \<^verbatim>\<open>db/write_batch.cc\<close>: batches of writes as one string, the loop that hands the writes of a batch to a
  handler, and the two handlers: one inserts into a memtable and a version, the other chooses the
  guards. A batch is its string \<^verbatim>\<open>rep_\<close>. A handler's method returns \<open>None\<close> where an assertion of it
  fails.
\<close>

section \<open>Batches\<close>

definition kHeader :: nat where "kHeader = 12"

definition WriteBatch_Clear :: slice where
  "WriteBatch_Clear = replicate kHeader 0"

definition Count :: "slice \<Rightarrow> u32" where
  "Count rep = DecodeFixed32 (drop 8 rep)"

definition SetCount :: "slice \<Rightarrow> u32 \<Rightarrow> slice" where
  "SetCount rep n = take 8 rep @ EncodeFixed32 n @ drop 12 rep"

definition Sequence :: "slice \<Rightarrow> SequenceNumber" where
  "Sequence rep = DecodeFixed64 rep"

definition SetSequence :: "slice \<Rightarrow> SequenceNumber \<Rightarrow> slice" where
  "SetSequence rep seq = EncodeFixed64 seq @ drop 8 rep"

definition batch_Put :: "slice \<Rightarrow> slice \<Rightarrow> slice \<Rightarrow> slice" where
  "batch_Put rep key val =
     PutLengthPrefixedSlice (PutLengthPrefixedSlice (SetCount rep (Count rep + 1) @ [kTypeValue]) key) val"

definition batch_PutGuard :: "slice \<Rightarrow> slice \<Rightarrow> u32 \<Rightarrow> slice" where
  "batch_PutGuard rep key level =
     PutVarint32 (PutLengthPrefixedSlice (SetCount rep (Count rep + 1) @ [kTypeGuard]) key) level"

definition batch_Delete :: "slice \<Rightarrow> slice \<Rightarrow> slice" where
  "batch_Delete rep key = PutLengthPrefixedSlice (SetCount rep (Count rep + 1) @ [kTypeDeletion]) key"

definition SetContents :: "slice \<Rightarrow> slice option" where
  "SetContents contents = (if kHeader \<le> length contents then Some contents else None)"

definition Contents :: "slice \<Rightarrow> slice" where
  "Contents rep = rep"

definition ByteSize :: "slice \<Rightarrow> nat" where
  "ByteSize rep = length rep"

definition Append :: "slice \<Rightarrow> slice \<Rightarrow> slice option" where
  "Append dst src =
     (let dst = SetCount dst (Count dst + Count src)
      in if kHeader \<le> length src then Some (dst @ drop kHeader src) else None)"

section \<open>Iteration\<close>

record 'h Handler =
  h_Put :: "'h \<Rightarrow> slice \<Rightarrow> slice \<Rightarrow> 'h option"
  h_Delete :: "'h \<Rightarrow> slice \<Rightarrow> 'h option"
  h_HandleGuard :: "'h \<Rightarrow> slice \<Rightarrow> u32 \<Rightarrow> 'h option"

text \<open>The loop ends with an error status or with the number of records it found.\<close>

function iterate_loop :: "'h Handler \<Rightarrow> slice \<Rightarrow> u32 \<Rightarrow> 'h \<Rightarrow> ((Status + u32) \<times> 'h) option" where
  "iterate_loop H [] found h = Some (Inr found, h)"
| "iterate_loop H (tag # input) found h =
     (let found = found + 1 in
      if tag = kTypeValue then
        (case GetLengthPrefixedSlice input of
           None \<Rightarrow> Some (Inl (Corruption (str ''bad WriteBatch Put'') []), h)
         | Some (key, input) \<Rightarrow>
             (case GetLengthPrefixedSlice input of
                None \<Rightarrow> Some (Inl (Corruption (str ''bad WriteBatch Put'') []), h)
              | Some (val, input) \<Rightarrow>
                  (case h_Put H h key val of None \<Rightarrow> None | Some h \<Rightarrow> iterate_loop H input found h)))
      else if tag = kTypeDeletion then
        (case GetLengthPrefixedSlice input of
           None \<Rightarrow> Some (Inl (Corruption (str ''bad WriteBatch Delete'') []), h)
         | Some (key, input) \<Rightarrow>
             (case h_Delete H h key of None \<Rightarrow> None | Some h \<Rightarrow> iterate_loop H input found h))
      else if tag = kTypeGuard then
        (case GetLengthPrefixedSlice input of
           None \<Rightarrow> Some (Inl (Corruption (str ''bad WriteBatch Guard'') []), h)
         | Some (key, input) \<Rightarrow>
             (case GetVarint32 input of
                None \<Rightarrow> Some (Inl (Corruption (str ''bad WriteBatch Guard'') []), h)
              | Some (level, input) \<Rightarrow>
                  (case h_HandleGuard H h key level of None \<Rightarrow> None | Some h \<Rightarrow> iterate_loop H input found h)))
      else Some (Inl (Corruption (str ''unknown WriteBatch tag'') []), h))"
  by pat_completeness auto
termination
  by (relation "measure (\<lambda>(H, input, found, h). length input)")
    (auto dest!: GetLengthPrefixedSlice_shrinks GetVarint32_shrinks)

definition Iterate :: "'h Handler \<Rightarrow> slice \<Rightarrow> 'h \<Rightarrow> (Status \<times> 'h) option" where
  "Iterate H rep h =
     (if length rep < kHeader then Some (Corruption (str ''malformed WriteBatch (too small)'') [], h)
      else case iterate_loop H (drop kHeader rep) 0 h of
             None \<Rightarrow> None
           | Some (Inl s, h) \<Rightarrow> Some (s, h)
           | Some (Inr found, h) \<Rightarrow>
               Some (if found \<noteq> Count rep then Corruption (str ''WriteBatch has wrong count'') [] else OK, h))"

section \<open>Inserting into a memtable\<close>

text \<open>The inserter's version is the lists of complete guards of its levels, or null.\<close>

record MemTableInserter =
  ins_sequence :: SequenceNumber
  ins_mem :: MemTable
  ins_version :: "GuardMetaData list list option"

definition AddToCompleteGuards :: "GuardMetaData list list \<Rightarrow> GuardMetaData \<Rightarrow> nat \<Rightarrow> GuardMetaData list list option" where
  "AddToCompleteGuards v g level =
     (if level < kNumLevels then Some (v[level := v ! level @ [g]]) else None)"

definition inserter_add ::
  "(slice \<Rightarrow> slice \<Rightarrow> int) \<Rightarrow> (slice \<Rightarrow> u64) \<Rightarrow> nat list \<Rightarrow> nat option list \<Rightarrow> ValueType \<Rightarrow>
   MemTableInserter \<Rightarrow> slice \<Rightarrow> slice \<Rightarrow> MemTableInserter option"
where
  "inserter_add user_compare user_keynum prev0 obs0 t ins key val =
     (case mem_Add user_compare user_keynum prev0 obs0 (ins_mem ins) (ins_sequence ins) t key val of
        None \<Rightarrow> None
      | Some m \<Rightarrow> Some (ins\<lparr>ins_mem := m, ins_sequence := ins_sequence ins + 1\<rparr>))"

definition inserter_HandleGuard :: "MemTableInserter \<Rightarrow> slice \<Rightarrow> u32 \<Rightarrow> MemTableInserter option" where
  "inserter_HandleGuard ins key level =
     (case ins_version ins of
        None \<Rightarrow> Some ins
      | Some v \<Rightarrow>
          if level < of_nat kNumLevels
          then let g = new_GuardMetaData\<lparr>gm_guard_key := new_InternalKey key (ins_sequence ins) kTypeValue,
                     gm_level := uint level, gm_number_segments := 0, gm_refs := 1\<rparr>
               in case AddToCompleteGuards v g (unat level) of
                    None \<Rightarrow> None
                  | Some v \<Rightarrow> Some (ins\<lparr>ins_version := Some v, ins_sequence := ins_sequence ins + 1\<rparr>)
          else None)"

definition memtable_inserter ::
  "(slice \<Rightarrow> slice \<Rightarrow> int) \<Rightarrow> (slice \<Rightarrow> u64) \<Rightarrow> nat list \<Rightarrow> nat option list \<Rightarrow> MemTableInserter Handler"
where
  "memtable_inserter user_compare user_keynum prev0 obs0 =
     \<lparr>h_Put = inserter_add user_compare user_keynum prev0 obs0 kTypeValue,
      h_Delete = (\<lambda>ins key. inserter_add user_compare user_keynum prev0 obs0 kTypeDeletion ins key []),
      h_HandleGuard = inserter_HandleGuard\<rparr>"

definition InsertIntoVersion ::
  "(slice \<Rightarrow> slice \<Rightarrow> int) \<Rightarrow> (slice \<Rightarrow> u64) \<Rightarrow> nat list \<Rightarrow> nat option list \<Rightarrow> slice \<Rightarrow> MemTable \<Rightarrow>
   GuardMetaData list list option \<Rightarrow> (Status \<times> MemTableInserter) option"
where
  "InsertIntoVersion user_compare user_keynum prev0 obs0 b memtable version =
     Iterate (memtable_inserter user_compare user_keynum prev0 obs0) b
       \<lparr>ins_sequence = Sequence b, ins_mem = memtable, ins_version = version\<rparr>"

definition InsertInto ::
  "(slice \<Rightarrow> slice \<Rightarrow> int) \<Rightarrow> (slice \<Rightarrow> u64) \<Rightarrow> nat list \<Rightarrow> nat option list \<Rightarrow> slice \<Rightarrow> MemTable \<Rightarrow>
   (Status \<times> MemTableInserter) option"
where
  "InsertInto user_compare user_keynum prev0 obs0 b memtable =
     InsertIntoVersion user_compare user_keynum prev0 obs0 b memtable None"

section \<open>Choosing guards\<close>

definition top_level_bits :: nat where "top_level_bits = 27"
definition bit_decrement :: nat where "bit_decrement = 2"

record GuardInserter =
  gi_new_batch :: slice
  gi_sequence :: SequenceNumber
  gi_num_guards :: "u32 list"
  gi_bit_mask :: u32

definition set_mask :: "nat \<Rightarrow> u32 option" where
  "set_mask num_bits = (if 0 < num_bits \<and> num_bits < 32 then Some (push_bit num_bits 1 - 1) else None)"

text \<open>The first level whose bits are all set in the hash, and the last mask that was tried.\<close>

fun guard_level_loop :: "u32 \<Rightarrow> nat \<Rightarrow> nat list \<Rightarrow> u32 \<Rightarrow> (nat option \<times> u32) option" where
  "guard_level_loop hash_result num_bits [] bit_mask = Some (None, bit_mask)"
| "guard_level_loop hash_result num_bits (i # is) bit_mask =
     (case set_mask num_bits of
        None \<Rightarrow> None
      | Some bit_mask \<Rightarrow>
          if hash_result AND bit_mask = bit_mask then Some (Some i, bit_mask)
          else guard_level_loop hash_result (num_bits - bit_decrement) is bit_mask)"

definition put_guard_level :: "slice \<Rightarrow> GuardInserter \<Rightarrow> nat \<Rightarrow> GuardInserter" where
  "put_guard_level key g j =
     g\<lparr>gi_new_batch := batch_PutGuard (gi_new_batch g) key (of_nat j),
       gi_num_guards := (gi_num_guards g)[j := gi_num_guards g ! j + 1]\<rparr>"

definition guard_Put :: "GuardInserter \<Rightarrow> slice \<Rightarrow> slice \<Rightarrow> GuardInserter option" where
  "guard_Put g key val =
     (case guard_level_loop (MurmurHash3_x86_32 key 42) top_level_bits [0..<kNumLevels] (gi_bit_mask g) of
        None \<Rightarrow> None
      | Some (level, bit_mask) \<Rightarrow>
          let g = g\<lparr>gi_bit_mask := bit_mask\<rparr>;
              g = (case level of None \<Rightarrow> g | Some i \<Rightarrow> foldl (put_guard_level key) g [i..<kNumLevels])
          in Some (g\<lparr>gi_sequence := gi_sequence g + 1\<rparr>))"

definition guard_Delete :: "GuardInserter \<Rightarrow> slice \<Rightarrow> GuardInserter option" where
  "guard_Delete g key = Some (g\<lparr>gi_sequence := gi_sequence g + 1\<rparr>)"

definition guard_HandleGuard :: "bool \<Rightarrow> GuardInserter \<Rightarrow> slice \<Rightarrow> u32 \<Rightarrow> GuardInserter option" where
  "guard_HandleGuard ndebug g key level = (if ndebug then Some g else None)"

definition guard_inserter :: "bool \<Rightarrow> GuardInserter Handler" where
  "guard_inserter ndebug =
     \<lparr>h_Put = guard_Put, h_Delete = guard_Delete, h_HandleGuard = guard_HandleGuard ndebug\<rparr>"

definition SetGuards :: "bool \<Rightarrow> slice \<Rightarrow> slice \<Rightarrow> (Status \<times> slice) option" where
  "SetGuards ndebug b new_b =
     map_option (map_prod id gi_new_batch)
       (Iterate (guard_inserter ndebug) b
         \<lparr>gi_new_batch = new_b, gi_sequence = Sequence b, gi_num_guards = replicate kNumLevels 0, gi_bit_mask = 0\<rparr>)"

section \<open>Batches as sequences of operations\<close>

datatype batch_op = BPut slice slice | BDelete slice | BGuard slice u32

fun op_bytes :: "batch_op \<Rightarrow> slice" where
  "op_bytes (BPut key val) = kTypeValue # lps key @ lps val"
| "op_bytes (BDelete key) = kTypeDeletion # lps key"
| "op_bytes (BGuard key level) = kTypeGuard # lps key @ EncodeVarint32 level"

fun op_ok :: "batch_op \<Rightarrow> bool" where
  "op_ok (BPut key val) \<longleftrightarrow> length key < 2 ^ 32 \<and> length val < 2 ^ 32"
| "op_ok (BDelete key) \<longleftrightarrow> length key < 2 ^ 32"
| "op_ok (BGuard key level) \<longleftrightarrow> length key < 2 ^ 32"

definition batch_of :: "SequenceNumber \<Rightarrow> batch_op list \<Rightarrow> slice" where
  "batch_of seq ops =
     EncodeFixed64 seq @ EncodeFixed32 (of_nat (length ops)) @ concat (map op_bytes ops)"

fun add_op :: "slice \<Rightarrow> batch_op \<Rightarrow> slice" where
  "add_op rep (BPut key val) = batch_Put rep key val"
| "add_op rep (BDelete key) = batch_Delete rep key"
| "add_op rep (BGuard key level) = batch_PutGuard rep key level"

fun run_op :: "'h Handler \<Rightarrow> 'h \<Rightarrow> batch_op \<Rightarrow> 'h option" where
  "run_op H h (BPut key val) = h_Put H h key val"
| "run_op H h (BDelete key) = h_Delete H h key"
| "run_op H h (BGuard key level) = h_HandleGuard H h key level"

fun run_ops :: "'h Handler \<Rightarrow> 'h \<Rightarrow> batch_op list \<Rightarrow> 'h option" where
  "run_ops H h [] = Some h"
| "run_ops H h (x # xs) = (case run_op H h x of None \<Rightarrow> None | Some h \<Rightarrow> run_ops H h xs)"

lemma batch_of_length: "kHeader \<le> length (batch_of seq ops)"
  by (simp add: batch_of_def kHeader_def)

lemma batch_of_header:
  "Count (batch_of seq ops) = of_nat (length ops)" "Sequence (batch_of seq ops) = seq"
  "SetCount (batch_of seq ops) n = EncodeFixed64 seq @ EncodeFixed32 n @ concat (map op_bytes ops)"
  "SetSequence (batch_of seq ops) seq' = batch_of seq' ops"
  "drop kHeader (batch_of seq ops) = concat (map op_bytes ops)"
  by (simp_all add: batch_of_def Count_def Sequence_def SetCount_def SetSequence_def kHeader_def)

lemma Clear_batch: "WriteBatch_Clear = batch_of 0 []"
  by code_simp

lemma add_op_batch: "add_op (batch_of seq ops) x = batch_of seq (ops @ [x])"
  by (cases x) (simp_all add: batch_Put_def batch_Delete_def batch_PutGuard_def batch_of_header put_simps add.commute
      PutVarint32_def batch_of_def [of _ "ops @ [_]"])

lemma Append_batch: "Append (batch_of seq xs) (batch_of seq' ys) = Some (batch_of seq (xs @ ys))"
  by (simp add: Append_def batch_of_header batch_of_length batch_of_def [of _ "xs @ ys"])

lemma add_ops_batch: "foldl add_op (batch_of seq xs) ys = batch_of seq (xs @ ys)"
  by (induction ys arbitrary: xs) (simp_all add: add_op_batch)

section \<open>Iterating over a batch\<close>

lemma tag_neq [simp]: "kTypeValue \<noteq> kTypeDeletion" "kTypeDeletion \<noteq> kTypeValue" "kTypeGuard \<noteq> kTypeValue"
  "kTypeGuard \<noteq> kTypeDeletion" "kTypeValue \<noteq> kTypeGuard" "kTypeDeletion \<noteq> kTypeGuard"
  by (simp_all add: ValueType_defs)

lemma iterate_loop_op:
  "op_ok x \<Longrightarrow> iterate_loop H (op_bytes x @ rest) found h =
     (case run_op H h x of None \<Rightarrow> None | Some h \<Rightarrow> iterate_loop H rest (found + 1) h)"
  by (cases x) (simp_all add: Let_def split: option.split)

lemma iterate_loop_ops:
  "list_all op_ok ops \<Longrightarrow> iterate_loop H (concat (map op_bytes ops)) found h =
     map_option (Pair (Inr (found + of_nat (length ops)))) (run_ops H h ops)"
  by (induction ops arbitrary: found h) (simp_all add: iterate_loop_op ac_simps split: option.split)

lemma Iterate_batch: "list_all op_ok ops \<Longrightarrow> Iterate H (batch_of seq ops) h = map_option (Pair OK) (run_ops H h ops)"
  by (cases "run_ops H h ops") (simp_all add: Iterate_def leD [OF batch_of_length] batch_of_header iterate_loop_ops)

text \<open>A decoder that succeeds on a prefix of its input gives the same value on the whole input.\<close>

lemma varint_loop_extend: "varint_loop l s r p = Some (v, q) \<Longrightarrow> varint_loop l s r (p @ z) = Some (v, q @ z)"
  by (induction l s r p rule: varint_loop.induct) (auto simp: Let_def split: if_splits)

lemma GetVarint32_extend: "GetVarint32 p = Some (v, q) \<Longrightarrow> GetVarint32 (p @ z) = Some (v, q @ z)"
  by (simp add: GetVarint32_def GetVarint32Ptr_fast_path GetVarint32PtrFallback_def varint_loop_extend)

lemma GetLengthPrefixedSlice_extend:
  "GetLengthPrefixedSlice p = Some (v, q) \<Longrightarrow> GetLengthPrefixedSlice (p @ z) = Some (v, q @ z)"
  by (auto simp: GetLengthPrefixedSlice_def GetVarint32_extend split: option.splits if_splits)

lemma GetVarint32_cut: "k < length (EncodeVarint32 v) \<Longrightarrow> GetVarint32 (take k (EncodeVarint32 v)) = None"
  using GetVarint32_extend [of "take k (EncodeVarint32 v)" _ _ "drop k (EncodeVarint32 v)"]
    GetVarint32_EncodeVarint32 [of v "[]"]
  by (cases "GetVarint32 (take k (EncodeVarint32 v))") auto

lemma GetLengthPrefixedSlice_cut:
  "length v < 2 ^ 32 \<Longrightarrow> k < length (lps v) \<Longrightarrow> GetLengthPrefixedSlice (take k (lps v)) = None"
  using GetLengthPrefixedSlice_extend [of "take k (lps v)" _ _ "drop k (lps v)"]
    GetLengthPrefixedSlice_lps [of v "[]"]
  by (cases "GetLengthPrefixedSlice (take k (lps v))") (auto simp del: take_append drop_append)

text \<open>A record that is cut short ends the loop with an error.\<close>

lemma iterate_loop_cut_op:
  assumes x: "op_ok x" and k: "0 < k" "k < length (op_bytes x)"
  shows "\<exists>msg. iterate_loop H (take k (op_bytes x)) found h = Some (Inl (Corruption msg []), h)"
proof (cases x)
  case (BPut key val)
  show ?thesis
  proof (cases "k - 1 < length (lps key)")
    case True
    then show ?thesis
      using x k(1) GetLengthPrefixedSlice_cut [of key "k - 1"]
      by (cases k) (auto simp: BPut Let_def)
  next
    case False
    then have "take (k - 1) (lps key @ lps val) = lps key @ take (k - 1 - length (lps key)) (lps val)" by simp
    then show ?thesis
      using False x k GetLengthPrefixedSlice_cut [of val "k - 1 - length (lps key)"]
        GetLengthPrefixedSlice_lps [of key "take (k - 1 - length (lps key)) (lps val)"]
      by (cases k) (auto simp: BPut Let_def simp del: take_append GetLengthPrefixedSlice_lps)
  qed
next
  case (BDelete key)
  then show ?thesis
    using x k GetLengthPrefixedSlice_cut [of key "k - 1"] by (cases k) (auto simp: Let_def)
next
  case (BGuard key level)
  show ?thesis
  proof (cases "k - 1 < length (lps key)")
    case True
    then show ?thesis
      using x k(1) GetLengthPrefixedSlice_cut [of key "k - 1"]
      by (cases k) (auto simp: BGuard Let_def)
  next
    case False
    then have "take (k - 1) (lps key @ EncodeVarint32 level) = lps key @ take (k - 1 - length (lps key)) (EncodeVarint32 level)" by simp
    then show ?thesis
      using False x k GetVarint32_cut [of "k - 1 - length (lps key)" level]
        GetLengthPrefixedSlice_lps [of key "take (k - 1 - length (lps key)) (EncodeVarint32 level)"]
      by (cases k) (auto simp: BGuard Let_def simp del: take_append GetLengthPrefixedSlice_lps)
  qed
qed

lemma iterate_loop_cut:
  assumes "list_all op_ok ops" "k < length (concat (map op_bytes ops))"
    "iterate_loop H (take k (concat (map op_bytes ops))) found h = Some (r, h')"
  shows "\<exists>j<length ops. run_ops H h (take j ops) = Some h' \<and>
    (r = Inr (found + of_nat j) \<or> (\<exists>msg. r = Inl (Corruption msg [])))"
  using assms
proof (induction ops arbitrary: k found h)
  case (Cons x ops)
  let ?b = "op_bytes x" let ?rest = "concat (map op_bytes ops)"
  consider "k = 0" | "0 < k" "k < length ?b" | "length ?b \<le> k" by linarith
  then show ?case
  proof cases
    case 1
    with Cons.prems show ?thesis by (intro exI [of _ 0]) simp
  next
    case 2
    then have "take k (?b @ ?rest) = take k ?b" by simp
    with 2 iterate_loop_cut_op [of x k H found h] Cons.prems show ?thesis
      by (intro exI [of _ 0]) (auto simp del: take_append)
  next
    case 3
    then have "take k (?b @ ?rest) = ?b @ take (k - length ?b) ?rest" by simp
    then obtain h1 where h1: "run_op H h x = Some h1"
        "iterate_loop H (take (k - length ?b) ?rest) (found + 1) h1 = Some (r, h')"
      using Cons.prems by (auto simp: iterate_loop_op simp del: take_append split: option.splits)
    have "k - length ?b < length ?rest" using 3 Cons.prems(2) by simp
    then obtain j where "j < length ops" "run_ops H h1 (take j ops) = Some h'"
        "r = Inr (found + 1 + of_nat j) \<or> (\<exists>msg. r = Inl (Corruption msg []))"
      using Cons.IH [OF _ _ h1(2)] Cons.prems(1) by auto
    with h1(1) show ?thesis by (intro exI [of _ "Suc j"]) (simp add: ac_simps)
  qed
qed simp

text \<open>C6. A batch that lost its tail, as a torn write leaves it, is never accepted. Whatever the handler,
  iterating over any proper prefix of a batch ends with a corruption status, and what the handler was
  given before is a prefix of the batch's operations, in their order.\<close>

theorem truncated_batch_rejected:
  assumes "list_all op_ok ops" "length ops < 2 ^ 32" "n < length (batch_of seq ops)"
    and "Iterate H (take n (batch_of seq ops)) h = Some (s, h')"
  shows "(\<exists>msg. s = Corruption msg []) \<and> (\<exists>j. run_ops H h (take j ops) = Some h')"
proof (cases "n < kHeader")
  case True
  with assms(4) have "s = Corruption (str ''malformed WriteBatch (too small)'') []" "h' = h"
    by (auto simp: Iterate_def kHeader_def min_less_iff_disj)
  then show ?thesis by (auto intro: exI [of _ 0])
next
  case False
  let ?body = "concat (map op_bytes ops)" let ?k = "n - kHeader"
  have parts: "drop kHeader (take n (batch_of seq ops)) = take ?k ?body"
    by (simp add: drop_take batch_of_header)
  have count: "Count (take n (batch_of seq ops)) = of_nat (length ops)"
    using False by (simp add: Count_def batch_of_def kHeader_def)
  have long: "\<not> length (take n (batch_of seq ops)) < kHeader" using False batch_of_length [of seq ops] by simp
  have k: "?k < length ?body" using assms(3) False by (simp add: batch_of_def kHeader_def)
  obtain r where r: "iterate_loop H (take ?k ?body) 0 h = Some (r, h')"
      "s = (case r of Inl s \<Rightarrow> s | Inr found \<Rightarrow> if found \<noteq> of_nat (length ops) then Corruption (str ''WriteBatch has wrong count'') [] else OK)"
    using assms(4) long by (auto simp: Iterate_def parts count split: option.splits sum.splits if_splits)
  obtain j where j: "j < length ops" "run_ops H h (take j ops) = Some h'"
      "r = Inr (0 + of_nat j) \<or> (\<exists>msg. r = Inl (Corruption msg []))"
    using iterate_loop_cut [OF assms(1) k r(1)] by blast
  have "(of_nat j :: u32) \<noteq> of_nat (length ops)"
    using j(1) assms(2) by (metis order.strict_trans less_irrefl unat_of_nat_u32)
  with j r(2) show ?thesis by auto
qed

theorem truncated_batch_rejected_witness:
  "\<exists>msg. fst (the (Iterate \<lparr>h_Put = (\<lambda>h key val. Some (key # h)), h_Delete = (\<lambda>h key. Some h), h_HandleGuard = (\<lambda>h key level. Some h)\<rparr>
     (take 19 (batch_of 5 [BPut [97] [98], BDelete [99]])) [])) = Corruption msg []"
proof -
  let ?H = "\<lparr>h_Put = (\<lambda>h key val. Some (key # h)), h_Delete = (\<lambda>h key. Some h), h_HandleGuard = (\<lambda>h key level. Some h)\<rparr> :: slice list Handler"
  let ?ops = "[BPut [97] [98], BDelete [99]]"
  have "Iterate ?H (take 19 (batch_of 5 ?ops)) [] = Some (Corruption (str ''bad WriteBatch Delete'') [], [[97]])"
    by code_simp
  then show ?thesis
    using truncated_batch_rejected [of ?ops 19 5 ?H "[]"] by (auto simp: batch_of_def EncodeVarint32_def)
qed

section \<open>What an insertion leaves behind\<close>

text \<open>The writes of a batch with their sequence numbers. A guard takes a number only where there is
  a version to put it into.\<close>

fun op_writes :: "bool \<Rightarrow> SequenceNumber \<Rightarrow> batch_op list \<Rightarrow> mem_write list" where
  "op_writes has_version seq [] = []"
| "op_writes has_version seq (BPut key val # ops) = (seq, kTypeValue, key, val) # op_writes has_version (seq + 1) ops"
| "op_writes has_version seq (BDelete key # ops) = (seq, kTypeDeletion, key, []) # op_writes has_version (seq + 1) ops"
| "op_writes has_version seq (BGuard key level # ops) =
     op_writes has_version (if has_version then seq + 1 else seq) ops"

definition guard_meta :: "slice \<Rightarrow> u32 \<Rightarrow> SequenceNumber \<Rightarrow> GuardMetaData" where
  "guard_meta key level seq = new_GuardMetaData\<lparr>gm_guard_key := new_InternalKey key seq kTypeValue,
     gm_level := uint level, gm_number_segments := 0, gm_refs := 1\<rparr>"

fun op_guards :: "nat \<Rightarrow> SequenceNumber \<Rightarrow> batch_op list \<Rightarrow> GuardMetaData list" where
  "op_guards l seq [] = []"
| "op_guards l seq (BGuard key level # ops) =
     (if unat level = l then [guard_meta key level seq] else []) @ op_guards l (seq + 1) ops"
| "op_guards l seq (_ # ops) = op_guards l (seq + 1) ops"

fun op_insertable :: "batch_op \<Rightarrow> bool" where
  "op_insertable (BPut key val) \<longleftrightarrow> length key + 8 < 2 ^ 32 \<and> length val < 2 ^ 32"
| "op_insertable (BDelete key) \<longleftrightarrow> length key + 8 < 2 ^ 32"
| "op_insertable (BGuard key level) \<longleftrightarrow> length key < 2 ^ 32 \<and> unat level < kNumLevels"

definition add_guards :: "SequenceNumber \<Rightarrow> batch_op list \<Rightarrow> GuardMetaData list list \<Rightarrow> GuardMetaData list list" where
  "add_guards seq ops v = map (\<lambda>l. v ! l @ op_guards l seq ops) [0..<kNumLevels]"

lemma op_insertable_ok: "list_all op_insertable ops \<Longrightarrow> list_all op_ok ops"
proof (induction ops)
  case (Cons x ops) then show ?case by (cases x) auto
qed simp

lemma AddToCompleteGuards_add:
  assumes "length v = kNumLevels" "unat level < kNumLevels"
  shows "AddToCompleteGuards v (guard_meta key level seq) (unat level) = Some (add_guards seq [BGuard key level] v)"
  using assms by (auto simp: AddToCompleteGuards_def add_guards_def nth_list_update intro!: nth_equalityI)

lemma add_guards_Nil: "length v = kNumLevels \<Longrightarrow> add_guards seq [] v = v"
  using map_nth [of v] by (simp add: add_guards_def)

lemma add_guards_write: "length v = kNumLevels \<Longrightarrow> \<forall>key level. x \<noteq> BGuard key level \<Longrightarrow> add_guards seq [x] v = v"
  using map_nth [of v] by (cases x) (simp_all add: add_guards_def)

lemma add_guards_Cons: "length v = kNumLevels \<Longrightarrow> add_guards seq (x # ops) v = add_guards (seq + 1) ops (add_guards seq [x] v)"
  by (cases x) (simp_all add: add_guards_def)

lemma length_add_guards [simp]: "length (add_guards seq ops v) = kNumLevels"
  by (simp add: add_guards_def)

lemma unat_next_seq: "unat seq + Suc n < 2 ^ 64 \<Longrightarrow> unat (seq + 1) = unat seq + 1" for seq :: u64
  by (simp add: unat_word_ariths)

lemma op_writes_seqs:
  assumes "unat seq + length ops < 2 ^ 64" "w \<in> set (op_writes b seq ops)"
  shows "unat seq \<le> unat (fst w) \<and> unat (fst w) < unat seq + length ops"
  using assms
proof (induction ops arbitrary: seq)
  case (Cons x ops)
  have nxt: "unat (seq + 1) = unat seq + 1" using Cons.prems(1) by (intro unat_next_seq [of _ "length ops"]) simp
  have "w = (seq, kTypeValue, key, val) \<or> w = (seq, kTypeDeletion, key, val) \<Longrightarrow> fst w = seq" for key val by auto
  then consider "fst w = seq" | "w \<in> set (op_writes b (seq + 1) ops)" | "w \<in> set (op_writes b seq ops)"
    using Cons.prems(2) by (cases x) (auto split: if_splits)
  then show ?case
    using Cons.IH [of "seq + 1"] Cons.IH [of seq] Cons.prems(1) by cases (simp_all add: nxt)
qed simp

lemma op_writes_distinct: "unat seq + length ops < 2 ^ 64 \<Longrightarrow> distinct (map fst (op_writes b seq ops))"
proof (induction ops arbitrary: seq)
  case (Cons x ops)
  have nxt: "unat (seq + 1) = unat seq + 1" using Cons.prems by (intro unat_next_seq [of _ "length ops"]) simp
  have "seq \<notin> fst ` set (op_writes b (seq + 1) ops)"
    using op_writes_seqs [of "seq + 1" ops _ b] Cons.prems by (fastforce simp: nxt)
  then show ?case using Cons.IH [of "seq + 1"] Cons.IH [of seq] Cons.prems by (cases x; cases b) (simp_all add: nxt)
qed simp

lemma op_writes_ok:
  assumes "list_all op_insertable ops" "unat seq + length ops \<le> unat kMaxSequenceNumber + 1"
  shows "list_all write_ok (op_writes b seq ops)"
  using assms
proof (induction ops arbitrary: seq)
  case (Cons x ops)
  have max: "unat kMaxSequenceNumber + 1 = 2 ^ 56" by (simp add: kMaxSequenceNumber_def)
  have nxt: "unat (seq + 1) = unat seq + 1"
    using Cons.prems(2) unfolding max by (intro unat_next_seq [of _ "length ops"]) simp
  have "seq \<le> kMaxSequenceNumber" using Cons.prems(2) by (simp add: word_le_nat_alt)
  then show ?case
    using Cons.IH [of "seq + 1"] Cons.IH [of seq] Cons.prems by (cases x; cases b) (simp_all add: nxt ValueType_defs)
qed simp

lemma memtable_inserter_methods [simp]:
  "h_Put (memtable_inserter ucmp uknum prev0 obs0) = inserter_add ucmp uknum prev0 obs0 kTypeValue"
  "h_Delete (memtable_inserter ucmp uknum prev0 obs0) ins key = inserter_add ucmp uknum prev0 obs0 kTypeDeletion ins key []"
  "h_HandleGuard (memtable_inserter ucmp uknum prev0 obs0) = inserter_HandleGuard"
  by (simp_all add: memtable_inserter_def)

lemma run_inserter_guard:
  assumes "length v = kNumLevels" "unat level < kNumLevels"
  shows "inserter_HandleGuard \<lparr>ins_sequence = seq, ins_mem = m, ins_version = Some v\<rparr> key level =
    Some \<lparr>ins_sequence = seq + 1, ins_mem = m, ins_version = Some (add_guards seq [BGuard key level] v)\<rparr>"
proof -
  have "level < of_nat kNumLevels" using assms(2) by (simp add: word_less_nat_alt kNumLevels_def)
  with AddToCompleteGuards_add [OF assms] show ?thesis
    by (simp add: inserter_HandleGuard_def guard_meta_def Let_def)
qed

context mem_keys
begin

lemma inserter_run:
  assumes "mem_holds m es ws0" "list_all op_insertable ops" "unat seq + length ops \<le> unat kMaxSequenceNumber + 1"
    and "fst ` set (op_writes (version \<noteq> None) seq ops) \<inter> fst ` set ws0 = {}"
    and "\<forall>v. version = Some v \<longrightarrow> length v = kNumLevels"
    and arrays: "length prev0 = kMaxHeight" "length obs0 = kMaxHeight"
  shows "\<exists>ins es'. run_ops (memtable_inserter ucmp uknum prev0 obs0) \<lparr>ins_sequence = seq, ins_mem = m, ins_version = version\<rparr> ops = Some ins \<and>
    mem_holds (ins_mem ins) es' (rev (op_writes (version \<noteq> None) seq ops) @ ws0) \<and>
    ins_version ins = map_option (add_guards seq ops) version"
  using assms(1-5)
proof (induction ops arbitrary: m es ws0 seq version)
  case Nil
  then show ?case by (cases version) (auto simp: add_guards_Nil)
next
  case (Cons x ops)
  let ?run = "run_ops (memtable_inserter ucmp uknum prev0 obs0)"
  have max: "unat kMaxSequenceNumber + 1 = 2 ^ 56" by (simp add: kMaxSequenceNumber_def)
  have nxt: "unat (seq + 1) = unat seq + 1"
    using Cons.prems(3) unfolding max by (intro unat_next_seq [of _ "length ops"]) simp
  have seq: "seq \<le> kMaxSequenceNumber" using Cons.prems(3) by (simp add: word_le_nat_alt)
  have later: "seq \<notin> fst ` set (op_writes b (seq + 1) ops)" for b
    using op_writes_seqs [of "seq + 1" ops _ b] Cons.prems(3) unfolding max by (fastforce simp: nxt)
  have add: "\<exists>ins es'. (case inserter_add ucmp uknum prev0 obs0 t \<lparr>ins_sequence = seq, ins_mem = m, ins_version = version\<rparr> key val of
        None \<Rightarrow> None | Some h \<Rightarrow> ?run h ops) = Some ins \<and>
      mem_holds (ins_mem ins) es' (rev (op_writes (version \<noteq> None) (seq + 1) ops) @ (seq, t, key, val) # ws0) \<and>
      ins_version ins = map_option (add_guards (seq + 1) ops) version"
    if w: "write_ok (seq, t, key, val)" "op_writes (version \<noteq> None) seq (x # ops) = (seq, t, key, val) # op_writes (version \<noteq> None) (seq + 1) ops" for t key val
  proof -
    have new: "seq \<notin> fst ` set ws0" using Cons.prems(4) unfolding w(2) by auto
    obtain m1 es1 where m1: "mem_Add ucmp uknum prev0 obs0 m seq t key val = Some m1"
        "mem_holds m1 es1 ((seq, t, key, val) # ws0)"
      using mem_Add_holds [OF Cons.prems(1) w(1) new arrays] by blast
    have rest: "list_all op_insertable ops" "unat (seq + 1) + length ops \<le> unat kMaxSequenceNumber + 1"
        "fst ` set (op_writes (version \<noteq> None) (seq + 1) ops) \<inter> fst ` set ((seq, t, key, val) # ws0) = {}"
      using Cons.prems(2-4) later [of "version \<noteq> None"] unfolding w(2) by (auto simp: nxt)
    show ?thesis using Cons.IH [OF m1(2) rest Cons.prems(5)] m1(1) by (simp add: inserter_add_def)
  qed
  have version_eq: "map_option (add_guards (seq + 1) ops) version = map_option (add_guards seq (x # ops)) version"
    if "\<forall>key level. x \<noteq> BGuard key level"
    using add_guards_write [OF _ that] Cons.prems(5) by (cases version) (simp_all add: add_guards_Cons [of _ seq x ops])
  show ?case
  proof (cases x)
    case (BPut key val)
    then show ?thesis
      using add [of kTypeValue key val] version_eq seq Cons.prems(2) by simp
  next
    case (BDelete key)
    then show ?thesis
      using add [of kTypeDeletion key "[]"] version_eq seq Cons.prems(2)
      by (simp add: ValueType_defs)
  next
    case (BGuard key level)
    show ?thesis
    proof (cases version)
      case None
      show ?thesis
        using Cons.IH [OF Cons.prems(1), of seq None] Cons.prems(2-4)
        by (simp add: BGuard None inserter_HandleGuard_def)
    next
      case (Some v)
      have rest: "list_all op_insertable ops" "unat (seq + 1) + length ops \<le> unat kMaxSequenceNumber + 1"
        "fst ` set (op_writes (Some (add_guards seq [x] v) \<noteq> None) (seq + 1) ops) \<inter> fst ` set ws0 = {}"
        "\<forall>u. Some (add_guards seq [x] v) = Some u \<longrightarrow> length u = kNumLevels"
        using Cons.prems(2-4) by (auto simp: nxt BGuard Some)
      have "\<exists>ins es'. ?run \<lparr>ins_sequence = seq + 1, ins_mem = m, ins_version = Some (add_guards seq [x] v)\<rparr> ops = Some ins \<and>
          mem_holds (ins_mem ins) es' (rev (op_writes True (seq + 1) ops) @ ws0) \<and>
          ins_version ins = Some (add_guards (seq + 1) ops (add_guards seq [x] v))"
        using Cons.IH [OF Cons.prems(1) rest] by simp
      then show ?thesis
        using run_inserter_guard [of v level seq m key] Cons.prems(2,5)
        by (simp add: BGuard Some add_guards_Cons [of _ seq x ops, unfolded BGuard])
    qed
  qed
qed

lemma InsertIntoVersion_holds:
  assumes "mem_holds m es ws0" "list_all op_insertable ops" "unat seq + length ops \<le> unat kMaxSequenceNumber + 1"
    and "fst ` set (op_writes (version \<noteq> None) seq ops) \<inter> fst ` set ws0 = {}"
    and "\<forall>v. version = Some v \<longrightarrow> length v = kNumLevels"
    and "length prev0 = kMaxHeight" "length obs0 = kMaxHeight"
  shows "\<exists>ins es'. InsertIntoVersion ucmp uknum prev0 obs0 (batch_of seq ops) m version = Some (OK, ins) \<and>
    mem_holds (ins_mem ins) es' (rev (op_writes (version \<noteq> None) seq ops) @ ws0) \<and>
    ins_version ins = map_option (add_guards seq ops) version"
  using inserter_run [OF assms]
  by (auto simp: InsertIntoVersion_def Iterate_batch [OF op_insertable_ok [OF assms(2)]] batch_of_header)

end

section \<open>What the choice of guards leaves behind\<close>

text \<open>The low bits of a key's hash that make it a guard of a level, and the guard records of a batch.\<close>

definition guard_at :: "slice \<Rightarrow> nat \<Rightarrow> bool" where
  "guard_at key j \<longleftrightarrow> take_bit (27 - 2 * j) (MurmurHash3_x86_32 key 42) = mask (27 - 2 * j)"

fun guard_ops :: "batch_op \<Rightarrow> batch_op list" where
  "guard_ops (BPut key val) = map (\<lambda>j. BGuard key (of_nat j)) (filter (guard_at key) [0..<kNumLevels])"
| "guard_ops _ = []"

fun is_guard :: "batch_op \<Rightarrow> bool" where
  "is_guard (BGuard key level) \<longleftrightarrow> True"
| "is_guard _ \<longleftrightarrow> False"

lemma set_mask_eq: "0 < n \<Longrightarrow> n < 32 \<Longrightarrow> set_mask n = Some (mask n)"
  by (simp add: set_mask_def mask_eq_decr_exp push_bit_eq_mult)

lemma guard_at_mono:
  assumes "guard_at key i" "i \<le> j" shows "guard_at key j"
proof -
  have "take_bit (27 - 2 * j) (take_bit (27 - 2 * i) (MurmurHash3_x86_32 key 42)) =
      take_bit (27 - 2 * j) (mask (27 - 2 * i))"
    using assms(1) by (simp add: guard_at_def)
  then show ?thesis using assms(2) by (simp add: guard_at_def take_bit_of_mask min_def split: if_splits)
qed

lemma guard_level_loop_find:
  assumes "is = [i..<kNumLevels]" "i \<le> kNumLevels"
  shows "\<exists>bm. guard_level_loop (MurmurHash3_x86_32 key 42) (27 - 2 * i) is bit_mask = Some (find (guard_at key) is, bm)"
  using assms
proof (induction "is" arbitrary: i bit_mask)
  case (Cons k ks)
  have k: "k = i" "i < kNumLevels" "ks = [Suc i..<kNumLevels]"
    using Cons.prems(1) [symmetric] by (auto simp: upt_eq_Cons_conv)
  have bits: "set_mask (27 - 2 * i) = Some (mask (27 - 2 * i))" "27 - 2 * i - bit_decrement = 27 - 2 * Suc i"
    using k(2) by (simp_all add: set_mask_eq kNumLevels_def bit_decrement_def)
  show ?case
    using Cons.IH [of "Suc i" "mask (27 - 2 * i)"] k by (simp add: bits bit_decrement_def guard_at_def take_bit_eq_mask)
qed simp

lemma find_filter_upt:
  assumes "\<And>i j. P i \<Longrightarrow> i \<le> j \<Longrightarrow> P j"
  shows "(case find P [m..<n] of None \<Rightarrow> [] | Some i \<Rightarrow> [i..<n]) = filter P [m..<n]"
proof (induction "n - m" arbitrary: m)
  case (Suc d)
  then have "[m..<n] = m # [Suc m..<n]" by (simp add: upt_conv_Cons)
  moreover have "P m \<Longrightarrow> filter P [Suc m..<n] = [Suc m..<n]" using assms by (simp add: filter_id_conv)
  ultimately show ?case using Suc.hyps(1) [of "Suc m"] Suc.hyps(2) by auto
qed simp

lemma put_guard_levels:
  "gi_new_batch g = batch_of s xs \<Longrightarrow>
   gi_new_batch (foldl (put_guard_level key) g js) = batch_of s (xs @ map (\<lambda>j. BGuard key (of_nat j)) js)"
proof (induction js arbitrary: g xs)
  case (Cons j js)
  have "gi_new_batch (put_guard_level key g j) = batch_of s (xs @ [BGuard key (of_nat j)])"
    using Cons.prems add_op_batch [of s xs "BGuard key (of_nat j)"] by (simp add: put_guard_level_def)
  then show ?case using Cons.IH by fastforce
qed simp

lemma guard_op:
  assumes "gi_new_batch g = batch_of s xs" "\<not> is_guard x"
  shows "\<exists>g'. run_op (guard_inserter ndebug) g x = Some g' \<and> gi_new_batch g' = batch_of s (xs @ guard_ops x)"
proof (cases x)
  case (BPut key val)
  obtain bm where "guard_level_loop (MurmurHash3_x86_32 key 42) 27 [0..<kNumLevels] (gi_bit_mask g) =
      Some (find (guard_at key) [0..<kNumLevels], bm)"
    using guard_level_loop_find [OF refl, of 0 key "gi_bit_mask g"] by auto
  moreover have "filter (guard_at key) [0..<kNumLevels] =
      (case find (guard_at key) [0..<kNumLevels] of None \<Rightarrow> [] | Some i \<Rightarrow> [i..<kNumLevels])"
    by (rule find_filter_upt [symmetric]) (rule guard_at_mono)
  ultimately show ?thesis
    using assms(1) put_guard_levels [of "g\<lparr>gi_bit_mask := bm\<rparr>" s xs key]
    by (auto simp: BPut guard_inserter_def guard_Put_def top_level_bits_def Let_def split: option.splits)
qed (use assms in \<open>simp_all add: guard_inserter_def guard_Delete_def\<close>)

lemma guard_run:
  assumes "gi_new_batch g = batch_of s xs" "list_all (\<lambda>x. \<not> is_guard x) ops"
  shows "\<exists>g'. run_ops (guard_inserter ndebug) g ops = Some g' \<and> gi_new_batch g' = batch_of s (xs @ concat (map guard_ops ops))"
  using assms
proof (induction ops arbitrary: g xs)
  case (Cons x ops)
  obtain g1 where "run_op (guard_inserter ndebug) g x = Some g1" "gi_new_batch g1 = batch_of s (xs @ guard_ops x)"
    using guard_op [OF Cons.prems(1), of x ndebug] Cons.prems(2) by auto
  with Cons.IH [of g1 "xs @ guard_ops x"] Cons.prems(2) show ?case by simp
qed simp

lemma SetGuards_batch:
  assumes "list_all op_ok ops" "list_all (\<lambda>x. \<not> is_guard x) ops"
  shows "SetGuards ndebug (batch_of seq ops) (batch_of s xs) = Some (OK, batch_of s (xs @ concat (map guard_ops ops)))"
  using guard_run [of "\<lparr>gi_new_batch = batch_of s xs, gi_sequence = seq, gi_num_guards = replicate kNumLevels 0, gi_bit_mask = 0\<rparr>" s xs ops ndebug]
    assms(2)
  by (auto simp: SetGuards_def Iterate_batch [OF assms(1)] batch_of_header)

section \<open>Properties\<close>

text \<open>C7. A batch is a faithful sequence of its operations. However it is built by \<^verbatim>\<open>Put\<close>, \<^verbatim>\<open>Delete\<close> and
  \<^verbatim>\<open>PutGuard\<close>, appended to and numbered, it has the count and the sequence number it was given, and
  iterating over it hands every handler exactly its operations, in order, and ends with OK.\<close>

theorem write_batch_roundtrip:
  assumes "list_all op_ok (xs @ ys)"
  shows "\<exists>b. Append (SetSequence (foldl add_op WriteBatch_Clear xs) seq) (foldl add_op WriteBatch_Clear ys) = Some b \<and>
    Sequence b = seq \<and> Count b = of_nat (length (xs @ ys)) \<and>
    Iterate H b h = map_option (Pair OK) (run_ops H h (xs @ ys))"
proof (intro exI conjI)
  show "Append (SetSequence (foldl add_op WriteBatch_Clear xs) seq) (foldl add_op WriteBatch_Clear ys) = Some (batch_of seq (xs @ ys))"
    by (simp add: Clear_batch add_ops_batch batch_of_header Append_batch)
qed (simp_all only: batch_of_header Iterate_batch [OF assms])

theorem write_batch_roundtrip_witness:
  "\<exists>b. Append (SetSequence (foldl add_op WriteBatch_Clear [BPut [97] [1], BDelete [98]]) 7) (foldl add_op WriteBatch_Clear [BGuard [97] 3]) = Some b \<and>
    Sequence b = 7 \<and> Count b = 3 \<and>
    Iterate \<lparr>h_Put = (\<lambda>h key val. Some (BPut key val # h)), h_Delete = (\<lambda>h key. Some (BDelete key # h)),
      h_HandleGuard = (\<lambda>h key level. Some (BGuard key level # h))\<rparr> b [] = Some (OK, [BGuard [97] 3, BDelete [98], BPut [97] [1]])"
  using write_batch_roundtrip [of "[BPut [97] [1], BDelete [98]]" "[BGuard [97] 3]" 7
      "\<lparr>h_Put = (\<lambda>h key val. Some (BPut key val # h)), h_Delete = (\<lambda>h key. Some (BDelete key # h)),
        h_HandleGuard = (\<lambda>h key level. Some (BGuard key level # h))\<rparr>" "[]"]
  by simp

text \<open>C8. The choice of guards is exact and nested, and none of its assertions can fail. For a batch
  without guards, the result is the batch with, for every put in order, a guard record for exactly
  the levels \<open>j\<close> at which the low \<open>27 - 2 * j\<close> bits of the key's hash are all ones, from the top level down;
  a key that is a guard of a level is a guard of every level below it.\<close>

theorem set_guards_levels:
  assumes "list_all op_ok ops" "list_all (\<lambda>x. \<not> is_guard x) ops"
  shows "SetGuards ndebug (batch_of seq ops) (batch_of seq ops) = Some (OK, batch_of seq (ops @ concat (map guard_ops ops))) \<and>
    (\<forall>x j k. BGuard key j \<in> set (guard_ops x) \<and> unat j \<le> k \<and> k < kNumLevels \<longrightarrow> BGuard key (of_nat k) \<in> set (guard_ops x))"
proof
  show "SetGuards ndebug (batch_of seq ops) (batch_of seq ops) = Some (OK, batch_of seq (ops @ concat (map guard_ops ops)))"
    by (rule SetGuards_batch [OF assms])
  have "BGuard key (of_nat k) \<in> set (guard_ops x)"
    if x: "BGuard key j \<in> set (guard_ops x)" "unat j \<le> k" "k < kNumLevels" for x j k
  proof (cases x)
    case (BPut key' val)
    then obtain i where i: "j = of_nat i" "guard_at key i" "i < kNumLevels" "key' = key" using x(1) by auto
    then have "unat j = i" by (simp add: kNumLevels_def)
    then have "guard_at key k" using guard_at_mono [OF i(2)] x(2) by simp
    then show ?thesis using x(3) by (auto simp: BPut i(4))
  qed (use x in auto)
  then show "\<forall>x j k. BGuard key j \<in> set (guard_ops x) \<and> unat j \<le> k \<and> k < kNumLevels \<longrightarrow> BGuard key (of_nat k) \<in> set (guard_ops x)"
    by blast
qed

theorem set_guards_levels_witness:
  "SetGuards False (batch_of 7 [BPut [113, 113, 101, 103] [1], BDelete [98]]) (batch_of 7 [BPut [113, 113, 101, 103] [1], BDelete [98]]) =
    Some (OK, batch_of 7 [BPut [113, 113, 101, 103] [1], BDelete [98], BGuard [113, 113, 101, 103] 5, BGuard [113, 113, 101, 103] 6])"
proof -
  have "guard_ops (BPut [113, 113, 101, 103] [1]) = [BGuard [113, 113, 101, 103] 5, BGuard [113, 113, 101, 103] 6]"
    by code_simp
  with set_guards_levels [of "[BPut [113, 113, 101, 103] [1], BDelete [98]]" False 7 "[]"] show ?thesis
    by (simp del: guard_ops.simps(1))
qed

end
