(* ===== verification/Crc32c.thy ===== *)
theory Crc32c
  imports Crc_Tables
begin

text \<open>
  The checksum of \<^verbatim>\<open>util/crc32c.{h,cc}\<close>: the slicing-by-8 loop, \<^verbatim>\<open>Extend\<close>,
  \<^verbatim>\<open>Value\<close> and the masking of stored checksums. The sliced loop is proved equal to the
  bitwise reference, wherever the buffer lies in memory. The locale \<open>checksum\<close> is what the
  log and the table format rely on.
\<close>

section \<open>The sliced loop\<close>

fun crc_byte_loop :: "nat \<Rightarrow> u32 \<Rightarrow> slice \<Rightarrow> u32 \<times> slice" where
  "crc_byte_loop 0 crc p_buf = (crc, p_buf)"
| "crc_byte_loop (Suc n) crc p_buf =
     crc_byte_loop n
       (crc_tableil8_o32 ! unat ((crc XOR ucast (hd p_buf)) AND 255) XOR drop_bit 8 crc) (tl p_buf)"

text \<open>One iteration of the body: two 32-bit loads.\<close>

definition crc_quad_step :: "u32 \<Rightarrow> slice \<Rightarrow> u32" where
  "crc_quad_step crc p_buf =
     (let crc = crc XOR DecodeFixed32 p_buf;
          p_buf = drop 4 p_buf;
          term1 = crc_tableil8_o88 ! unat (crc AND 255) XOR
                  crc_tableil8_o80 ! unat (drop_bit 8 crc AND 255);
          term2 = drop_bit 16 crc;
          crc = term1 XOR crc_tableil8_o72 ! unat (term2 AND 255) XOR
                crc_tableil8_o64 ! unat (drop_bit 8 term2 AND 255);
          term1 = crc_tableil8_o56 ! unat (DecodeFixed32 p_buf AND 255) XOR
                  crc_tableil8_o48 ! unat (drop_bit 8 (DecodeFixed32 p_buf) AND 255);
          term2 = drop_bit 16 (DecodeFixed32 p_buf)
      in crc XOR term1 XOR crc_tableil8_o40 ! unat (term2 AND 255) XOR
         crc_tableil8_o32 ! unat (drop_bit 8 term2 AND 255))"

fun crc_quad_loop :: "nat \<Rightarrow> u32 \<Rightarrow> slice \<Rightarrow> u32 \<times> slice" where
  "crc_quad_loop 0 crc p_buf = (crc, p_buf)"
| "crc_quad_loop (Suc n) crc p_buf = crc_quad_loop n (crc_quad_step crc p_buf) (drop 8 p_buf)"

definition crc32c_sb8_64_bit :: "u32 \<Rightarrow> slice \<Rightarrow> u32 \<Rightarrow> u32 \<Rightarrow> u32" where
  "crc32c_sb8_64_bit p_running_crc p_buf len init_bytes =
     (let running_length = ((len - init_bytes) div 8) * 8;
          end_bytes = len - init_bytes - running_length;
          (crc, p_buf) = crc_byte_loop (unat init_bytes) p_running_crc p_buf;
          (crc, p_buf) = crc_quad_loop (unat (running_length div 8)) crc p_buf
      in fst (crc_byte_loop (unat end_bytes) crc p_buf))"

text \<open>\<open>x\<close> is the address of the buffer, which the code aligns to four bytes.\<close>

definition crc32_software :: "u64 \<Rightarrow> u32 \<Rightarrow> slice \<Rightarrow> u32" where
  "crc32_software x init_crc data =
     (let n = length data;
          init_crc = init_crc XOR 0xFFFFFFFF;
          init = ucast (((x + 3) AND NOT 3) - x) :: u32;
          init = (if unat init > n then of_nat n else init)
      in crc32c_sb8_64_bit init_crc data (of_nat n) init XOR 0xFFFFFFFF)"

text \<open>\<^verbatim>\<open>choose_crc32c\<close> returns \<^verbatim>\<open>crc32_software\<close> on every processor (the SSE4.2
  return is commented out), so \<^verbatim>\<open>Extend\<close> is that function.\<close>

definition Extend_at :: "u64 \<Rightarrow> u32 \<Rightarrow> slice \<Rightarrow> u32" where
  "Extend_at x init_crc data = crc32_software x init_crc data"

definition Value_at :: "u64 \<Rightarrow> slice \<Rightarrow> u32" where
  "Value_at x data = Extend_at x 0 data"

text \<open>The address only moves the boundary between the loops, so the clients of the checksum
  use it at one address; \<open>Extend_at_eq_ref\<close> below covers every other.\<close>

definition Extend :: "u32 \<Rightarrow> slice \<Rightarrow> u32" where
  "Extend init_crc data = Extend_at 0 init_crc data"

definition Value :: "slice \<Rightarrow> u32" where
  "Value data = Extend 0 data"

definition kMaskDelta :: u32 where
  "kMaskDelta = 0xa282ead8"

definition Mask :: "u32 \<Rightarrow> u32" where
  "Mask crc = (drop_bit 15 crc OR push_bit 17 crc) + kMaskDelta"

definition Unmask :: "u32 \<Rightarrow> u32" where
  "Unmask masked_crc =
     (let rot = masked_crc - kMaskDelta in drop_bit 17 rot OR push_bit 15 rot)"

section \<open>Masking\<close>

lemma Unmask_Mask [simp]: "Unmask (Mask crc) = crc"
proof -
  have "drop_bit 17 (drop_bit 15 crc OR push_bit 17 crc) OR
        push_bit 15 (drop_bit 15 crc OR push_bit 17 crc) = crc"
  proof (rule bit_word_eqI)
    fix n assume "n < LENGTH(32)"
    then show "bit (drop_bit 17 (drop_bit 15 crc OR push_bit 17 crc) OR
        push_bit 15 (drop_bit 15 crc OR push_bit 17 crc)) n = bit crc n"
      by (cases "15 \<le> n") (auto simp: bit_simps)
  qed
  then show ?thesis by (simp add: Unmask_def Mask_def Let_def)
qed

section \<open>The sliced loop is the reference\<close>

lemma native_word_xor: "native_word (b # bs) = (ucast b XOR push_bit 8 (native_word bs) :: 'a::len word)"
proof -
  have "(ucast b :: 'a word) AND push_bit 8 (native_word bs) = 0"
    by (intro bit_word_eqI) (auto simp: bit_simps dest: bit_imp_le_length)
  then show ?thesis by (simp add: disjunctive_xor_eq_or)
qed

lemma DecodeFixed32_xor: "DecodeFixed32 p =
    ucast (p ! 0) XOR push_bit 8 (ucast (p ! 1)) XOR push_bit 16 (ucast (p ! 2)) XOR
    push_bit 24 (ucast (p ! 3))"
  by (simp add: DecodeFixed32_port_def native_word_xor push_bit_xor xor.assoc del: native_word.simps(2))

lemma crc_bits_shifted_byte: "k \<le> 24 \<Longrightarrow> k \<le> n \<Longrightarrow>
    crc_bits n (push_bit k (ucast (b :: byte))) = crc_bits (n - k) (ucast b)"
  by (intro crc_bits_shifted) (auto simp: bit_simps dest: bit_imp_le_length)

lemma crc_table_index:
  assumes "t = xor_table (crc_basis n)"
  shows "t ! unat (x AND 255) = crc_bits n (take_bit 8 x)"
proof -
  have "take_bit 8 (unat x) < 2 ^ 8" by (rule take_bit_nat_less_exp)
  then have "unat (x AND 255) < 256"
    by (simp add: and_255 unsigned_take_bit_eq)
  then show ?thesis
    using crc_table_nth [OF assms, of "unat (x AND 255)"] by (simp add: and_255)
qed

lemma crc_bits_8_split: "crc_bits 8 x = crc_bits 8 (take_bit 8 x) XOR drop_bit 8 x"
proof -
  have "x = take_bit 8 x XOR push_bit 8 (drop_bit 8 x)"
  proof (rule bit_word_eqI)
    fix n show "bit x n = bit (take_bit 8 x XOR push_bit 8 (drop_bit 8 x)) n" if "n < LENGTH(32)"
      using that by (cases "8 \<le> n") (auto simp: bit_simps)
  qed
  then have "crc_bits 8 x = crc_bits 8 (take_bit 8 x) XOR crc_bits 8 (push_bit 8 (drop_bit 8 x))"
    by (metis crc_bits_xor)
  moreover have "crc_bits 8 (push_bit 8 (drop_bit 8 x)) = drop_bit 8 x"
    by (rule crc_bits_push_bit) (auto simp: bit_simps dest: bit_imp_le_length)
  ultimately show ?thesis by simp
qed

lemma crc_table_step:
  "crc_tableil8_o32 ! unat ((crc XOR ucast b) AND 255) XOR drop_bit 8 crc = crc_bits 8 (crc XOR ucast b)"
  for b :: byte
proof -
  have "drop_bit 8 (crc XOR ucast b) = drop_bit 8 crc"
    by (intro bit_word_eqI) (auto simp: bit_simps dest: bit_imp_le_length)
  then show ?thesis
    unfolding crc_table_index [OF o32_eq] crc_bits_8_split [of "crc XOR ucast b"] by (simp only:)
qed

lemma crc_byte_loop_update: "n \<le> length p \<Longrightarrow>
    crc_byte_loop n crc p = (crc_update crc (take n p), drop n p)"
proof (induction n arbitrary: crc p)
  case (Suc n)
  then obtain b q where "p = b # q" by (cases p) auto
  then show ?case using Suc by (simp add: crc_table_step crc_update_def)
qed (simp add: crc_update_def)

lemma word_bytes_xor: "w = take_bit 8 w XOR push_bit 8 (take_bit 8 (drop_bit 8 w)) XOR
    push_bit 16 (take_bit 8 (drop_bit 16 w)) XOR push_bit 24 (take_bit 8 (drop_bit 24 w))" for w :: u32
proof (rule bit_word_eqI)
  fix n assume "n < LENGTH(32)"
  then consider "n < 8" | "8 \<le> n \<and> n < 16" | "16 \<le> n \<and> n < 24" | "24 \<le> n \<and> n < 32" by fastforce
  then show "bit w n = bit (take_bit 8 w XOR push_bit 8 (take_bit 8 (drop_bit 8 w)) XOR
    push_bit 16 (take_bit 8 (drop_bit 16 w)) XOR push_bit 24 (take_bit 8 (drop_bit 24 w))) n"
    by cases (auto simp: bit_simps)
qed

lemma crc_bits_word: "24 \<le> n \<Longrightarrow> crc_bits n w =
    crc_bits n (take_bit 8 w) XOR crc_bits (n - 8) (take_bit 8 (drop_bit 8 w)) XOR
    crc_bits (n - 16) (take_bit 8 (drop_bit 16 w)) XOR crc_bits (n - 24) (take_bit 8 (drop_bit 24 w))"
proof -
  assume n: "24 \<le> n"
  have sh: "crc_bits n (push_bit k (take_bit 8 x)) = crc_bits (n - k) (take_bit 8 x)" if "k \<le> 24" for k and x :: u32
    using that n by (intro crc_bits_shifted) (auto simp: bit_simps)
  show ?thesis
    using sh [of 8] sh [of 16] sh [of 24]
    by (subst word_bytes_xor [of w], unfold crc_bits_xor) simp
qed

lemmas crc_table_indices =
  crc_table_index [OF o32_eq] crc_table_index [OF o40_eq] crc_table_index [OF o48_eq]
  crc_table_index [OF o56_eq] crc_table_index [OF o64_eq] crc_table_index [OF o72_eq]
  crc_table_index [OF o80_eq] crc_table_index [OF o88_eq]

lemma crc_quad_step_bits: "crc_quad_step crc p =
    crc_bits 64 (crc XOR DecodeFixed32 p) XOR crc_bits 32 (DecodeFixed32 (drop 4 p))"
proof -
  define x y where "x = crc XOR DecodeFixed32 p" and "y = DecodeFixed32 (drop 4 p)"
  have "crc_bits 64 x XOR crc_bits 32 y = crc_quad_step crc p"
    using crc_bits_word [of 64 x] crc_bits_word [of 32 y]
    by (simp add: crc_quad_step_def Let_def crc_table_indices xor.assoc
        flip: x_def y_def)
  then show ?thesis by (simp only: x_def y_def)
qed

lemma crc_update_4: "crc_update crc [a, b, c, d] = crc_bits 32 (crc XOR DecodeFixed32 ([a, b, c, d] @ r))"
  by (simp add: crc_update_def DecodeFixed32_xor crc_bits_xor crc_bits_shifted_byte xor.assoc
      flip: crc_bits_add)

lemma crc_update_Nil: "crc_update c [] = c"
  and crc_update_Cons: "crc_update c (b # bs) = crc_update (crc_bits 8 (c XOR ucast b)) bs"
  by (simp_all add: crc_update_def)

lemma crc_update_append: "crc_update c (xs @ ys) = crc_update (crc_update c xs) ys"
  by (simp add: crc_update_def)

lemma crc_quad_step_update:
  assumes "8 \<le> length p"
  shows "crc_quad_step crc p = crc_update crc (take 8 p)"
proof -
  obtain b0 b1 b2 b3 b4 b5 b6 b7 r where p: "p = [b0, b1, b2, b3] @ [b4, b5, b6, b7] @ r"
    using assms by (auto simp: numeral_eq_Suc Suc_le_length_iff)
  then have "crc_update crc (take 8 p) = crc_bits 32 (crc_bits 32 (crc XOR DecodeFixed32 p) XOR
      DecodeFixed32 (drop 4 p))"
    using crc_update_append [of crc "[b0, b1, b2, b3]" "[b4, b5, b6, b7]"]
      crc_update_4 [of crc b0 b1 b2 b3 "[b4, b5, b6, b7] @ r"] crc_update_4 [of _ b4 b5 b6 b7 r]
    by simp
  then show ?thesis by (simp add: crc_quad_step_bits crc_bits_xor flip: crc_bits_add)
qed

lemma crc_quad_loop_update: "8 * n \<le> length p \<Longrightarrow>
    crc_quad_loop n crc p = (crc_update crc (take (8 * n) p), drop (8 * n) p)"
proof (induction n arbitrary: crc p)
  case (Suc n)
  then show ?case
    by (simp add: crc_quad_step_update take_add add.commute [of _ 8] flip: crc_update_append)
qed (simp add: crc_update_def)

lemma crc32c_sb8_64_bit_eq:
  assumes "length p < 2 ^ 32" "unat init \<le> length p"
  shows "crc32c_sb8_64_bit c p (of_nat (length p)) init = crc_update c p"
proof -
  define i m where "i = unat init" and "m = length p - i"
  let ?d = "(of_nat (length p) :: u32) - init"
  have d: "unat ?d = m"
    using assms by (simp add: m_def i_def unat_sub word_le_nat_alt)
  have q: "unat (?d div 8) = m div 8" by (simp add: unat_div_distrib d)
  have "m div 8 * 8 < 2 ^ 32" using assms(1) by (simp add: m_def)
  then have r: "unat (?d div 8 * 8) = m div 8 * 8"
    by (subst unat_mult_lem [THEN iffD1]) (simp_all add: q)
  have q': "unat ((?d div 8 * 8) div 8) = m div 8" by (simp add: unat_div_distrib r)
  have e: "unat (?d - ?d div 8 * 8) = m mod 8"
    using r d by (subst unat_sub) (simp_all add: word_le_nat_alt minus_div_mult_eq_mod)
  have "crc32c_sb8_64_bit c p (of_nat (length p)) init =
      crc_update c (take i p @ take (8 * (m div 8)) (drop i p) @
        take (m mod 8) (drop (8 * (m div 8)) (drop i p)))"
    using assms(2) unfolding crc32c_sb8_64_bit_def Let_def q' e i_def [symmetric]
    by (simp add: crc_byte_loop_update crc_quad_loop_update m_def crc_update_append
        flip: minus_div_mult_eq_mod [of "length p - i" 8])
  also have "take (8 * (m div 8)) (drop i p) @ take (m mod 8) (drop (8 * (m div 8)) (drop i p)) = drop i p"
    unfolding take_add [symmetric] by (simp add: m_def)
  finally show ?thesis by simp
qed

lemma Extend_at_eq_ref: "length data < 2 ^ 32 \<Longrightarrow> Extend_at x c data = crc32c_ref c data"
  by (simp add: Extend_at_def crc32_software_def Let_def crc32c_ref_def crc32c_sb8_64_bit_eq)

lemma crc32c_ref_append: "crc32c_ref (crc32c_ref c xs) ys = crc32c_ref c (xs @ ys)"
  by (simp add: crc32c_ref_def crc_update_append xor.assoc)


text \<open>
  The interface: extending a checksum by one piece after another gives the checksum of
  the pieces joined, and the mask is undone by \<^verbatim>\<open>Unmask\<close>.
\<close>

locale checksum =
  fixes extend :: "u32 \<Rightarrow> slice \<Rightarrow> u32"
    and msk unmsk :: "u32 \<Rightarrow> u32"
  assumes extend_append:
      "length xs + length ys < 2 ^ 32 \<Longrightarrow> extend (extend c xs) ys = extend c (xs @ ys)"
    and unmsk_msk: "unmsk (msk c) = c"
begin

lemma stored_checksum_matches:
  "length xs + length ys < 2 ^ 32 \<Longrightarrow> unmsk (msk (extend (extend c xs) ys)) = extend c (xs @ ys)"
  by (simp add: extend_append unmsk_msk)

lemma msk_inj: "msk a = msk b \<Longrightarrow> a = b"
  by (metis unmsk_msk)

end

interpretation crc: checksum Extend Mask Unmask
  by unfold_locales (simp_all add: Extend_def Extend_at_eq_ref crc32c_ref_append)

section \<open>Correctness of the checksum\<close>

text \<open>C20. The checksum of a buffer below 4 GB is the bitwise CRC-32C of its bytes, at whatever
  address the buffer starts; computing it in two pieces at any two addresses gives the same value;
  and what is stored masked is read back.\<close>

theorem crc32c_correct:
  assumes "length xs + length ys < 2 ^ 32"
  shows "Value_at x (xs @ ys) = crc32c_ref 0 (xs @ ys) \<and>
    Extend_at z (Value_at y xs) ys = Value_at x (xs @ ys) \<and>
    Unmask (Mask (Value_at x (xs @ ys))) = Value_at x (xs @ ys)"
  using assms by (simp add: Value_at_def Extend_at_eq_ref crc32c_ref_append)

theorem crc32c_correct_witness:
  "Value_at 3 (str ''12345'' @ str ''6789'') = 0xE3069283 \<and>
   Extend_at 5 (Value_at 6 (str ''12345'')) (str ''6789'') = 0xE3069283"
proof -
  have "crc32c_ref 0 (str ''12345'' @ str ''6789'') = 0xE3069283"
    by (simp add: crc32c_ref_def crc_update_Nil crc_update_Cons crc_bits_8 crc_bit_def str_def)
  then show ?thesis
    using crc32c_correct [of "str ''12345''" "str ''6789''" 3 5 6] by simp
qed

end
