(* ===== verification/Log_Writer.thy ===== *)
theory Log_Writer
  imports Crc32c
begin

text \<open>
  The write-ahead log: the format constants of \<^verbatim>\<open>db/log_format.h\<close> and the writer of
  \<^verbatim>\<open>db/log_writer.cc\<close>. Offsets are \<open>uint64_t\<close> words with the code's own masks;
  lengths of slices are naturals. The destination file is an argument \<open>write_at\<close>, which
  returns whether the write succeeded and the file afterwards.
\<close>

section \<open>Format\<close>

datatype RecordType = kZeroType | kFullType | kFirstType | kMiddleType | kLastType

fun RecordType_code :: "RecordType \<Rightarrow> byte" where
  "RecordType_code kZeroType = 0"
| "RecordType_code kFullType = 1"
| "RecordType_code kFirstType = 2"
| "RecordType_code kMiddleType = 3"
| "RecordType_code kLastType = 4"

definition kBlockSize :: u32 where
  "kBlockSize = 32768"

definition kHeaderSize :: u32 where
  "kHeaderSize = 4 + 1 + 2"

text \<open>The masks the code writes as \<^verbatim>\<open>kBlockSize - 1\<close> and \<^verbatim>\<open>~(kBlockSize - 1)\<close>:
  32-bit \<^verbatim>\<open>unsigned\<close> values, converted to 64 bits by zero extension.\<close>

definition block_mask :: u64 where
  "block_mask = ucast (kBlockSize - 1)"

definition block_mask_not :: u64 where
  "block_mask_not = ucast (NOT (kBlockSize - 1))"

section \<open>The writer\<close>

text \<open>\<^verbatim>\<open>type_crc_\<close>: the checksum of each record type's byte, from the constructor.\<close>

definition type_crc :: "RecordType \<Rightarrow> u32" where
  "type_crc t = Value [RecordType_code t]"

definition ComputeRecordSize :: "u64 \<Rightarrow> u64 \<Rightarrow> u64" where
  "ComputeRecordSize start remain =
     (let per_block = ucast (kBlockSize - kHeaderSize);
          whole_blocks = remain div per_block;
          leftover = remain mod per_block
      in start + whole_blocks * ucast kBlockSize + ucast kHeaderSize + leftover)"

text \<open>The body of the reservation loop: where a record of \<open>sz\<close> bytes that starts at
  \<open>start_offset\<close> is taken to end.\<close>

definition reserve_end :: "u64 \<Rightarrow> u64 \<Rightarrow> u64" where
  "reserve_end start_offset sz =
     (let roundup_start =
            (if ucast kBlockSize - (start_offset AND block_mask) < ucast kHeaderSize
             then (start_offset + ucast kHeaderSize) AND block_mask_not
             else start_offset);
          left = ucast kBlockSize - (roundup_start AND block_mask)
      in if ucast kHeaderSize + sz \<le> left
         then roundup_start + ucast kHeaderSize + sz
         else ComputeRecordSize (roundup_start + left) (sz + ucast kHeaderSize - left))"

definition record_header :: "RecordType \<Rightarrow> slice \<Rightarrow> slice" where
  "record_header t fragment =
     (let n = of_nat (length fragment) :: u64;
          crc = Mask (Extend (type_crc t) fragment)
      in EncodeFixed32 crc @ [ucast (n AND 255), ucast (drop_bit 8 n), RecordType_code t])"

definition EmitPhysicalRecordAt ::
  "('f \<Rightarrow> u64 \<Rightarrow> slice \<Rightarrow> bool \<times> 'f) \<Rightarrow> 'f \<Rightarrow> RecordType \<Rightarrow> slice \<Rightarrow> u64 \<Rightarrow> bool \<times> 'f"
where
  "EmitPhysicalRecordAt write_at dest t fragment offset =
     (case write_at dest offset (record_header t fragment) of
        (ok, dest) \<Rightarrow>
          if ok then write_at dest (offset + ucast kHeaderSize) fragment else (ok, dest))"

definition fragment_type :: "bool \<Rightarrow> bool \<Rightarrow> RecordType" where
  "fragment_type is_begin is_end =
     (if is_begin \<and> is_end then kFullType
      else if is_begin then kFirstType
      else if is_end then kLastType
      else kMiddleType)"

definition block_left :: "u64 \<Rightarrow> nat" where
  "block_left offset = unat (ucast kBlockSize - (offset AND block_mask))"

text \<open>The bytes of a block that are left for payload at the place of the next header.\<close>

definition log_avail :: "u64 \<Rightarrow> nat" where
  "log_avail offset =
     (if block_left offset < unat kHeaderSize then unat kBlockSize - unat kHeaderSize
      else block_left offset - unat kHeaderSize)"

text \<open>The writer never leaves fewer than \<^verbatim>\<open>kHeaderSize\<close> bytes of a block: it fills
  them with zeros and moves to the next block.\<close>

definition skip_trailer ::
  "('f \<Rightarrow> u64 \<Rightarrow> slice \<Rightarrow> bool \<times> 'f) \<Rightarrow> 'f \<Rightarrow> u64 \<Rightarrow> 'f \<times> u64"
where
  "skip_trailer write_at dest offset =
     (let leftover = block_left offset
      in if leftover < unat kHeaderSize
         then (snd (write_at dest offset (replicate leftover 0)), offset + of_nat leftover)
         else (dest, offset))"

section \<open>Offsets and blocks\<close>

lemma log_consts [simp]: "unat kBlockSize = 32768" "unat kHeaderSize = 7"
  "ucast kBlockSize = (32768 :: u64)" "ucast kHeaderSize = (7 :: u64)"
  "(ucast (kBlockSize - kHeaderSize) :: u64) = 32761"
  "block_mask = 32767" "block_mask_not = 0xFFFF8000"
  by (simp_all add: kBlockSize_def kHeaderSize_def block_mask_def block_mask_not_def)

lemma unat_and_block_mask: "unat (w AND 32767) = unat w mod 32768" for w :: u64
proof -
  have "w AND 32767 = take_bit 15 w" by (simp add: take_bit_eq_mask mask_eq_exp_minus_1)
  then show ?thesis by (simp only: unsigned_take_bit_eq) (simp add: take_bit_eq_mod)
qed

lemma block_left_eq: "block_left offset = 32768 - unat offset mod 32768"
proof -
  have "offset AND 32767 \<le> 32768"
    by (simp add: word_le_nat_alt unat_and_block_mask)
  then show ?thesis
    by (simp add: block_left_def unat_sub unat_and_block_mask)
qed

lemma unat_add_of_nat_mod: "unat (w + of_nat k) mod 32768 = (unat w + k) mod 32768" for w :: u64
proof -
  have "unat (w + of_nat k) mod 32768 = ((unat w + k) mod 2 ^ 64) mod 32768"
    by (simp add: unat_word_ariths unat_of_nat take_bit_eq_mod mod_simps)
  also have "\<dots> = (unat w + k) mod 32768"
    by (rule mod_mod_cancel) simp
  finally show ?thesis .
qed

lemma block_left_add: "block_left (offset + of_nat k) = 32768 - (unat offset + k) mod 32768"
  by (simp add: block_left_eq unat_add_of_nat_mod)

lemma log_avail_eq: "log_avail offset =
    (if 32761 < unat offset mod 32768 then 32761 else 32761 - unat offset mod 32768)"
  using mod_less_divisor [of 32768 "unat offset"] unfolding log_avail_def block_left_eq
  by (simp del: mod_less_divisor)

text \<open>Two iterations in a row cannot both make no progress: a fragment is empty only at the
  last seven bytes of a block, and the next one starts a block.\<close>

lemma log_avail_progress:
  assumes "log_avail offset = 0"
  shows "skip_trailer write_at dest offset = (dest, offset)" "0 < log_avail (offset + 7)"
proof -
  have m: "unat offset mod 32768 = 32761"
    using assms mod_less_divisor [of 32768 "unat offset"] by (simp add: log_avail_eq split: if_splits)
  then show "skip_trailer write_at dest offset = (dest, offset)"
    by (simp add: skip_trailer_def block_left_eq)
  have "unat (offset + 7) mod 32768 = 0"
    using unat_add_of_nat_mod [of offset 7] m by (simp add: mod_add_eq [symmetric] mod_Suc)
  then show "0 < log_avail (offset + 7)"
    by (simp add: log_avail_eq)
qed

section \<open>AddRecord\<close>

lemma AddRecord_measure:
  assumes skip: "(dest', offset') = skip_trailer write_at dest offset"
    and fl: "fl = (if length ptr < log_avail offset then length ptr else log_avail offset)"
    and ne: "drop fl ptr \<noteq> []"
  shows "2 * length (drop fl ptr) + (if log_avail (offset' + (ucast kHeaderSize + of_nat fl)) = 0 then 1 else 0)
       < 2 * length ptr + (if log_avail offset = 0 then 1 else (0::nat))"
proof (cases "log_avail offset = 0")
  case True
  then have "offset' = offset" "fl = 0"
    using skip fl by (simp_all add: log_avail_progress)
  then show ?thesis using log_avail_progress(2) [OF True] True by simp
next
  case False
  then have "0 < fl" using ne fl by (auto split: if_splits)
  then show ?thesis using ne by (auto simp: less_Suc_eq_le)
qed

function AddRecord_loop ::
  "('f \<Rightarrow> u64 \<Rightarrow> slice \<Rightarrow> bool \<times> 'f) \<Rightarrow> 'f \<Rightarrow> u64 \<Rightarrow> slice \<Rightarrow> bool \<Rightarrow> bool \<times> 'f"
where
  "AddRecord_loop write_at dest offset ptr is_begin =
     (let left = length ptr;
          avail = log_avail offset;
          (dest, offset) = skip_trailer write_at dest offset;
          fragment_length = (if left < avail then left else avail);
          is_end = (left = fragment_length);
          t = fragment_type is_begin is_end;
          (ok, dest) = EmitPhysicalRecordAt write_at dest t (take fragment_length ptr) offset;
          offset = offset + (ucast kHeaderSize + of_nat fragment_length);
          ptr = drop fragment_length ptr
      in if ok \<and> ptr \<noteq> [] then AddRecord_loop write_at dest offset ptr False
         else (ok, dest))"
  by pat_completeness auto
termination
proof (relation "measure (\<lambda>(write_at, dest, offset, ptr, is_begin).
    2 * length ptr + (if log_avail offset = 0 then 1 else 0))", goal_cases)
  case (2 write_at dest offset ptr is_begin)
  from 2 show ?case
    by (simp only: in_measure split_conv) (rule AddRecord_measure, assumption, simp_all)
qed simp

declare AddRecord_loop.simps [simp del]

record 'f log_writer =
  lw_offset :: u64
  lw_dest :: 'f

definition new_Writer :: "'f \<Rightarrow> 'f log_writer" where
  "new_Writer dest = \<lparr>lw_offset = 0, lw_dest = dest\<rparr>"

text \<open>A call with no other thread inside it: the compare-and-swap succeeds at once.\<close>

definition AddRecord ::
  "('f \<Rightarrow> u64 \<Rightarrow> slice \<Rightarrow> bool \<times> 'f) \<Rightarrow> 'f log_writer \<Rightarrow> slice \<Rightarrow> bool \<times> 'f log_writer"
where
  "AddRecord write_at w payload =
     (let start_offset = lw_offset w;
          end_offset = reserve_end start_offset (of_nat (length payload));
          (ok, dest) = AddRecord_loop write_at (lw_dest w) start_offset payload True
      in (ok, w\<lparr>lw_offset := end_offset, lw_dest := dest\<rparr>))"

fun AddRecords ::
  "('f \<Rightarrow> u64 \<Rightarrow> slice \<Rightarrow> bool \<times> 'f) \<Rightarrow> 'f log_writer \<Rightarrow> slice list \<Rightarrow> bool \<times> 'f log_writer"
where
  "AddRecords write_at w [] = (True, w)"
| "AddRecords write_at w (r # rs) =
     (case AddRecord write_at w r of
        (ok, w) \<Rightarrow> if ok then AddRecords write_at w rs else (ok, w))"

text \<open>The file the log is written to, as its bytes: a write past the end leaves zeros in
  between, as the mapped file does.\<close>

definition flat_WriteAt :: "slice \<Rightarrow> u64 \<Rightarrow> slice \<Rightarrow> bool \<times> slice" where
  "flat_WriteAt f offset data =
     (True, take (unat offset) (f @ replicate (unat offset - length f) 0) @ data @
            drop (unat offset + length data) f)"

section \<open>The bytes of a record\<close>

text \<open>The layout the writer is to produce, on natural offsets.\<close>

definition trailer_len :: "nat \<Rightarrow> nat" where
  "trailer_len p = (if 32768 - p mod 32768 < 7 then 32768 - p mod 32768 else 0)"

definition log_room :: "nat \<Rightarrow> nat" where
  "log_room p = (if 32768 - p mod 32768 < 7 then 32761 else 32761 - p mod 32768)"

lemma log_room_progress: "log_room p = 0 \<Longrightarrow> trailer_len p = 0 \<and> log_room (p + 7) = 32761"
proof -
  assume "log_room p = 0"
  then have m: "p mod 32768 = 32761"
    using mod_less_divisor [of 32768 p] by (simp add: log_room_def split: if_splits)
  then have "(p + 7) mod 32768 = 0"
    using mod_add_left_eq [of p 32768 7] by simp
  with m show ?thesis by (simp add: log_room_def trailer_len_def)
qed

function record_bytes :: "nat \<Rightarrow> slice \<Rightarrow> bool \<Rightarrow> slice" where
  "record_bytes p ptr b =
     replicate (trailer_len p) 0 @
     record_header (fragment_type b (length ptr \<le> log_room p)) (take (log_room p) ptr) @
     take (log_room p) ptr @
     (if length ptr \<le> log_room p then []
      else record_bytes (p + trailer_len p + 7 + log_room p) (drop (log_room p) ptr) False)"
  by pat_completeness auto
termination
proof (relation "measure (\<lambda>(p, ptr, b). 2 * length ptr + (if log_room p = 0 then 1 else 0))", goal_cases)
  case (2 p ptr b)
  then show ?case
    by (cases "log_room p = 0") (auto simp: log_room_progress)
qed simp

declare record_bytes.simps [simp del]

lemma length_record_header [simp]: "length (record_header t x) = 7"
  by (simp add: record_header_def Let_def)

lemma log_avail_room: "log_avail offset = log_room (unat offset)"
  by (auto simp: log_avail_eq log_room_def)

lemma flat_WriteAt_append:
  "length f \<le> unat offset \<Longrightarrow>
   flat_WriteAt f offset data = (True, f @ replicate (unat offset - length f) 0 @ data)"
  by (simp add: flat_WriteAt_def)

lemma skip_trailer_flat:
  assumes "length f \<le> unat offset" "unat offset + 7 < 2 ^ 64"
  shows "skip_trailer flat_WriteAt f offset =
    (if trailer_len (unat offset) = 0 then (f, offset)
     else (f @ replicate (unat offset - length f) 0 @ replicate (trailer_len (unat offset)) 0,
           offset + of_nat (trailer_len (unat offset))))"
  using assms
  by (auto simp: skip_trailer_def block_left_eq trailer_len_def flat_WriteAt_append Let_def)

lemma EmitPhysicalRecordAt_flat:
  assumes "length f \<le> unat offset" "unat offset + 7 < 2 ^ 64"
  shows "EmitPhysicalRecordAt flat_WriteAt f t x offset =
    (True, f @ replicate (unat offset - length f) 0 @ record_header t x @ x)"
  using assms unat_add_nat [of offset 7]
  by (simp add: EmitPhysicalRecordAt_def flat_WriteAt_append)

lemma AddRecord_loop_flat:
  "\<lbrakk>unat offset = p; length f \<le> p; p + length (record_bytes p ptr b) < 2 ^ 64\<rbrakk> \<Longrightarrow>
   AddRecord_loop flat_WriteAt f offset ptr b =
     (True, f @ replicate (p - length f) 0 @ record_bytes p ptr b)"
proof (induction p ptr b arbitrary: f offset rule: record_bytes.induct)
  case (1 p ptr b)
  let ?pad = "trailer_len p" and ?room = "log_room p"
  let ?t = "fragment_type b (length ptr \<le> ?room)"
  let ?f1 = "if ?pad = 0 then f else f @ replicate (p - length f) 0 @ replicate ?pad 0"
  let ?o1 = "offset + of_nat ?pad"
  let ?fl = "if length ptr < ?room then length ptr else ?room"
  have len: "p + ?pad + 7 + length (take ?room ptr) < 2 ^ 64"
    using "1.prems"(3) by (simp add: record_bytes.simps [of p])
  have o1: "unat ?o1 = p + ?pad"
    using unat_add_nat [of offset ?pad] "1.prems"(1) len by simp
  have skip: "skip_trailer flat_WriteAt f offset = (?f1, ?o1)"
    using skip_trailer_flat [of f offset] "1.prems" len by simp
  have fl: "take ?fl ptr = take ?room ptr" "drop ?fl ptr = drop ?room ptr"
    "(length ptr = ?fl) = (length ptr \<le> ?room)" by auto
  have emit: "EmitPhysicalRecordAt flat_WriteAt ?f1 ?t (take ?room ptr) ?o1 =
      (True, f @ replicate (p - length f) 0 @ replicate ?pad 0 @ record_header ?t (take ?room ptr) @ take ?room ptr)"
    using EmitPhysicalRecordAt_flat [of ?f1 ?o1 ?t "take ?room ptr"] "1.prems"(2) o1 len by auto
  show ?case
  proof (cases "length ptr \<le> ?room")
    case True
    then show ?thesis
      using emit skip fl "1.prems"(1)
      by (subst AddRecord_loop.simps, subst record_bytes.simps) (simp add: log_avail_room Let_def)
  next
    case False
    let ?g = "f @ replicate (p - length f) 0 @ replicate ?pad 0 @ record_header ?t (take ?room ptr) @ take ?room ptr"
    have o2: "unat (?o1 + (7 + of_nat ?room)) = p + ?pad + 7 + ?room"
      using unat_add_nat [of ?o1 "7 + ?room"] o1 len False by (simp add: min_def)
    have "AddRecord_loop flat_WriteAt ?g (?o1 + (7 + of_nat ?room)) (drop ?room ptr) False =
        (True, ?g @ record_bytes (p + ?pad + 7 + ?room) (drop ?room ptr) False)"
      using "1.IH" [OF False o2, of ?g] "1.prems"(2,3) False
      by (simp add: record_bytes.simps [of p] min_def)
    then show ?thesis
      using emit skip fl "1.prems"(1) False
      by (subst AddRecord_loop.simps, subst record_bytes.simps) (simp add: log_avail_room Let_def not_le)
  qed
qed

section \<open>What is reserved against what is written\<close>

text \<open>A record that spills over its block and whose rest fills whole blocks exactly: the
  reservation counts one header more than is written.\<close>

definition log_hole :: "nat \<Rightarrow> nat \<Rightarrow> bool" where
  "log_hole p n \<longleftrightarrow> log_room p < n \<and> (n - log_room p) mod 32761 = 0"

lemma next_block: "(p + trailer_len p + 7 + log_room p) mod 32768 = 0"
proof -
  have "p mod 32768 < 32768" by simp
  then have "p mod 32768 + (trailer_len p + 7 + log_room p) = 32768 \<or>
      p mod 32768 + (trailer_len p + 7 + log_room p) = 2 * 32768"
    by (auto simp: trailer_len_def log_room_def)
  then have "(p mod 32768 + (trailer_len p + 7 + log_room p)) mod 32768 = 0"
    by (elim disjE) (simp_all only: mod_self mod_mult_self1_is_0 mod_mult_self2_is_0)
  then show ?thesis by (simp only: mod_add_left_eq add.assoc)
qed

lemma aligned_room: "p mod 32768 = 0 \<Longrightarrow> trailer_len p = 0 \<and> log_room p = 32761"
  by (simp add: trailer_len_def log_room_def)

lemma length_record_bytes_aligned:
  "p mod 32768 = 0 \<Longrightarrow> ptr \<noteq> [] \<Longrightarrow>
   length (record_bytes p ptr b) = 7 * ((length ptr - 1) div 32761 + 1) + length ptr"
proof (induction p ptr b rule: record_bytes.induct)
  case (1 p ptr b)
  show ?case
  proof (cases "length ptr \<le> 32761")
    case True
    then show ?thesis
      using aligned_room [OF "1.prems"(1)] "1.prems"(2)
      by (subst record_bytes.simps) (simp add: min_def div_eq_0_iff Suc_leI less_Suc_eq_le)
  next
    case False
    let ?m = "length ptr - 32761"
    have "length (record_bytes (p + 0 + 7 + 32761) (drop 32761 ptr) False) =
        7 * ((?m - 1) div 32761 + 1) + ?m"
      using "1.IH" aligned_room [OF "1.prems"(1)] next_block [of p] False by simp
    moreover have "(length ptr - 1) div 32761 = (?m - 1) div 32761 + 1"
      using False div_add_self2 [of 32761 "?m - 1"] by simp
    ultimately show ?thesis
      using aligned_room [OF "1.prems"(1)] False
      by (subst record_bytes.simps) (simp add: min_def)
  qed
qed

lemma length_record_bytes:
  "length (record_bytes p ptr b) = trailer_len p + 7 +
    (if length ptr \<le> log_room p then length ptr
     else log_room p + 7 * ((length ptr - log_room p - 1) div 32761 + 1) + (length ptr - log_room p))"
  using length_record_bytes_aligned [OF next_block, of "drop (log_room p) ptr" p False]
  by (subst record_bytes.simps) (simp add: min_def)

lemma and_block_mask_not: "unat w < 2 ^ 32 \<Longrightarrow> unat (w AND 0xFFFF8000) = unat w div 32768 * 32768" for w :: u64
proof -
  assume w: "unat w < 2 ^ 32"
  have m: "(0xFFFF8000 :: u64) = push_bit 15 (mask 17)"
    by (simp add: mask_eq_exp_minus_1)
  have "w AND 0xFFFF8000 = push_bit 15 (drop_bit 15 w)"
    unfolding m by (intro bit_word_eqI) (auto simp: bit_simps dest: bit_imp_less_exp [OF w])
  moreover have "unat (drop_bit 15 w) = unat w div 32768"
    by (simp only: unat_drop_bit_eq) (simp add: drop_bit_eq_div)
  moreover have "unat w div 32768 * 32768 < 2 ^ 64"
    using w by (auto intro: le_less_trans [OF div_times_less_eq_dividend])
  ultimately show ?thesis
    by (simp only: push_bit_eq_mult) (subst unat_mult_lem [THEN iffD1], simp_all)
qed

lemma trailer_end: "32768 - p mod 32768 < 7 \<Longrightarrow> (p + 7) div 32768 * 32768 = p + trailer_len p"
proof -
  assume a: "32768 - p mod 32768 < 7"
  define q r where "q = p div 32768" and "r = p mod 32768"
  have p: "p = 32768 * q + r" and r: "32761 < r" "r < 32768"
    using a by (simp_all add: q_def r_def)
  have "(p + 7) div 32768 = q + 1"
    using r unfolding p by (intro div_nat_eqI) simp_all
  then show ?thesis using r a p by (simp add: trailer_len_def r_def [symmetric])
qed

lemma trailer_room: "32768 - (p + trailer_len p) mod 32768 = log_room p + 7"
proof -
  have r: "p mod 32768 < 32768" by simp
  show ?thesis
  proof (cases "32768 - p mod 32768 < 7")
    case True
    then have "(p + trailer_len p) mod 32768 = 0" using trailer_end [OF True]
      by (metis mod_mult_self2_is_0)
    with True show ?thesis by (simp add: log_room_def)
  qed (use r in \<open>simp add: trailer_len_def log_room_def\<close>)
qed

lemma reserve_roundup:
  assumes "unat w = p" "p + 7 < 2 ^ 32"
  shows "unat (if ucast kBlockSize - (w AND block_mask) < ucast kHeaderSize
      then (w + ucast kHeaderSize) AND block_mask_not else w) = p + trailer_len p"
proof -
  have cond: "ucast kBlockSize - (w AND block_mask) < ucast kHeaderSize \<longleftrightarrow> 32768 - p mod 32768 < 7"
    using block_left_eq [of w] assms(1) by (simp add: block_left_def word_less_nat_alt)
  have w7: "unat (w + 7) = p + 7" using unat_add_nat [of w 7] assms by simp
  then have "unat ((w + 7) AND 0xFFFF8000) = p + trailer_len p" if "32768 - p mod 32768 < 7"
    using and_block_mask_not [of "w + 7"] assms(2) trailer_end [OF that] by simp
  then show ?thesis
    unfolding cond using assms(1) by (simp add: trailer_len_def)
qed

lemma unat_ComputeRecordSize:
  assumes "unat start + 2 * unat remain + 32768 < 2 ^ 64"
  shows "unat (ComputeRecordSize start remain) =
    unat start + unat remain div 32761 * 32768 + 7 + unat remain mod 32761"
proof -
  let ?n = "unat start + unat remain div 32761 * 32768 + 7 + unat remain mod 32761"
  have "ComputeRecordSize start remain = of_nat ?n"
    by (simp add: ComputeRecordSize_def Let_def word_arith_nat_div word_arith_nat_mod)
  moreover have "unat remain div 32761 * 32768 \<le> 2 * unat remain"
    using div_times_less_eq_dividend [of "unat remain" 32761] by linarith
  then have "?n < 2 ^ 64" using assms mod_less_divisor [of 32761 "unat remain"] by linarith
  ultimately show ?thesis by (simp only: unat_of_nat_u64)
qed

lemma spill_size:
  assumes "0 < m"
  shows "m div 32761 * 32768 + 7 + m mod 32761 =
    7 * ((m - 1) div 32761 + 1) + m + (if m mod 32761 = 0 then 7 else (0 :: nat))"
proof -
  define q r where "q = m div 32761" and "r = m mod 32761"
  have m: "m = 32761 * q + r" and r: "r < 32761" by (simp_all add: q_def r_def)
  have "(m - 1) div 32761 = (if r = 0 then q - 1 else q)"
    using assms r unfolding m by (auto intro!: div_nat_eqI)
  moreover have "r = 0 \<Longrightarrow> 0 < q" using assms m by (cases q) auto
  ultimately show ?thesis using m unfolding q_def [symmetric] r_def [symmetric] by auto
qed

lemma reserve_end_eq:
  assumes p: "unat w = p" and lim: "p + length (record_bytes p ptr b) + 7 < 2 ^ 32"
  shows "unat (reserve_end w (of_nat (length ptr))) =
    p + length (record_bytes p ptr b) + (if log_hole p (length ptr) then 7 else 0)"
proof -
  let ?sz = "of_nat (length ptr) :: u64" and ?n = "length ptr" and ?m = "length ptr - log_room p"
  define R where "R = (if ucast kBlockSize - (w AND block_mask) < ucast kHeaderSize
      then (w + ucast kHeaderSize) AND block_mask_not else w)"
  define left where "left = ucast kBlockSize - (R AND block_mask)"
  have len: "?n + trailer_len p + 7 \<le> length (record_bytes p ptr b)"
    by (simp add: length_record_bytes)
  have R: "unat R = p + trailer_len p" unfolding R_def by (rule reserve_roundup) (use p lim len in auto)
  have left: "unat left = log_room p + 7"
    using block_left_eq [of R] by (simp only: block_left_def left_def R trailer_room)
  have room: "log_room p \<le> 32761" by (simp add: log_room_def)
  have sz: "unat ?sz = ?n" using lim len by (simp add: unat_of_nat take_bit_eq_mod)
  have s7: "unat (?sz + 7) = ?n + 7" using unat_add_nat [of ?sz 7] sz lim len by simp
  have eq: "reserve_end w ?sz = (if 7 + ?sz \<le> left then R + 7 + ?sz else ComputeRecordSize (R + left) (?sz + 7 - left))"
    by (simp only: reserve_end_def R_def left_def Let_def log_consts)
  have cond: "7 + ?sz \<le> left \<longleftrightarrow> ?n \<le> log_room p"
    by (simp add: word_le_nat_alt left s7 add.commute [of 7])
  show ?thesis
  proof (cases "?n \<le> log_room p")
    case True
    have "unat (R + 7 + ?sz) = p + trailer_len p + 7 + ?n"
      using unat_add_nat [of R "7 + ?n"] R lim len by (simp add: add.assoc)
    then show ?thesis using True cond by (simp add: eq length_record_bytes log_hole_def)
  next
    case False
    have R': "unat (R + left) = p + trailer_len p + 7 + log_room p"
      using R left lim len room by (subst unat_add_lem [THEN iffD1]) simp_all
    have S: "unat (?sz + 7 - left) = ?m"
      using False s7 left by (subst unat_sub) (simp_all add: word_le_nat_alt)
    have "unat (ComputeRecordSize (R + left) (?sz + 7 - left)) =
        p + trailer_len p + 7 + log_room p + (?m div 32761 * 32768 + 7 + ?m mod 32761)"
      using unat_ComputeRecordSize [of "R + left" "?sz + 7 - left"] R' S lim len room by simp
    then show ?thesis
      using False cond spill_size [of ?m] by (simp add: eq length_record_bytes log_hole_def)
  qed
qed

section \<open>The log a sequence of records leaves\<close>

definition reserved_bytes :: "nat \<Rightarrow> slice \<Rightarrow> slice" where
  "reserved_bytes p r = record_bytes p r True @ (if log_hole p (length r) then replicate 7 0 else [])"

fun log_bytes :: "nat \<Rightarrow> slice list \<Rightarrow> slice" where
  "log_bytes p [] = []"
| "log_bytes p (r # rs) = reserved_bytes p r @ log_bytes (p + length (reserved_bytes p r)) rs"

fun no_holes :: "nat \<Rightarrow> slice list \<Rightarrow> bool" where
  "no_holes p [] = True"
| "no_holes p (r # rs) \<longleftrightarrow>
     \<not> log_hole p (length r) \<and> no_holes (p + length (reserved_bytes p r)) rs"

lemma log_bytes_append:
  "log_bytes p (xs @ ys) = log_bytes p xs @ log_bytes (p + length (log_bytes p xs)) ys"
  by (induction xs arbitrary: p) (simp_all add: add.assoc)

definition padded :: "slice \<Rightarrow> nat \<Rightarrow> slice" where
  "padded f p = f @ replicate (p - length f) 0"

lemma AddRecord_flat:
  assumes "unat (lw_offset w) = p" "length (lw_dest w) \<le> p"
    and lim: "p + length (record_bytes p r True) + 7 < 2 ^ 32"
  shows "AddRecord flat_WriteAt w r =
    (True, \<lparr>lw_offset = of_nat (p + length (reserved_bytes p r)),
            lw_dest = padded (lw_dest w) p @ record_bytes p r True\<rparr>)"
proof -
  have "reserve_end (lw_offset w) (of_nat (length r)) = of_nat (p + length (reserved_bytes p r))"
    using reserve_end_eq [OF assms(1) lim] lim
    by (simp add: word_unat_eq_iff reserved_bytes_def unat_of_nat_u64 del: of_nat_add)
  then show ?thesis
    using AddRecord_loop_flat [OF assms(1,2), of r True] lim
    by (simp add: AddRecord_def padded_def Let_def del: of_nat_add)
qed

lemma AddRecords_flat:
  assumes "unat (lw_offset w) = p" "length (lw_dest w) \<le> p" "p + length (log_bytes p rs) + 7 < 2 ^ 32"
  shows "\<exists>f. AddRecords flat_WriteAt w rs = (True, \<lparr>lw_offset = of_nat (p + length (log_bytes p rs)), lw_dest = f\<rparr>) \<and>
    padded f (p + length (log_bytes p rs)) = padded (lw_dest w) p @ log_bytes p rs"
  using assms
proof (induction rs arbitrary: w p)
  case Nil
  then show ?case by (cases w) (auto simp: word_unat_eq_iff unat_of_nat_u64)
next
  case (Cons r rs)
  let ?q = "p + length (reserved_bytes p r)"
  let ?w = "\<lparr>lw_offset = of_nat ?q, lw_dest = padded (lw_dest w) p @ record_bytes p r True\<rparr> :: slice log_writer"
  have add: "AddRecord flat_WriteAt w r = (True, ?w)"
    using Cons.prems by (intro AddRecord_flat) (auto simp: reserved_bytes_def)
  have q: "unat (lw_offset ?w) = ?q" "length (lw_dest ?w) \<le> ?q"
    "padded (lw_dest ?w) ?q = padded (lw_dest w) p @ reserved_bytes p r"
    using Cons.prems by (auto simp: unat_of_nat_u64 padded_def reserved_bytes_def simp del: of_nat_add)
  then obtain f where "AddRecords flat_WriteAt ?w rs =
      (True, \<lparr>lw_offset = of_nat (?q + length (log_bytes ?q rs)), lw_dest = f\<rparr>)"
    "padded f (?q + length (log_bytes ?q rs)) = padded (lw_dest ?w) ?q @ log_bytes ?q rs"
    using Cons.IH [OF q(1,2)] Cons.prems(3) by auto
  then show ?case using add q(3) by (auto simp: add.assoc)
qed

lemma AddRecords_flat_no_holes:
  assumes "unat (lw_offset w) = p" "length (lw_dest w) = p" "no_holes p rs"
    "p + length (log_bytes p rs) + 7 < 2 ^ 32"
  shows "AddRecords flat_WriteAt w rs =
    (True, \<lparr>lw_offset = of_nat (p + length (log_bytes p rs)), lw_dest = lw_dest w @ log_bytes p rs\<rparr>)"
  using assms
proof (induction rs arbitrary: w p)
  case Nil
  then show ?case by (cases w) (auto simp: word_unat_eq_iff unat_of_nat_u64)
next
  case (Cons r rs)
  let ?q = "p + length (reserved_bytes p r)"
  let ?w = "\<lparr>lw_offset = of_nat ?q, lw_dest = padded (lw_dest w) p @ record_bytes p r True\<rparr> :: slice log_writer"
  have "AddRecord flat_WriteAt w r = (True, ?w)"
    using Cons.prems by (intro AddRecord_flat) (auto simp: reserved_bytes_def)
  moreover have "unat (lw_offset ?w) = ?q" "length (lw_dest ?w) = ?q"
    "lw_dest ?w = lw_dest w @ reserved_bytes p r"
    using Cons.prems by (auto simp: unat_of_nat_u64 padded_def reserved_bytes_def simp del: of_nat_add)
  ultimately show ?case
    using Cons.IH [of ?w ?q] Cons.prems(2-4) by (simp add: add.assoc)
qed

end
