(* ===== verification/Log_Reader.thy ===== *)
theory Log_Reader
  imports Log_Writer Status
begin

text \<open>
  The log reader of \<^verbatim>\<open>db/log_reader.cc\<close>. The file it reads from is a value of a type
  \<open>'f\<close> with the two operations of a \<^verbatim>\<open>SequentialFile\<close> as arguments: \<open>seq_read\<close>
  (at most so many bytes, with a status) and \<open>seq_skip\<close>. What the reporter is told is
  collected in \<open>lr_reports\<close>.
\<close>

section \<open>State\<close>

record 'f log_reader =
  lr_file :: 'f
  lr_reporter :: bool
  lr_checksum :: bool
  lr_buffer :: slice
  lr_eof :: bool
  lr_last_record_offset :: u64
  lr_end_of_buffer_offset :: u64
  lr_initial_offset :: u64
  lr_reports :: "(u64 \<times> Status) list"

definition new_Reader :: "'f \<Rightarrow> bool \<Rightarrow> bool \<Rightarrow> u64 \<Rightarrow> 'f log_reader" where
  "new_Reader f reporter chksum initial_offset =
     \<lparr>lr_file = f, lr_reporter = reporter, lr_checksum = chksum, lr_buffer = [], lr_eof = False,
      lr_last_record_offset = 0, lr_end_of_buffer_offset = 0, lr_initial_offset = initial_offset,
      lr_reports = []\<rparr>"

definition kEof :: u32 where
  "kEof = ucast (RecordType_code kLastType) + 1"

definition kBadRecord :: u32 where
  "kBadRecord = ucast (RecordType_code kLastType) + 2"

section \<open>Reports and skipping\<close>

definition ReportDrop :: "'f log_reader \<Rightarrow> u64 \<Rightarrow> Status \<Rightarrow> 'f log_reader" where
  "ReportDrop r bytes reason =
     (if lr_reporter r \<and>
         lr_initial_offset r \<le> lr_end_of_buffer_offset r - of_nat (length (lr_buffer r)) - bytes
      then r\<lparr>lr_reports := lr_reports r @ [(bytes, reason)]\<rparr>
      else r)"

definition ReportCorruption :: "'f log_reader \<Rightarrow> u64 \<Rightarrow> slice \<Rightarrow> 'f log_reader" where
  "ReportCorruption r bytes reason = ReportDrop r bytes (Corruption reason [])"

definition SkipToInitialBlock ::
  "('f \<Rightarrow> u64 \<Rightarrow> Status \<times> 'f) \<Rightarrow> 'f log_reader \<Rightarrow> bool \<times> 'f log_reader"
where
  "SkipToInitialBlock seq_skip r =
     (let offset_in_block = lr_initial_offset r mod ucast kBlockSize;
          block_start_location = lr_initial_offset r - offset_in_block;
          block_start_location =
            (if ucast (kBlockSize - 6) < offset_in_block
             then block_start_location + ucast kBlockSize else block_start_location);
          r = r\<lparr>lr_end_of_buffer_offset := block_start_location\<rparr>
      in if 0 < block_start_location
         then (case seq_skip (lr_file r) block_start_location of
                 (skip_status, f) \<Rightarrow>
                   let r = r\<lparr>lr_file := f\<rparr>
                   in if status_ok skip_status then (True, r)
                      else (False, ReportDrop r block_start_location skip_status))
         else (True, r))"

section \<open>Physical records\<close>

text \<open>The part of \<^verbatim>\<open>ReadPhysicalRecord\<close> after the refill: the buffer holds a header.
  \<open>header[6]\<close> is a signed \<^verbatim>\<open>char\<close> widened to \<^verbatim>\<open>unsigned int\<close>.\<close>

definition parse_physical_record :: "'f log_reader \<Rightarrow> slice \<Rightarrow> u32 \<times> slice \<times> 'f log_reader" where
  "parse_physical_record r result =
     (let header = lr_buffer r;
          a = ucast (header ! 4) AND 0xff :: u32;
          b = ucast (header ! 5) AND 0xff :: u32;
          t = scast (header ! 6) :: u32;
          len = a OR push_bit 8 b
      in if length (lr_buffer r) < unat (kHeaderSize + len)
         then let drop_size = of_nat (length (lr_buffer r));
                  r = r\<lparr>lr_buffer := []\<rparr>
              in if \<not> lr_eof r
                 then (kBadRecord, result, ReportCorruption r drop_size (str ''bad record length''))
                 else (kEof, result, r)
         else if t = ucast (RecordType_code kZeroType) \<and> len = 0
         then (kBadRecord, result, r\<lparr>lr_buffer := []\<rparr>)
         else if lr_checksum r \<and>
           Value (take (1 + unat len) (drop 6 header)) \<noteq> Unmask (DecodeFixed32 header)
         then let drop_size = of_nat (length (lr_buffer r));
                  r = r\<lparr>lr_buffer := []\<rparr>
              in (kBadRecord, result, ReportCorruption r drop_size (str ''checksum mismatch''))
         else let r = r\<lparr>lr_buffer := drop (unat (kHeaderSize + len)) (lr_buffer r)\<rparr>
              in if lr_end_of_buffer_offset r - of_nat (length (lr_buffer r)) - ucast kHeaderSize - ucast len
                    < lr_initial_offset r
                 then (kBadRecord, [], r)
                 else (t, take (unat len) (drop (unat kHeaderSize) header), r))"

function ReadPhysicalRecord ::
  "('f \<Rightarrow> nat \<Rightarrow> Status \<times> slice \<times> 'f) \<Rightarrow> 'f log_reader \<Rightarrow> slice \<Rightarrow> u32 \<times> slice \<times> 'f log_reader"
where
  "ReadPhysicalRecord seq_read r result =
     (if length (lr_buffer r) < unat kHeaderSize
      then if \<not> lr_eof r
           then (case seq_read (lr_file r) (unat kBlockSize) of
                   (status, buffer, f) \<Rightarrow>
                     let r = r\<lparr>lr_file := f, lr_buffer := buffer,
                              lr_end_of_buffer_offset := lr_end_of_buffer_offset r + of_nat (length buffer)\<rparr>
                     in if \<not> status_ok status
                        then (kEof, result,
                              (ReportDrop (r\<lparr>lr_buffer := []\<rparr>) (ucast kBlockSize) status)\<lparr>lr_eof := True\<rparr>)
                        else ReadPhysicalRecord seq_read
                               (if length buffer < unat kBlockSize then r\<lparr>lr_eof := True\<rparr> else r) result)
           else (kEof, result, r\<lparr>lr_buffer := []\<rparr>)
      else parse_physical_record r result)"
  by pat_completeness auto
termination
  by (relation "measure (\<lambda>(seq_read, r, result).
        if length (lr_buffer r) < unat kHeaderSize \<and> \<not> lr_eof r then 1 else 0)") auto

declare ReadPhysicalRecord.simps [simp del]

section \<open>Logical records\<close>

text \<open>The local variables of \<^verbatim>\<open>ReadRecord\<close>, its two output arguments among them.\<close>

record read_vars =
  rv_record :: slice
  rv_scratch :: slice
  rv_in_fragmented_record :: bool
  rv_prospective_record_offset :: u64
  rv_fragment :: slice

datatype ('a) loop_exit = Loop 'a | Return bool 'a

definition partial_record_report ::
  "read_vars \<Rightarrow> 'f log_reader \<Rightarrow> slice \<Rightarrow> read_vars \<times> 'f log_reader"
where
  "partial_record_report v r reason =
     (if rv_in_fragmented_record v
      then if rv_scratch v = [] then (v\<lparr>rv_in_fragmented_record := False\<rparr>, r)
           else (v, ReportCorruption r (of_nat (length (rv_scratch v))) reason)
      else (v, r))"

text \<open>The switch in the body of the loop, on a record type the reader got.\<close>

definition ReadRecord_switch ::
  "u64 \<Rightarrow> u32 \<Rightarrow> read_vars \<Rightarrow> 'f log_reader \<Rightarrow> (read_vars \<times> 'f log_reader) loop_exit"
where
  "ReadRecord_switch physical_record_offset record_type v r =
     (if record_type = ucast (RecordType_code kFullType) then
        case partial_record_report v r (str ''partial record without end(1)'') of (v, r) \<Rightarrow>
          Return True (v\<lparr>rv_prospective_record_offset := physical_record_offset, rv_scratch := [],
                         rv_record := rv_fragment v\<rparr>,
                       r\<lparr>lr_last_record_offset := physical_record_offset\<rparr>)
      else if record_type = ucast (RecordType_code kFirstType) then
        case partial_record_report v r (str ''partial record without end(2)'') of (v, r) \<Rightarrow>
          Loop (v\<lparr>rv_prospective_record_offset := physical_record_offset,
                  rv_scratch := rv_fragment v, rv_in_fragmented_record := True\<rparr>, r)
      else if record_type = ucast (RecordType_code kMiddleType) then
        (if \<not> rv_in_fragmented_record v
         then Loop (v, ReportCorruption r (of_nat (length (rv_fragment v)))
                         (str ''missing start of fragmented record(1)''))
         else Loop (v\<lparr>rv_scratch := rv_scratch v @ rv_fragment v\<rparr>, r))
      else if record_type = ucast (RecordType_code kLastType) then
        (if \<not> rv_in_fragmented_record v
         then Loop (v, ReportCorruption r (of_nat (length (rv_fragment v)))
                         (str ''missing start of fragmented record(2)''))
         else let v = v\<lparr>rv_scratch := rv_scratch v @ rv_fragment v\<rparr>
              in Return True (v\<lparr>rv_record := rv_scratch v\<rparr>,
                              r\<lparr>lr_last_record_offset := rv_prospective_record_offset v\<rparr>))
      else if record_type = kEof then
        Return False ((if rv_in_fragmented_record v then v\<lparr>rv_scratch := []\<rparr> else v), r)
      else if record_type = kBadRecord then
        (if rv_in_fragmented_record v
         then Loop (v\<lparr>rv_in_fragmented_record := False, rv_scratch := []\<rparr>,
                    ReportCorruption r (of_nat (length (rv_scratch v))) (str ''error in middle of record''))
         else Loop (v, r))
      else
        Loop (v\<lparr>rv_in_fragmented_record := False, rv_scratch := []\<rparr>,
              ReportCorruption r
                (of_nat (length (rv_fragment v)) +
                 (if rv_in_fragmented_record v then of_nat (length (rv_scratch v)) else 0))
                (str ''unknown record type '' @ dec_digits (unat record_type))))"

definition ReadRecord_body ::
  "('f \<Rightarrow> nat \<Rightarrow> Status \<times> slice \<times> 'f) \<Rightarrow> read_vars \<Rightarrow> 'f log_reader \<Rightarrow> (read_vars \<times> 'f log_reader) loop_exit"
where
  "ReadRecord_body seq_read v r =
     (let physical_record_offset = lr_end_of_buffer_offset r - of_nat (length (lr_buffer r))
      in case ReadPhysicalRecord seq_read r (rv_fragment v) of (record_type, fragment, r) \<Rightarrow>
           ReadRecord_switch physical_record_offset record_type (v\<lparr>rv_fragment := fragment\<rparr>) r)"

partial_function (option) ReadRecord_loop ::
  "('f \<Rightarrow> nat \<Rightarrow> Status \<times> slice \<times> 'f) \<Rightarrow> read_vars \<Rightarrow> 'f log_reader \<Rightarrow> (bool \<times> read_vars \<times> 'f log_reader) option"
where
  "ReadRecord_loop seq_read v r =
     (case ReadRecord_body seq_read v r of
        Loop vr \<Rightarrow> ReadRecord_loop seq_read (fst vr) (snd vr)
      | Return ok vr \<Rightarrow> Some (ok, vr))"

definition ReadRecord ::
  "('f \<Rightarrow> nat \<Rightarrow> Status \<times> slice \<times> 'f) \<Rightarrow> ('f \<Rightarrow> u64 \<Rightarrow> Status \<times> 'f) \<Rightarrow> 'f log_reader \<Rightarrow> slice \<Rightarrow> slice
   \<Rightarrow> (bool \<times> slice \<times> slice \<times> 'f log_reader) option"
where
  "ReadRecord seq_read seq_skip r record scratch =
     (case (if lr_last_record_offset r < lr_initial_offset r then SkipToInitialBlock seq_skip r else (True, r)) of
        (ok, r) \<Rightarrow>
          if \<not> ok then Some (False, record, scratch, r)
          else map_option (\<lambda>(ok, v, r). (ok, rv_record v, rv_scratch v, r))
            (ReadRecord_loop seq_read
               \<lparr>rv_record = [], rv_scratch = [], rv_in_fragmented_record = False,
                rv_prospective_record_offset = 0, rv_fragment = []\<rparr> r))"

text \<open>How recovery drives the reader: until it returns false, keeping the records.\<close>

partial_function (option) ReadRecords ::
  "('f \<Rightarrow> nat \<Rightarrow> Status \<times> slice \<times> 'f) \<Rightarrow> ('f \<Rightarrow> u64 \<Rightarrow> Status \<times> 'f) \<Rightarrow> 'f log_reader \<Rightarrow> slice \<Rightarrow> slice
   \<Rightarrow> (slice list \<times> 'f log_reader) option"
where
  "ReadRecords seq_read seq_skip r record scratch =
     (case ReadRecord seq_read seq_skip r record scratch of
        None \<Rightarrow> None
      | Some (ok, record, scratch, r) \<Rightarrow>
          if ok then Option.bind (ReadRecords seq_read seq_skip r record scratch) (\<lambda>(rs, r). Some (record # rs, r))
          else Some ([], r))"

section \<open>An in-memory file\<close>

text \<open>The rest of a file that is read in order and never fails.\<close>

definition flat_Read :: "slice \<Rightarrow> nat \<Rightarrow> Status \<times> slice \<times> slice" where
  "flat_Read f n = (OK, take n f, drop n f)"

definition flat_Skip :: "slice \<Rightarrow> u64 \<Rightarrow> Status \<times> slice" where
  "flat_Skip f n = (OK, drop (unat n) f)"

section \<open>Reading always ends\<close>

abbreviation bytes_left :: "slice log_reader \<Rightarrow> nat" where
  "bytes_left r \<equiv> length (lr_file r) + length (lr_buffer r)"

lemma ReportDrop_fields [simp]:
  "lr_file (ReportDrop r n s) = lr_file r" "lr_buffer (ReportDrop r n s) = lr_buffer r"
  "lr_eof (ReportDrop r n s) = lr_eof r" "lr_initial_offset (ReportDrop r n s) = lr_initial_offset r"
  "lr_end_of_buffer_offset (ReportDrop r n s) = lr_end_of_buffer_offset r"
  "lr_checksum (ReportDrop r n s) = lr_checksum r"
  "lr_last_record_offset (ReportDrop r n s) = lr_last_record_offset r"
  by (simp_all add: ReportDrop_def)

lemma ReportCorruption_fields [simp]:
  "lr_file (ReportCorruption r n s) = lr_file r" "lr_buffer (ReportCorruption r n s) = lr_buffer r"
  "lr_eof (ReportCorruption r n s) = lr_eof r" "lr_initial_offset (ReportCorruption r n s) = lr_initial_offset r"
  "lr_end_of_buffer_offset (ReportCorruption r n s) = lr_end_of_buffer_offset r"
  "lr_checksum (ReportCorruption r n s) = lr_checksum r"
  "lr_last_record_offset (ReportCorruption r n s) = lr_last_record_offset r"
  by (simp_all add: ReportCorruption_def)

lemma fragment_len_bound: "unat (((ucast (a :: byte) AND 0xff) OR push_bit 8 (ucast (b :: byte) AND 0xff)) :: u32) < 2 ^ 16"
proof -
  have "take_bit 16 (((ucast a AND 0xff) OR push_bit 8 (ucast b AND 0xff)) :: u32) =
      (ucast a AND 0xff) OR push_bit 8 (ucast b AND 0xff)"
    by (intro bit_word_eqI) (auto simp: bit_simps and_255)
  then show ?thesis by (simp only: take_bit_word_eq_self_iff)
qed

lemma unat_header_plus: "unat len < 2 ^ 16 \<Longrightarrow> unat (kHeaderSize + len) = 7 + unat len"
  by (subst unat_add_lem [THEN iffD1]) simp_all

lemma parse_physical_record_progress:
  assumes "7 \<le> length (lr_buffer r)" "parse_physical_record r result = (t, result', r')" "t \<noteq> kEof"
  shows "bytes_left r' < bytes_left r"
  using assms fragment_len_bound [of "lr_buffer r ! 4" "lr_buffer r ! 5"]
  by (auto simp: parse_physical_record_def Let_def unat_header_plus split: if_splits)

definition refill :: "slice log_reader \<Rightarrow> slice log_reader" where
  "refill r = r\<lparr>lr_file := drop 32768 (lr_file r), lr_buffer := take 32768 (lr_file r),
     lr_end_of_buffer_offset := lr_end_of_buffer_offset r + of_nat (length (take 32768 (lr_file r))),
     lr_eof := length (lr_file r) < 32768\<rparr>"

lemma ReadPhysicalRecord_flat:
  "ReadPhysicalRecord flat_Read r result =
    (if 7 \<le> length (lr_buffer r) then parse_physical_record r result
     else if lr_eof r then (kEof, result, r\<lparr>lr_buffer := []\<rparr>)
     else if 7 \<le> length (lr_file r) then parse_physical_record (refill r) result
     else (kEof, result, (refill r)\<lparr>lr_buffer := []\<rparr>))"
proof -
  have "(if length (lr_file r) < 32768
      then r\<lparr>lr_file := drop 32768 (lr_file r), lr_buffer := take 32768 (lr_file r),
        lr_end_of_buffer_offset := lr_end_of_buffer_offset r + of_nat (length (take 32768 (lr_file r))), lr_eof := True\<rparr>
      else r\<lparr>lr_file := drop 32768 (lr_file r), lr_buffer := take 32768 (lr_file r),
        lr_end_of_buffer_offset := lr_end_of_buffer_offset r + of_nat (length (take 32768 (lr_file r)))\<rparr>) = refill r"
    if "\<not> lr_eof r" using that by (simp add: refill_def)
  moreover have "ReadPhysicalRecord flat_Read (refill r) result =
      (if 7 \<le> length (lr_file r) then parse_physical_record (refill r) result
       else (kEof, result, (refill r)\<lparr>lr_buffer := []\<rparr>))"
    by (subst ReadPhysicalRecord.simps) (auto simp: refill_def)
  ultimately show ?thesis
    by (subst ReadPhysicalRecord.simps) (simp add: flat_Read_def Let_def not_le min_less_iff_disj)
qed

lemma ReadPhysicalRecord_progress:
  assumes "ReadPhysicalRecord flat_Read r result = (t, result', r')" "t \<noteq> kEof"
  shows "bytes_left r' < bytes_left r"
proof -
  have "bytes_left (refill r) \<le> bytes_left r" by (simp add: refill_def)
  then show ?thesis
    using assms parse_physical_record_progress [of r result t result' r']
      parse_physical_record_progress [of "refill r" result t result' r']
    by (auto simp: ReadPhysicalRecord_flat refill_def split: if_splits)
qed

lemma ReadRecord_switch_Loop:
  assumes "ReadRecord_switch p t v r = Loop (v', r')"
  shows "t \<noteq> kEof" "bytes_left r' = bytes_left r"
  using assms by (auto simp: ReadRecord_switch_def partial_record_report_def kEof_def Let_def split: if_splits)

lemma ReadRecord_switch_True:
  assumes "ReadRecord_switch p t v r = Return True (v', r')"
  shows "t \<noteq> kEof" "bytes_left r' = bytes_left r"
  using assms by (auto simp: ReadRecord_switch_def partial_record_report_def kEof_def Let_def split: if_splits)

lemma ReadRecord_body_progress:
  assumes "ReadRecord_body flat_Read v r = Loop (v', r') \<or> ReadRecord_body flat_Read v r = Return True (v', r')"
  shows "bytes_left r' < bytes_left r"
proof -
  obtain t result' s where phys: "ReadPhysicalRecord flat_Read r (rv_fragment v) = (t, result', s)"
    by (metis prod_cases3)
  then have "t \<noteq> kEof" "bytes_left r' = bytes_left s"
    using assms ReadRecord_switch_Loop [of _ t _ s v' r'] ReadRecord_switch_True [of _ t _ s v' r']
    by (auto simp: ReadRecord_body_def Let_def)
  with ReadPhysicalRecord_progress [OF phys] show ?thesis by simp
qed

lemma ReadRecord_loop_returns:
  "\<exists>ok v' r'. ReadRecord_loop flat_Read v r = Some (ok, v', r') \<and> (ok \<longrightarrow> bytes_left r' < bytes_left r)"
proof (induction "bytes_left r" arbitrary: v r rule: less_induct)
  case less
  show ?case
  proof (cases "ReadRecord_body flat_Read v r")
    case (Loop vr)
    then have "bytes_left (snd vr) < bytes_left r"
      using ReadRecord_body_progress [of v r "fst vr" "snd vr"] by simp
    then show ?thesis
      using less [of "snd vr" "fst vr"] Loop by (subst ReadRecord_loop.simps) force
  next
    case (Return ok vr)
    then show ?thesis
      using ReadRecord_body_progress [of v r "fst vr" "snd vr"]
      by (cases ok; cases vr) (auto simp: ReadRecord_loop.simps)
  qed
qed

lemma SkipToInitialBlock_bytes_left:
  "SkipToInitialBlock flat_Skip r = (ok, r') \<Longrightarrow> ok \<and> bytes_left r' \<le> bytes_left r"
  by (auto simp: SkipToInitialBlock_def flat_Skip_def Let_def split: if_splits)

lemma ReadRecord_progress:
  "\<exists>ok record' scratch' r'. ReadRecord flat_Read flat_Skip r record scratch = Some (ok, record', scratch', r') \<and>
    (ok \<longrightarrow> bytes_left r' < bytes_left r)"
proof -
  define c where "c = (if lr_last_record_offset r < lr_initial_offset r then SkipToInitialBlock flat_Skip r else (True, r))"
  obtain ok1 r1 where c: "c = (ok1, r1)" by (cases c)
  then have r1: "ok1" "bytes_left r1 \<le> bytes_left r"
    using SkipToInitialBlock_bytes_left [of r ok1 r1] by (auto simp: c_def split: if_splits)
  let ?v = "\<lparr>rv_record = [], rv_scratch = [], rv_in_fragmented_record = False,
                rv_prospective_record_offset = 0, rv_fragment = []\<rparr>"
  obtain ok v' r' where "ReadRecord_loop flat_Read ?v r1 = Some (ok, v', r')" "ok \<longrightarrow> bytes_left r' < bytes_left r1"
    using ReadRecord_loop_returns by blast
  then have "ReadRecord flat_Read flat_Skip r record scratch = Some (ok, rv_record v', rv_scratch v', r')"
    using r1 c by (simp add: ReadRecord_def c_def [symmetric])
  with \<open>ok \<longrightarrow> bytes_left r' < bytes_left r1\<close> r1(2) show ?thesis by auto
qed

text \<open>On a file that does not fail, recovery ends, whatever the bytes are.\<close>

lemma ReadRecords_returns: "\<exists>x. ReadRecords flat_Read flat_Skip r rcd scratch = Some x"
proof (induction "bytes_left r" arbitrary: r rcd scratch rule: less_induct)
  case less
  obtain ok record' scratch' r' where
    rd: "ReadRecord flat_Read flat_Skip r rcd scratch = Some (ok, record', scratch', r')"
    and dec: "ok \<longrightarrow> bytes_left r' < bytes_left r"
    using ReadRecord_progress by blast
  show ?case
  proof (cases ok)
    case True
    then obtain x where "ReadRecords flat_Read flat_Skip r' record' scratch' = Some x"
      using less [of r'] dec by blast
    then show ?thesis
      using rd True by (subst ReadRecords.simps) (cases x, simp)
  qed (use rd in \<open>subst ReadRecords.simps, simp\<close>)
qed

end
