(* ===== verification/Log_Recovery.thy ===== *)
theory Log_Recovery
  imports Log_Reader
begin

text \<open>
  The log reader on what the log writer left: every record that was written completely is
  returned, in order and unchanged, also when the file is cut at any byte, and the reader
  reports nothing. The one exception is a record whose reservation is seven bytes longer than
  what is written (\<open>log_hole\<close>): the records behind it in the same block are lost.
\<close>

section \<open>Headers\<close>

lemma header_length_bytes:
  assumes "n < 2 ^ 16"
  shows "((ucast (ucast ((of_nat n :: u64) AND 255) :: byte) AND 0xff) OR
      push_bit 8 (ucast (ucast (drop_bit 8 (of_nat n :: u64)) :: byte) AND 0xff)) = (of_nat n :: u32)"
proof (rule bit_word_eqI)
  fix i assume i: "i < LENGTH(32)"
  have "bit n i \<Longrightarrow> i < 16"
    using assms by (metis bit_take_bit_iff take_bit_nat_eq_self)
  then show "bit (((ucast (ucast ((of_nat n :: u64) AND 255) :: byte) AND 0xff) OR
      push_bit 8 (ucast (ucast (drop_bit 8 (of_nat n :: u64)) :: byte) AND 0xff)) :: u32) i = bit (of_nat n :: u32) i"
    using i by (cases "8 \<le> i") (auto simp: bit_simps and_255)
qed

lemma record_header_bytes:
  "record_header t x ! 4 = ucast ((of_nat (length x) :: u64) AND 255)"
  "record_header t x ! 5 = ucast (drop_bit 8 (of_nat (length x) :: u64))"
  "record_header t x ! 6 = RecordType_code t"
  "drop 6 (record_header t x) = [RecordType_code t]"
  by (simp_all add: record_header_def Let_def nth_append)

lemma record_header_crc:
  "length x < 2 ^ 16 \<Longrightarrow> Value (RecordType_code t # x) = Unmask (DecodeFixed32 (record_header t x @ y))"
  using crc.stored_checksum_matches [of "[RecordType_code t]" x 0]
  by (simp add: record_header_def Let_def Value_def type_crc_def codec_simps)

lemma scast_RecordType_code: "(scast (RecordType_code t) :: u32) = ucast (RecordType_code t)"
  by (cases t) simp_all

section \<open>Where the reader stands\<close>

lemma drop_take_append:
  assumes "drop p S = take (length S - p) (a @ b)"
  shows "drop (p + length a) S = take (length S - (p + length a)) b"
proof -
  have "drop (length a) (drop p S) = drop (length a) (take (length S - p) (a @ b))"
    by (simp only: assms)
  then show ?thesis by (simp only: drop_drop drop_take append_eq_conv_conj diff_diff_left) (simp add: add.commute)
qed

text \<open>The reader has read the bytes \<open>S\<close> up to \<open>p\<close>; its buffer ends at the end of
  the block of \<open>p\<close> or at the end of the file.\<close>

definition reader_at :: "slice \<Rightarrow> nat \<Rightarrow> slice log_reader \<Rightarrow> bool" where
  "reader_at S p r \<longleftrightarrow> lr_initial_offset r = 0 \<and>
     (\<exists>e. p \<le> e \<and> e \<le> length S \<and> e \<le> (p div 32768 + 1) * 32768 \<and>
          lr_buffer r = drop p (take e S) \<and> lr_file r = drop e S \<and>
          lr_end_of_buffer_offset r = of_nat e \<and>
          (if lr_eof r then e = length S else e mod 32768 = 0))"

lemma reader_at_new: "reader_at S 0 (new_Reader S rep c 0)"
  by (auto simp: reader_at_def new_Reader_def intro!: exI [of _ 0])

lemma lr_reports_new [simp]: "lr_reports (new_Reader f rep c n) = []"
  by (simp add: new_Reader_def)

lemma block_end: "(p div 32768 + 1) * 32768 = p + (32768 - p mod 32768)" for p :: nat
proof -
  have "p div 32768 * 32768 + p mod 32768 = p" "p mod 32768 < 32768" by simp_all
  then show ?thesis unfolding distrib_right by linarith
qed

lemma aligned_block_end:
  fixes p :: nat
  assumes "p < e" "e mod 32768 = 0" "e \<le> p + (32768 - p mod 32768)"
  shows "e = p + (32768 - p mod 32768)"
proof -
  have "p div 32768 < e div 32768"
  proof (rule ccontr)
    assume "\<not> ?thesis"
    then have "e div 32768 * 32768 \<le> p div 32768 * 32768" by (intro mult_le_mono1) simp
    then have "e \<le> p" using assms(2) by (metis add.right_neutral div_mult_mod_eq div_times_less_eq_dividend le_trans)
    with assms(1) show False by simp
  qed
  then have "(p div 32768 + 1) * 32768 \<le> e div 32768 * 32768" by (intro mult_le_mono1) simp
  then show ?thesis
    using assms(2,3) unfolding block_end by (metis add.right_neutral div_mult_mod_eq le_antisym)
qed

lemma reader_at_ready: "reader_at S p r \<Longrightarrow> 7 \<le> length (lr_buffer r) \<Longrightarrow> trailer_len p = 0"
  unfolding reader_at_def block_end trailer_len_def by auto

lemma reader_at_refill:
  assumes "reader_at S p r" "length (lr_buffer r) < 7" "\<not> lr_eof r"
  shows "reader_at S (p + trailer_len p) (refill r)" "lr_reports (refill r) = lr_reports r"
proof -
  obtain e where e: "p \<le> e" "e \<le> length S" "e \<le> p + (32768 - p mod 32768)" "e mod 32768 = 0"
    "lr_initial_offset r = 0" "lr_buffer r = drop p (take e S)" "lr_file r = drop e S"
    "lr_end_of_buffer_offset r = of_nat e"
    using assms(1,3) unfolding reader_at_def block_end by auto
  have ep: "e - p < 7" using assms(2) e by simp
  have "e = p + trailer_len p"
  proof (cases "e = p")
    case False
    then have "e = p + (32768 - p mod 32768)" using e(1,3,4) by (intro aligned_block_end) simp_all
    then show ?thesis using ep by (simp add: trailer_len_def)
  qed (use e(4) in \<open>simp add: trailer_len_def\<close>)
  then have q: "p + trailer_len p = e" by simp
  define e' where "e' = e + min 32768 (length S - e)"
  have "e \<le> e'" "e' \<le> length S" using e(2) by (simp_all add: e'_def)
  moreover have "e' \<le> (e div 32768 + 1) * 32768"
    unfolding block_end using e(4) by (simp add: e'_def)
  moreover have "lr_buffer (refill r) = drop e (take e' S)"
    using e(7) by (simp add: refill_def e'_def take_drop min_def add.commute)
  moreover have "lr_file (refill r) = drop e' S"
    using e(2,7) by (simp add: refill_def e'_def min_def add.commute)
  moreover have "lr_end_of_buffer_offset (refill r) = of_nat e'"
    using e(7,8) by (simp add: refill_def e'_def min.commute)
  moreover have "if lr_eof (refill r) then e' = length S else e' mod 32768 = 0"
    using e(2,4,7) by (simp add: refill_def e'_def min_def mod_add_eq [symmetric])
  moreover have "lr_initial_offset (refill r) = 0" using e(5) by (simp add: refill_def)
  ultimately show "reader_at S (p + trailer_len p) (refill r)"
    unfolding q reader_at_def by blast
qed (simp add: refill_def)

lemma reader_at_fits:
  assumes "reader_at S p r" "7 \<le> length (lr_buffer r)" "n \<le> log_room p"
  shows "7 + n \<le> length (lr_buffer r) \<longleftrightarrow> p + 7 + n \<le> length S"
    "\<not> p + 7 + n \<le> length S \<Longrightarrow> lr_eof r"
proof -
  obtain e where e: "p \<le> e" "e \<le> length S" "e \<le> p + (32768 - p mod 32768)"
    "lr_buffer r = drop p (take e S)" "if lr_eof r then e = length S else e mod 32768 = 0"
    using assms(1) unfolding reader_at_def block_end by auto
  have len: "length (lr_buffer r) = e - p" using e by simp
  have "p + 7 + n \<le> e" if "\<not> lr_eof r"
  proof -
    have "e = p + (32768 - p mod 32768)" using that e assms(2) len by (intro aligned_block_end) auto
    also have "\<dots> = p + (log_room p + 7)"
      using trailer_room [of p] reader_at_ready [OF assms(1,2)] by simp
    finally show ?thesis using assms(3) by simp
  qed
  then show "7 + n \<le> length (lr_buffer r) \<longleftrightarrow> p + 7 + n \<le> length S"
    "\<not> p + 7 + n \<le> length S \<Longrightarrow> lr_eof r"
    using e len by (auto split: if_splits)
qed

lemma reader_at_advance:
  assumes "reader_at S p r" "7 + n \<le> length (lr_buffer r)"
  shows "reader_at S (p + 7 + n) (r\<lparr>lr_buffer := drop (7 + n) (lr_buffer r)\<rparr>)"
proof -
  obtain e where e: "p \<le> e" "e \<le> length S" "e \<le> (p div 32768 + 1) * 32768" "lr_initial_offset r = 0"
    "lr_buffer r = drop p (take e S)" "lr_file r = drop e S" "lr_end_of_buffer_offset r = of_nat e"
    "if lr_eof r then e = length S else e mod 32768 = 0"
    using assms(1) unfolding reader_at_def by auto
  have "(p div 32768 + 1) * 32768 \<le> ((p + 7 + n) div 32768 + 1) * 32768"
    by (intro mult_le_mono1 add_mono div_le_mono) simp_all
  then have "e \<le> ((p + 7 + n) div 32768 + 1) * 32768" using e(3) by (rule le_trans [rotated])
  moreover have "p + 7 + n \<le> e" using assms(2) e by simp
  ultimately show ?thesis
    unfolding reader_at_def using e by (intro conjI exI [of _ e]) (simp_all add: add_ac)
qed

lemma reader_at_buffer:
  "reader_at S p r \<Longrightarrow> drop p S = take (length S - p) b \<Longrightarrow> lr_buffer r = take (length (lr_buffer r)) b"
  unfolding reader_at_def by (auto simp: drop_take min_def)

lemma parse_physical_record_at:
  assumes at: "reader_at S p r" and ready: "7 \<le> length (lr_buffer r)"
    and bytes: "drop p S = take (length S - p) (record_header t x @ x @ rest)"
    and t: "t \<noteq> kZeroType" and room: "length x \<le> log_room p"
  shows "parse_physical_record r res =
    (if p + 7 + length x \<le> length S
     then (ucast (RecordType_code t), x, r\<lparr>lr_buffer := drop (7 + length x) (lr_buffer r)\<rparr>)
     else (kEof, res, r\<lparr>lr_buffer := []\<rparr>))"
proof -
  let ?b = "lr_buffer r"
  have x16: "length x < 2 ^ 16" using room by (simp add: log_room_def split: if_splits)
  have b: "?b = record_header t x @ take (length ?b - 7) (x @ rest)"
    using reader_at_buffer [OF at bytes] ready by (metis append_take_drop_id length_record_header take_all take_append)
  have h: "?b ! 4 = ucast ((of_nat (length x) :: u64) AND 255)"
    "?b ! 5 = ucast (drop_bit 8 (of_nat (length x) :: u64))" "?b ! 6 = RecordType_code t"
    by (subst b, simp add: nth_append record_header_bytes)+
  let ?len = "of_nat (length x) :: u32"
  have len: "((ucast (?b ! 4) AND 0xff) OR push_bit 8 (ucast (?b ! 5) AND 0xff)) = ?len"
    unfolding h by (rule header_length_bytes [OF x16])
  have un: "unat ?len = length x" "unat (kHeaderSize + ?len) = 7 + length x"
    using x16 unat_header_plus [of ?len] by simp_all
  have init: "lr_initial_offset r = 0" using at by (simp add: reader_at_def)
  note fits = reader_at_fits [OF at ready room]
  show ?thesis
  proof (cases "p + 7 + length x \<le> length S")
    case True
    then have n: "7 + length x \<le> length ?b" using fits by simp
    have "take (1 + length x) (drop 6 ?b) = RecordType_code t # x" "take (length x) (drop 7 ?b) = x"
      using n by (subst b, simp add: record_header_bytes)+
    moreover have "Value (RecordType_code t # x) = Unmask (DecodeFixed32 ?b)"
      by (subst b) (rule record_header_crc [OF x16])
    moreover have "(ucast (RecordType_code t) :: u32) \<noteq> ucast (RecordType_code kZeroType)"
      using t by (cases t) simp_all
    ultimately show ?thesis
      using True n init unfolding parse_physical_record_def Let_def len h(3) scast_RecordType_code un
      by simp
  next
    case False
    then have n: "length ?b < 7 + length x" "lr_eof r" using fits by simp_all
    then show ?thesis
      using False unfolding parse_physical_record_def Let_def len un by simp
  qed
qed

lemma reader_at_last_record_offset [simp]:
  "reader_at S p (r\<lparr>lr_last_record_offset := o'\<rparr>) = reader_at S p r"
  by (simp add: reader_at_def)

lemma reader_at_eof: "reader_at S p r \<Longrightarrow> lr_eof r \<Longrightarrow> length (lr_buffer r) = length S - p"
  by (auto simp: reader_at_def)

lemma log_room_trailer: "log_room (p + trailer_len p) = log_room p"
proof -
  have "(p + trailer_len p) mod 32768 < 32768" by simp
  then show ?thesis
    using trailer_room [of p] by (simp add: log_room_def [of "p + trailer_len p"])
qed

lemma ReadPhysicalRecord_at:
  assumes at: "reader_at S p r"
    and bytes: "drop p S = take (length S - p) (replicate (trailer_len p) 0 @ record_header t x @ x @ rest)"
    and t: "t \<noteq> kZeroType" and room: "length x \<le> log_room p"
  shows "\<exists>r'. lr_reports r' = lr_reports r \<and>
    (if p + trailer_len p + 7 + length x \<le> length S
     then ReadPhysicalRecord flat_Read r res = (ucast (RecordType_code t), x, r') \<and>
          reader_at S (p + trailer_len p + 7 + length x) r'
     else ReadPhysicalRecord flat_Read r res = (kEof, res, r'))"
proof -
  let ?q = "p + trailer_len p"
  have bytes': "drop ?q S = take (length S - ?q) (record_header t x @ x @ rest)"
    using drop_take_append [OF bytes] by simp
  consider (ready) "7 \<le> length (lr_buffer r)"
    | (eof) "length (lr_buffer r) < 7" "lr_eof r"
    | (refill) "length (lr_buffer r) < 7" "\<not> lr_eof r" by linarith
  then show ?thesis
  proof cases
    case ready
    then show ?thesis
      using parse_physical_record_at [OF at ready _ t room, of rest res] bytes reader_at_ready [OF at ready]
        reader_at_fits [OF at ready room] reader_at_advance [OF at, of "length x"]
      by (auto simp: ReadPhysicalRecord_flat)
  next
    case eof
    then show ?thesis
      using reader_at_eof [OF at]
      by (intro exI [of _ "r\<lparr>lr_buffer := []\<rparr>"]) (auto simp: ReadPhysicalRecord_flat)
  next
    case refill
    note at' = reader_at_refill [OF at refill]
    show ?thesis
    proof (cases "7 \<le> length (lr_file r)")
      case True
      then have ready: "7 \<le> length (lr_buffer (Log_Reader.refill r))" by (simp add: refill_def)
      have room': "length x \<le> log_room ?q" using room by (simp add: log_room_trailer)
      show ?thesis
        using parse_physical_record_at [OF at'(1) ready bytes' t room', of res] True refill
          reader_at_fits [OF at'(1) ready room'] reader_at_advance [OF at'(1), of "length x"] at'(2)
        by (auto simp: ReadPhysicalRecord_flat)
    next
      case False
      then have "length (lr_buffer (Log_Reader.refill r)) < 7" "lr_eof (Log_Reader.refill r)"
        by (simp_all add: refill_def)
      then show ?thesis
        using reader_at_eof [OF at'(1)] at'(2) False refill
        by (intro exI [of _ "(Log_Reader.refill r)\<lparr>lr_buffer := []\<rparr>"]) (auto simp: ReadPhysicalRecord_flat)
    qed
  qed
qed

section \<open>Logical records\<close>

lemma ReadRecord_body_end:
  assumes "ReadPhysicalRecord seq_read r (rv_fragment v) = (ucast (RecordType_code (fragment_type b True)), x, r1)"
    "rv_in_fragmented_record v = (\<not> b)" "b \<Longrightarrow> rv_scratch v = []"
  shows "\<exists>v' o'. ReadRecord_body seq_read v r = Return True (v', r1\<lparr>lr_last_record_offset := o'\<rparr>) \<and>
    rv_record v' = rv_scratch v @ x"
  using assms
  by (cases b) (auto simp: ReadRecord_body_def ReadRecord_switch_def partial_record_report_def
      fragment_type_def Let_def)

lemma ReadRecord_body_more:
  assumes "ReadPhysicalRecord seq_read r (rv_fragment v) = (ucast (RecordType_code (fragment_type b False)), x, r1)"
    "rv_in_fragmented_record v = (\<not> b)" "b \<Longrightarrow> rv_scratch v = []"
  shows "\<exists>v'. ReadRecord_body seq_read v r = Loop (v', r1) \<and> rv_in_fragmented_record v' \<and>
    rv_scratch v' = rv_scratch v @ x"
  using assms
  by (cases b) (simp_all add: ReadRecord_body_def ReadRecord_switch_def partial_record_report_def
      fragment_type_def Let_def)

lemma ReadRecord_body_eof:
  "ReadPhysicalRecord seq_read r (rv_fragment v) = (kEof, x, r1) \<Longrightarrow>
   \<exists>v'. ReadRecord_body seq_read v r = Return False (v', r1)"
  by (simp add: ReadRecord_body_def ReadRecord_switch_def kEof_def Let_def)

lemma ReadRecord_loop_at:
  assumes "reader_at S p r"
    and "drop p S = take (length S - p) (record_bytes p ptr b @ rest)"
    and "rv_in_fragmented_record v = (\<not> b)" "b \<Longrightarrow> rv_scratch v = []"
  shows "\<exists>v' r'. lr_reports r' = lr_reports r \<and>
    (if p + length (record_bytes p ptr b) \<le> length S
     then ReadRecord_loop flat_Read v r = Some (True, v', r') \<and> rv_record v' = rv_scratch v @ ptr \<and>
          reader_at S (p + length (record_bytes p ptr b)) r'
     else ReadRecord_loop flat_Read v r = Some (False, v', r'))"
  using assms
proof (induction p ptr b arbitrary: v r rule: record_bytes.induct)
  case (1 p ptr b)
  let ?last = "length ptr \<le> log_room p" and ?x = "take (log_room p) ptr"
  let ?t = "fragment_type b ?last"
  let ?q = "p + trailer_len p + 7 + length ?x"
  let ?more = "if ?last then [] else record_bytes (p + trailer_len p + 7 + log_room p) (drop (log_room p) ptr) False"
  have rb: "record_bytes p ptr b = replicate (trailer_len p) 0 @ record_header ?t ?x @ ?x @ ?more"
    by (subst record_bytes.simps) simp
  have len: "p + length (record_bytes p ptr b) = ?q + length ?more" by (simp add: rb)
  have t: "?t \<noteq> kZeroType" by (simp add: fragment_type_def)
  have "drop p S = take (length S - p) (replicate (trailer_len p) 0 @ record_header ?t ?x @ ?x @ ?more @ rest)"
    using "1.prems"(2) rb by simp
  from ReadPhysicalRecord_at [OF "1.prems"(1) this t, of "rv_fragment v"]
  obtain r1 where r1: "lr_reports r1 = lr_reports r"
    "if ?q \<le> length S
     then ReadPhysicalRecord flat_Read r (rv_fragment v) = (ucast (RecordType_code ?t), ?x, r1) \<and> reader_at S ?q r1
     else ReadPhysicalRecord flat_Read r (rv_fragment v) = (kEof, rv_fragment v, r1)"
    by auto
  show ?case
  proof (cases "?q \<le> length S")
    case False
    then obtain v' where "ReadRecord_body flat_Read v r = Return False (v', r1)"
      using r1(2) ReadRecord_body_eof by fastforce
    then show ?thesis
      using r1(1) len False by (subst ReadRecord_loop.simps) auto
  next
    case True
    then have phys: "ReadPhysicalRecord flat_Read r (rv_fragment v) = (ucast (RecordType_code ?t), ?x, r1)"
      and at1: "reader_at S ?q r1" using r1(2) by simp_all
    show ?thesis
    proof (cases ?last)
      case last: True
      then obtain v' o' where
        "ReadRecord_body flat_Read v r = Return True (v', r1\<lparr>lr_last_record_offset := o'\<rparr>)"
        "rv_record v' = rv_scratch v @ ptr"
        using ReadRecord_body_end [of flat_Read r v b ?x r1] phys "1.prems"(3,4) by auto
      moreover have "p + length (record_bytes p ptr b) = ?q" using len last by simp
      ultimately show ?thesis
        using True at1 r1(1) by (subst ReadRecord_loop.simps) (simp add: add.assoc)
    next
      case more: False
      let ?q' = "p + trailer_len p + 7 + log_room p"
      have q: "?q = ?q'" using more by simp
      obtain v1 where body: "ReadRecord_body flat_Read v r = Loop (v1, r1)"
        and v1: "rv_in_fragmented_record v1 = (\<not> False)" "rv_scratch v1 = rv_scratch v @ ?x"
        using ReadRecord_body_more [of flat_Read r v b ?x r1] phys "1.prems"(3,4) more by auto
      have "drop p S = take (length S - p) ((replicate (trailer_len p) 0 @ record_header ?t ?x @ ?x) @
          record_bytes ?q' (drop (log_room p) ptr) False @ rest)"
        using "1.prems"(2) rb more by simp
      from drop_take_append [OF this]
      have bytes: "drop ?q' S = take (length S - ?q') (record_bytes ?q' (drop (log_room p) ptr) False @ rest)"
        using q by (simp add: add.assoc)
      have "p + length (record_bytes p ptr b) = ?q' + length (record_bytes ?q' (drop (log_room p) ptr) False)"
        using len more q by simp
      moreover have "ReadRecord_loop flat_Read v r = ReadRecord_loop flat_Read v1 r1"
        using body by (subst ReadRecord_loop.simps) simp
      ultimately show ?thesis
        using "1.IH" [OF more at1 [unfolded q] bytes v1(1)]
        by (simp only: v1(2) r1(1) append_assoc append_take_drop_id)
    qed
  qed
qed

lemma ReadPhysicalRecord_end:
  assumes at: "reader_at S (length S) r"
  shows "\<exists>r'. ReadPhysicalRecord flat_Read r res = (kEof, res, r') \<and> lr_reports r' = lr_reports r"
proof -
  have "lr_buffer r = []" "lr_file r = []" using at by (auto simp: reader_at_def)
  then show ?thesis by (auto simp: ReadPhysicalRecord_flat refill_def)
qed

lemma ReadRecord_at_0:
  "lr_initial_offset r = 0 \<Longrightarrow> ReadRecord seq_read seq_skip r rcd scratch =
    map_option (\<lambda>(ok, v, r). (ok, rv_record v, rv_scratch v, r))
      (ReadRecord_loop seq_read \<lparr>rv_record = [], rv_scratch = [], rv_in_fragmented_record = False,
         rv_prospective_record_offset = 0, rv_fragment = []\<rparr> r)"
  by (simp add: ReadRecord_def)

lemma ReadRecord_end:
  assumes at: "reader_at S (length S) r"
  shows "\<exists>rcd' scratch' r'. ReadRecord flat_Read flat_Skip r rcd scratch = Some (False, rcd', scratch', r') \<and>
    lr_reports r' = lr_reports r"
proof -
  let ?v = "\<lparr>rv_record = [], rv_scratch = [], rv_in_fragmented_record = False,
         rv_prospective_record_offset = 0, rv_fragment = []\<rparr>"
  obtain r' where "ReadPhysicalRecord flat_Read r (rv_fragment ?v) = (kEof, rv_fragment ?v, r')"
    "lr_reports r' = lr_reports r"
    using ReadPhysicalRecord_end [OF at] by blast
  moreover from this(1) obtain v' where "ReadRecord_body flat_Read ?v r = Return False (v', r')"
    using ReadRecord_body_eof by blast
  moreover have "lr_initial_offset r = 0" using at by (simp add: reader_at_def)
  ultimately show ?thesis by (simp add: ReadRecord_at_0 ReadRecord_loop.simps)
qed

lemma ReadRecord_at:
  assumes at: "reader_at S p r"
    and bytes: "drop p S = take (length S - p) (record_bytes p x True @ rest)"
  shows "\<exists>rcd' scratch' r'. lr_reports r' = lr_reports r \<and>
    (if p + length (record_bytes p x True) \<le> length S
     then ReadRecord flat_Read flat_Skip r rcd scratch = Some (True, x, scratch', r') \<and>
          reader_at S (p + length (record_bytes p x True)) r'
     else ReadRecord flat_Read flat_Skip r rcd scratch = Some (False, rcd', scratch', r'))"
proof -
  have "lr_initial_offset r = 0" using at by (simp add: reader_at_def)
  then show ?thesis
    using ReadRecord_loop_at [OF at bytes, of "\<lparr>rv_record = [], rv_scratch = [], rv_in_fragmented_record = False,
         rv_prospective_record_offset = 0, rv_fragment = []\<rparr>"]
    by (fastforce simp: ReadRecord_at_0 split: if_splits)
qed

section \<open>Recovery of a log\<close>

text \<open>The records whose bytes end within the first \<open>k\<close> bytes of the file.\<close>

fun complete_records :: "nat \<Rightarrow> nat \<Rightarrow> slice list \<Rightarrow> slice list" where
  "complete_records p k [] = []"
| "complete_records p k (x # xs) =
     (if p + length (record_bytes p x True) \<le> k
      then x # complete_records (p + length (reserved_bytes p x)) k xs else [])"

lemma complete_records_all: "p + length (log_bytes p xs) \<le> k \<Longrightarrow> complete_records p k xs = xs"
  by (induction xs arbitrary: p) (auto simp: reserved_bytes_def)

lemma complete_records_prefix: "\<exists>rest. xs = complete_records p k xs @ rest"
  by (induction xs arbitrary: p) auto

lemma complete_records_append:
  "p + length (log_bytes p xs) \<le> k \<Longrightarrow>
   complete_records p k (xs @ ys) = xs @ complete_records (p + length (log_bytes p xs)) k ys"
  by (induction xs arbitrary: p) (auto simp: reserved_bytes_def add.assoc)

lemma ReadRecords_at:
  assumes "no_holes p xs" "reader_at S p r" "drop p S = take (length S - p) (log_bytes p xs)"
  shows "\<exists>r'. ReadRecords flat_Read flat_Skip r rcd scratch = Some (complete_records p (length S) xs, r') \<and>
    lr_reports r' = lr_reports r"
  using assms
proof (induction xs arbitrary: p r rcd scratch)
  case Nil
  then have "p = length S" by (auto simp: reader_at_def)
  then show ?case
    using ReadRecord_end [of S r rcd scratch] Nil.prems(2) by (subst ReadRecords.simps) auto
next
  case (Cons x xs)
  let ?q = "p + length (reserved_bytes p x)"
  have res: "reserved_bytes p x = record_bytes p x True" using Cons.prems(1) by (simp add: reserved_bytes_def)
  have bytes: "drop p S = take (length S - p) (record_bytes p x True @ log_bytes ?q xs)"
    using Cons.prems(3) res by simp
  obtain rcd' scratch' r1 where r1: "lr_reports r1 = lr_reports r"
    "if ?q \<le> length S
     then ReadRecord flat_Read flat_Skip r rcd scratch = Some (True, x, scratch', r1) \<and> reader_at S ?q r1
     else ReadRecord flat_Read flat_Skip r rcd scratch = Some (False, rcd', scratch', r1)"
    using ReadRecord_at [OF Cons.prems(2) bytes] res by metis
  show ?case
  proof (cases "?q \<le> length S")
    case True
    then obtain r' where "ReadRecords flat_Read flat_Skip r1 x scratch' = Some (complete_records ?q (length S) xs, r')"
      "lr_reports r' = lr_reports r"
      using Cons.IH [of ?q r1 x scratch'] Cons.prems(1) r1 drop_take_append [OF bytes] res by auto
    then show ?thesis using True r1 res by (subst ReadRecords.simps) simp
  next
    case False
    then show ?thesis using r1 res by (subst ReadRecords.simps) simp
  qed
qed

section \<open>The hole\<close>

text \<open>Seven zero bytes at the start of a block read as a header of type zero and length zero:
  the reader drops the rest of the block without a report.\<close>

lemma parse_zero_header:
  assumes "lr_buffer r = replicate 7 0 @ rest"
  shows "parse_physical_record r res = (kBadRecord, res, r\<lparr>lr_buffer := []\<rparr>)"
proof -
  have "lr_buffer r ! 4 = 0" "lr_buffer r ! 5 = 0" "lr_buffer r ! 6 = 0" "7 \<le> length (lr_buffer r)"
    using assms by (simp_all add: nth_append)
  then show ?thesis by (simp add: parse_physical_record_def Let_def)
qed

lemma ReadPhysicalRecord_zeros:
  assumes at: "reader_at S p r" and p: "p mod 32768 = 0" and bytes: "drop p S = replicate 7 0 @ rest"
    and short: "length rest + 7 < 32768"
  shows "\<exists>r'. ReadPhysicalRecord flat_Read r res = (kBadRecord, res, r') \<and> lr_eof r' \<and> lr_buffer r' = [] \<and>
    lr_reports r' = lr_reports r"
proof -
  have S: "length S = p + 7 + length rest"
    using arg_cong [OF bytes, of length] by simp
  obtain e where e: "p \<le> e" "e \<le> length S" "lr_buffer r = drop p (take e S)" "lr_file r = drop e S"
    "if lr_eof r then e = length S else e mod 32768 = 0"
    using at unfolding reader_at_def by auto
  show ?thesis
  proof (cases "lr_eof r")
    case True
    then have "lr_buffer r = replicate 7 0 @ rest" using e bytes by simp
    then show ?thesis
      using True parse_zero_header [of r rest res] by (simp add: ReadPhysicalRecord_flat)
  next
    case False
    have "e = p"
    proof (rule ccontr)
      assume "e \<noteq> p"
      then have "e = p + (32768 - p mod 32768)"
        using e S short p False by (intro aligned_block_end) auto
      then show False using e(2) S short p by simp
    qed
    then have "lr_buffer r = []" "lr_buffer (refill r) = replicate 7 0 @ rest" "lr_file r = replicate 7 0 @ rest"
      using e bytes short by (simp_all add: refill_def)
    then show ?thesis
      using False parse_zero_header [of "refill r" rest res] short
      by (simp add: ReadPhysicalRecord_flat refill_def)
  qed
qed

lemma ReadRecord_zeros:
  assumes at: "reader_at S p r" and p: "p mod 32768 = 0" and bytes: "drop p S = replicate 7 0 @ rest"
    and short: "length rest + 7 < 32768"
  shows "\<exists>rcd' scratch' r'. ReadRecord flat_Read flat_Skip r rcd scratch = Some (False, rcd', scratch', r') \<and>
    lr_reports r' = lr_reports r"
proof -
  let ?v = "\<lparr>rv_record = [], rv_scratch = [], rv_in_fragmented_record = False,
         rv_prospective_record_offset = 0, rv_fragment = []\<rparr>"
  obtain r1 where r1: "ReadPhysicalRecord flat_Read r (rv_fragment ?v) = (kBadRecord, rv_fragment ?v, r1)"
    "lr_eof r1" "lr_buffer r1 = []" "lr_reports r1 = lr_reports r"
    using ReadPhysicalRecord_zeros [OF assms] by blast
  then have "ReadRecord_body flat_Read ?v r = Loop (?v, r1)"
    by (simp add: ReadRecord_body_def ReadRecord_switch_def kBadRecord_def kEof_def Let_def)
  moreover have "ReadPhysicalRecord flat_Read r1 (rv_fragment ?v) = (kEof, rv_fragment ?v, r1)"
    using r1(2,3) by (simp add: ReadPhysicalRecord_flat)
  then obtain v' where "ReadRecord_body flat_Read ?v r1 = Return False (v', r1)"
    using ReadRecord_body_eof by blast
  moreover have "lr_initial_offset r = 0" using at by (simp add: reader_at_def)
  ultimately show ?thesis
    using r1(4) by (simp add: ReadRecord_at_0 ReadRecord_loop.simps)
qed

lemma log_hole_aligned:
  assumes "log_hole p (length x)"
  shows "(p + length (record_bytes p x True)) mod 32768 = 0"
proof -
  define m where "m = length x - log_room p"
  have m: "m mod 32761 = 0" "0 < m" "length x = log_room p + m"
    using assms by (auto simp: log_hole_def m_def)
  then obtain c where c: "m = 32761 * c" "0 < c" by (auto simp: mod_eq_0_iff_dvd elim!: dvdE)
  have "(m - 1) div 32761 = c - 1" using c by (intro div_nat_eqI) (auto simp: algebra_simps)
  then have "p + length (record_bytes p x True) = (p + trailer_len p + 7 + log_room p) + 32768 * c"
    using c m by (simp add: length_record_bytes algebra_simps)
  then show ?thesis using next_block [of p] by (metis mod_mult_self2)
qed

lemma ReadRecords_hole:
  assumes hole: "log_hole 0 (length x)" and short: "length y + 14 < 32768"
  shows "\<exists>r'. ReadRecords flat_Read flat_Skip (new_Reader (log_bytes 0 [x, y]) rep c 0) rcd scratch = Some ([x], r') \<and>
    lr_reports r' = []"
proof -
  let ?S = "log_bytes 0 [x, y]" and ?p = "length (record_bytes 0 x True)"
  have p: "?p mod 32768 = 0" using log_hole_aligned [OF hole] by simp
  have p7: "(?p + 7) mod 32768 = 7" using mod_add_left_eq [of ?p 32768 7] p by simp
  have y: "reserved_bytes (?p + 7) y = record_bytes (?p + 7) y True" "length (record_bytes (?p + 7) y True) = 7 + length y"
    using p7 short by (simp_all add: reserved_bytes_def log_hole_def log_room_def length_record_bytes trailer_len_def)
  have S: "?S = record_bytes 0 x True @ replicate 7 0 @ record_bytes (?p + 7) y True"
    using hole y by (simp add: reserved_bytes_def)
  have "drop 0 ?S = take (length ?S - 0) (record_bytes 0 x True @ replicate 7 0 @ record_bytes (?p + 7) y True)"
    using S by simp
  from ReadRecord_at [OF reader_at_new [of ?S rep c] this]
  obtain scratch' r1 where r1: "lr_reports r1 = []" "reader_at ?S ?p r1"
    "ReadRecord flat_Read flat_Skip (new_Reader ?S rep c 0) rcd scratch = Some (True, x, scratch', r1)"
    using S by (fastforce simp: new_Reader_def)
  have "drop ?p ?S = replicate 7 0 @ record_bytes (?p + 7) y True" using S by simp
  from ReadRecord_zeros [OF r1(2) p this, of x scratch'] y(2) short
  obtain rcd2 scratch2 r2 where "ReadRecord flat_Read flat_Skip r1 x scratch' = Some (False, rcd2, scratch2, r2)"
    "lr_reports r2 = []" using r1(1) by auto
  then show ?thesis using r1(3) by (simp add: ReadRecords.simps)
qed

lemma AddRecords_hole:
  assumes hole: "log_hole 0 (length x)" and "length x < 2 ^ 30" and short: "length y + 14 < 32768"
  shows "\<exists>w. AddRecords flat_WriteAt (new_Writer []) [x, y] = (True, w) \<and> lw_dest w = log_bytes 0 [x, y]"
proof -
  let ?p = "length (record_bytes 0 x True)"
  let ?w = "\<lparr>lw_offset = of_nat (?p + 7), lw_dest = record_bytes 0 x True\<rparr> :: slice log_writer"
  have "(length x - 32762) div 32761 * 32761 \<le> length x - 32762"
    by (rule div_times_less_eq_dividend)
  then have lim: "?p \<le> 2 * length x + 32768"
    by (auto simp: length_record_bytes trailer_len_def log_room_def)
  have 1: "AddRecord flat_WriteAt (new_Writer []) x = (True, ?w)"
    using AddRecord_flat [of "new_Writer []" 0 x] lim assms(2) hole
    by (simp add: new_Writer_def reserved_bytes_def padded_def)
  have p: "?p mod 32768 = 0" using log_hole_aligned [OF hole] by simp
  have p7: "(?p + 7) mod 32768 = 7" using mod_add_left_eq [of ?p 32768 7] p by simp
  have y: "reserved_bytes (?p + 7) y = record_bytes (?p + 7) y True" "length (record_bytes (?p + 7) y True) = 7 + length y"
    using p7 short by (simp_all add: reserved_bytes_def log_hole_def log_room_def length_record_bytes trailer_len_def)
  have "AddRecord flat_WriteAt ?w y = (True, \<lparr>lw_offset = of_nat (?p + 7 + (7 + length y)),
      lw_dest = record_bytes 0 x True @ replicate 7 0 @ record_bytes (?p + 7) y True\<rparr>)"
    using AddRecord_flat [of ?w "?p + 7" y] lim assms(2) short y
    by (simp add: padded_def unat_of_nat_u64 del: of_nat_add)
  then show ?thesis using 1 y(1) hole by (auto simp: reserved_bytes_def)
qed

section \<open>A log that was written and cut\<close>

lemma written_log_cut:
  assumes "no_holes 0 (acked @ later)" "length (log_bytes 0 (acked @ later)) + 7 < 2 ^ 32"
    "length (log_bytes 0 acked) \<le> k"
  shows "\<exists>w more rest r'. AddRecords flat_WriteAt (new_Writer []) (acked @ later) = (True, w) \<and>
    ReadRecords flat_Read flat_Skip (new_Reader (take k (lw_dest w)) rep c 0) [] [] = Some (acked @ more, r') \<and>
    later = more @ rest \<and> (length (lw_dest w) \<le> k \<longrightarrow> rest = []) \<and> lr_reports r' = []"
proof -
  let ?L = "log_bytes 0 (acked @ later)" and ?rs = "acked @ later"
  let ?w = "\<lparr>lw_offset = of_nat (length ?L), lw_dest = ?L\<rparr>"
  let ?S = "take k ?L" and ?p = "length (log_bytes 0 acked)"
  have w: "AddRecords flat_WriteAt (new_Writer []) ?rs = (True, ?w)"
    using AddRecords_flat_no_holes [of "new_Writer []" 0 ?rs] assms(1,2) by (simp add: new_Writer_def)
  have "?p \<le> length ?L" by (simp add: log_bytes_append)
  then have p: "?p \<le> length ?S" using assms(3) by simp
  have bytes: "drop 0 ?S = take (length ?S - 0) ?L" by (cases "k \<le> length ?L") simp_all
  obtain r' where r': "ReadRecords flat_Read flat_Skip (new_Reader ?S rep c 0) [] [] =
      Some (complete_records 0 (length ?S) ?rs, r')" "lr_reports r' = []"
    using ReadRecords_at [OF assms(1) reader_at_new [of ?S rep c] bytes, of "[]" "[]"] lr_reports_new
    by metis
  define more where "more = complete_records ?p (length ?S) later"
  have acked: "complete_records 0 (length ?S) ?rs = acked @ more"
    using complete_records_append [of 0 acked "length ?S" later] p by (simp add: more_def)
  obtain rest where "later = more @ rest"
    using complete_records_prefix [of later ?p "length ?S"] by (auto simp: more_def)
  moreover have "rest = []" if "length ?L \<le> k"
    using that complete_records_all [of 0 ?rs "length ?S"] acked \<open>later = more @ rest\<close> by simp
  ultimately show ?thesis
    using w r' acked by (intro exI [of _ ?w] exI [of _ more] exI [of _ rest] exI [of _ r']) simp
qed

end
