(* ===== verification/DbWrite.thy ===== *)
theory DbWrite
  imports WriteBatch Log_Recovery
begin

text \<open>
  The write path of \<^verbatim>\<open>db/db_impl.cc\<close> with its concurrency: writers, snapshots and the thread that writes
  the immutable memtable out. A step is what one thread does in one critical section of \<^verbatim>\<open>mutex_\<close> or
  \<^verbatim>\<open>writers_mutex_\<close>, or between two of them; steps of different threads interleave freely. A step
  function returns \<open>None\<close> where an assertion fails. Timers, sleeps, replay iterators and reference
  counts of the memtables are left out: none of them has an effect on the rest. Files of tables are
  represented by the memtables they were built from, the newest first.
\<close>

section \<open>State\<close>

text \<open>Where a thread stands: the next critical section it will enter.\<close>

datatype writer_pc =
  Unborn | AtBegin | AtTicket | AtBackup | AtApply | AtEnd | AtUnlink | AtSetImm
| AtSnapshot | AtLink | AtWait | Returned

text \<open>\<^verbatim>\<open>Writer\<close>, with the arguments and local variables of the call it belongs to. Both pointers to the
  log are the number of its file.\<close>

record Writer =
  w_linked :: bool
  w_has_imm :: bool
  w_wake_me_when_head :: bool
  w_prev :: "nat option"
  w_next :: "nat option"
  w_start_sequence :: u64
  w_end_sequence :: u64
  w_log :: "u64 option"
  w_pc :: writer_pc
  w_updates :: "slice option"
  w_updates_with_guards :: "slice option"
  w_sync :: bool
  w_status :: Status
  w_snapshot :: SequenceNumber

definition new_DbWriter :: Writer where
  "new_DbWriter = \<lparr>w_linked = False, w_has_imm = False, w_wake_me_when_head = False, w_prev = None, w_next = None,
     w_start_sequence = 0, w_end_sequence = 0, w_log = None, w_pc = Unborn, w_updates = None,
     w_updates_with_guards = None, w_sync = False, w_status = OK, w_snapshot = 0\<rparr>"

record DBImpl =
  db_mem :: MemTable
  db_imm :: "MemTable option"
  db_has_imm :: bool
  db_version :: "GuardMetaData list list"
  db_last_sequence :: SequenceNumber
  db_log_number :: u64
  db_prev_log_number :: u64
  db_next_file :: u64
  db_logfile_number :: u64
  db_logs :: "u64 \<Rightarrow> slice log_writer option"
  db_dir :: "u64 set"
  db_tables :: "MemTable list"
  db_bg_error :: Status
  db_backup :: bool
  db_writers :: "nat \<Rightarrow> Writer"
  db_writers_tail :: "nat option"
  db_writers_upper :: u64

definition set_writer :: "nat \<Rightarrow> (Writer \<Rightarrow> Writer) \<Rightarrow> DBImpl \<Rightarrow> DBImpl" where
  "set_writer i f s = s\<lparr>db_writers := (db_writers s)(i := f (db_writers s i))\<rparr>"

text \<open>The state an opened database starts from.\<close>

definition opened :: "SequenceNumber \<Rightarrow> u64 \<Rightarrow> GuardMetaData list list \<Rightarrow> DBImpl" where
  "opened seq n v =
     \<lparr>db_mem = new_MemTable KeyNum, db_imm = None, db_has_imm = False, db_version = v, db_last_sequence = seq,
      db_log_number = n, db_prev_log_number = 0, db_next_file = n + 1, db_logfile_number = n,
      db_logs = [n \<mapsto> new_Writer []], db_dir = {n}, db_tables = [], db_bg_error = OK, db_backup = False,
      db_writers = (\<lambda>_. new_DbWriter), db_writers_tail = None, db_writers_upper = seq\<rparr>"

section \<open>Writing\<close>

definition VersionSet_SetLastSequence :: "SequenceNumber \<Rightarrow> DBImpl \<Rightarrow> DBImpl" where
  "VersionSet_SetLastSequence seq s = (if db_last_sequence s \<le> seq then s\<lparr>db_last_sequence := seq\<rparr> else s)"

definition RecordBackgroundError :: "Status \<Rightarrow> DBImpl \<Rightarrow> DBImpl" where
  "RecordBackgroundError st s = (if status_ok (db_bg_error s) then s\<lparr>db_bg_error := st\<rparr> else s)"

definition start_write :: "nat \<Rightarrow> slice option \<Rightarrow> bool \<Rightarrow> DBImpl \<Rightarrow> DBImpl" where
  "start_write i updates sync s =
     set_writer i (\<lambda>_. new_DbWriter\<lparr>w_pc := AtBegin, w_updates := updates, w_sync := sync\<rparr>) s"

text \<open>The loop of \<^verbatim>\<open>SequenceWriteBegin\<close> leaves its wait when one of these holds. The argument \<open>over\<close> says
  that a memtable uses more memory than the write buffer may.\<close>

definition can_begin :: "(MemTable \<Rightarrow> bool) \<Rightarrow> DBImpl \<Rightarrow> nat \<Rightarrow> bool" where
  "can_begin over s i \<longleftrightarrow>
     \<not> status_ok (db_bg_error s) \<or> w_updates (db_writers s i) \<noteq> None \<and> \<not> over (db_mem s) \<or> db_imm s = None"

text \<open>The first critical section of \<^verbatim>\<open>SequenceWriteBegin\<close>; \<open>st\<close> is what the creation of a log file returns. A
  writer that fails here is not linked, so \<^verbatim>\<open>SequenceWriteEnd\<close> returns at once.\<close>

definition begin_write :: "(MemTable \<Rightarrow> bool) \<Rightarrow> Status \<Rightarrow> DBImpl \<Rightarrow> nat \<Rightarrow> DBImpl option" where
  "begin_write over st s i =
     (let force = (w_updates (db_writers s i) = None) in
      if \<not> status_ok (db_bg_error s) then
        Some (set_writer i (\<lambda>w. w\<lparr>w_status := db_bg_error s, w_pc := Returned\<rparr>) s)
      else if \<not> force \<and> \<not> over (db_mem s) then
        Some (set_writer i (\<lambda>w. w\<lparr>w_log := Some (db_logfile_number s), w_pc := AtTicket\<rparr>) s)
      else if db_prev_log_number s \<noteq> 0 then None
      else let new_log_number = db_next_file s in
        if \<not> status_ok st then Some (set_writer i (\<lambda>w. w\<lparr>w_status := st, w_pc := Returned\<rparr>) s)
        else Some (set_writer i (\<lambda>w. w\<lparr>w_has_imm := True, w_log := Some new_log_number, w_pc := AtTicket\<rparr>)
          (s\<lparr>db_next_file := new_log_number + 1, db_logs := (db_logs s)(new_log_number \<mapsto> new_Writer []),
             db_dir := insert new_log_number (db_dir s), db_logfile_number := new_log_number,
             db_imm := Some (db_mem s), db_mem := new_MemTable KeyNum\<rparr>)))"

definition link_writer :: "nat \<Rightarrow> DBImpl \<Rightarrow> DBImpl" where
  "link_writer i s =
     (let s = set_writer i (\<lambda>w. w\<lparr>w_linked := True, w_next := None\<rparr>) s;
          s = (case db_writers_tail s of
                 None \<Rightarrow> s
               | Some t \<Rightarrow> set_writer i (\<lambda>w. w\<lparr>w_prev := Some t\<rparr>) (set_writer t (\<lambda>w. w\<lparr>w_next := Some i\<rparr>) s))
      in s\<lparr>db_writers_tail := Some i\<rparr>)"

text \<open>The second critical section: the place in the queue and the sequence numbers. The count of a
  batch is an \<^verbatim>\<open>int\<close> and is extended with its sign.\<close>

definition take_ticket :: "DBImpl \<Rightarrow> nat \<Rightarrow> DBImpl" where
  "take_ticket s i =
     (let diff = (case w_updates (db_writers s i) of None \<Rightarrow> 0 | Some b \<Rightarrow> (scast (Count b) :: u64));
          s = link_writer i s;
          ticket = db_writers_upper s + (1 + diff);
          s = s\<lparr>db_writers_upper := ticket\<rparr>
      in set_writer i (\<lambda>w. w\<lparr>w_start_sequence := ticket - diff, w_end_sequence := ticket,
           w_wake_me_when_head := db_backup s, w_pc := (if db_backup s then AtBackup else AtApply)\<rparr>) s)"

definition resume_write :: "DBImpl \<Rightarrow> nat \<Rightarrow> DBImpl" where
  "resume_write s i = set_writer i (\<lambda>w. w\<lparr>w_wake_me_when_head := False, w_pc := AtApply\<rparr>) s"

text \<open>The part of \<^verbatim>\<open>Write\<close> between \<^verbatim>\<open>SequenceWriteBegin\<close> and \<^verbatim>\<open>SequenceWriteEnd\<close>; \<open>st\<close> is what \<^verbatim>\<open>Sync\<close> returns.\<close>

definition apply_write :: "Status \<Rightarrow> DBImpl \<Rightarrow> nat \<Rightarrow> DBImpl option" where
  "apply_write st s i =
     (let w = db_writers s i in
      case w_updates w of
        None \<Rightarrow> Some (set_writer i (\<lambda>w. w\<lparr>w_pc := AtEnd\<rparr>) s)
      | Some updates \<Rightarrow>
          let updates = SetSequence updates (w_start_sequence w) in
          (case SetGuards False updates updates of
             None \<Rightarrow> None
           | Some (st1, updates_with_guards) \<Rightarrow>
               if \<not> status_ok st1 then None
               else (case w_log w of
                  None \<Rightarrow> None
                | Some n \<Rightarrow>
                    (case db_logs s n of
                       None \<Rightarrow> None
                     | Some log \<Rightarrow>
                         (case AddRecord flat_WriteAt log (Contents updates_with_guards) of
                            (ok, log) \<Rightarrow>
                              if \<not> ok then None
                              else Some (set_writer i (\<lambda>w. w\<lparr>w_updates := Some updates,
                                  w_updates_with_guards := Some updates_with_guards,
                                  w_status := (if w_sync w then st else OK), w_pc := AtEnd\<rparr>)
                                (s\<lparr>db_logs := (db_logs s)(n \<mapsto> log)\<rparr>)))))))"

text \<open>The first critical section of \<^verbatim>\<open>SequenceWriteEnd\<close>: the insertion into the current memtable.\<close>

definition end_insert :: "nat list \<Rightarrow> nat option list \<Rightarrow> DBImpl \<Rightarrow> nat \<Rightarrow> (Status \<times> DBImpl) option" where
  "end_insert prev0 obs0 s i =
     (let w = db_writers s i in
      case w_updates_with_guards w of
        None \<Rightarrow> Some (w_status w, s)
      | Some b \<Rightarrow>
          if \<not> status_ok (w_status w) then Some (w_status w, s)
          else (case InsertIntoVersion Bytewise_Compare KeyNum prev0 obs0 b (db_mem s) (Some (db_version s)) of
                  None \<Rightarrow> None
                | Some (st, ins) \<Rightarrow>
                    Some (st, s\<lparr>db_mem := ins_mem ins, db_version := the (ins_version ins)\<rparr>)))"

definition end_write :: "nat list \<Rightarrow> nat option list \<Rightarrow> DBImpl \<Rightarrow> nat \<Rightarrow> DBImpl option" where
  "end_write prev0 obs0 s i =
     (case end_insert prev0 obs0 s i of
        None \<Rightarrow> None
      | Some (st, s) \<Rightarrow>
          let s = (if status_ok st then s else RecordBackgroundError st s);
              s = VersionSet_SetLastSequence (w_end_sequence (db_writers s i)) s
          in Some (set_writer i (\<lambda>w. w\<lparr>w_pc := AtUnlink\<rparr>) s))"

text \<open>The second critical section: the writer leaves the queue.\<close>

definition unlink_prev :: "nat \<Rightarrow> DBImpl \<Rightarrow> DBImpl" where
  "unlink_prev i s =
     (let w = db_writers s i in
      case w_prev w of
        None \<Rightarrow> s
      | Some p \<Rightarrow>
          let s = set_writer p (\<lambda>u. u\<lparr>w_next := w_next w\<rparr>) s
          in if w_has_imm w
             then set_writer i (\<lambda>u. u\<lparr>w_has_imm := False\<rparr>) (set_writer p (\<lambda>u. u\<lparr>w_has_imm := True\<rparr>) s)
             else s)"

definition unlink_next :: "nat \<Rightarrow> DBImpl \<Rightarrow> DBImpl" where
  "unlink_next i s =
     (case w_next (db_writers s i) of
        None \<Rightarrow> s
      | Some n \<Rightarrow> set_writer n (\<lambda>u. u\<lparr>w_prev := w_prev (db_writers s i)\<rparr>) s)"

definition clear_tail :: "nat \<Rightarrow> DBImpl \<Rightarrow> DBImpl option" where
  "clear_tail i s =
     (if db_writers_tail s = Some i
      then if w_next (db_writers s i) = None then Some (s\<lparr>db_writers_tail := None\<rparr>) else None
      else Some s)"

definition unlink_write :: "DBImpl \<Rightarrow> nat \<Rightarrow> DBImpl option" where
  "unlink_write s i =
     map_option (set_writer i (\<lambda>w. w\<lparr>w_pc := AtSetImm\<rparr>)) (clear_tail i (unlink_next i (unlink_prev i s)))"

definition set_imm :: "DBImpl \<Rightarrow> nat \<Rightarrow> DBImpl" where
  "set_imm s i =
     (let w = db_writers s i;
          s = (if w_has_imm w \<and> w_prev w = None then s\<lparr>db_has_imm := (db_imm s \<noteq> None)\<rparr> else s)
      in set_writer i (\<lambda>u. u\<lparr>w_has_imm := w_has_imm w \<and> w_prev w \<noteq> None, w_pc := Returned\<rparr>) s)"

section \<open>Snapshots\<close>

definition start_snapshot :: "nat \<Rightarrow> DBImpl \<Rightarrow> DBImpl" where
  "start_snapshot i s = set_writer i (\<lambda>_. new_DbWriter\<lparr>w_pc := AtSnapshot\<rparr>) s"

definition take_snapshot :: "DBImpl \<Rightarrow> nat \<Rightarrow> DBImpl" where
  "take_snapshot s i = set_writer i (\<lambda>w. w\<lparr>w_snapshot := db_last_sequence s, w_pc := AtLink\<rparr>) s"

text \<open>\<^verbatim>\<open>WaitOutWriters\<close>: entering the queue, and leaving it as its head. The lock is kept in between when
  the queue was empty.\<close>

definition wait_leave :: "DBImpl \<Rightarrow> nat \<Rightarrow> DBImpl option" where
  "wait_leave s i =
     (let s = (case w_next (db_writers s i) of None \<Rightarrow> s | Some n \<Rightarrow> set_writer n (\<lambda>u. u\<lparr>w_prev := None\<rparr>) s)
      in map_option (set_writer i (\<lambda>w. w\<lparr>w_pc := AtSetImm\<rparr>)) (clear_tail i s))"

definition wait_enter :: "DBImpl \<Rightarrow> nat \<Rightarrow> DBImpl option" where
  "wait_enter s i =
     (let s = link_writer i s
      in if w_prev (db_writers s i) = None then wait_leave s i
         else Some (set_writer i (\<lambda>w. w\<lparr>w_wake_me_when_head := True, w_pc := AtWait\<rparr>) s))"

section \<open>Writing the immutable memtable out\<close>

definition DeleteObsoleteLogs :: "DBImpl \<Rightarrow> DBImpl" where
  "DeleteObsoleteLogs s =
     (if db_backup s \<or> \<not> status_ok (db_bg_error s) then s
      else s\<lparr>db_dir := {n \<in> db_dir s. db_log_number s \<le> n \<or> n = db_prev_log_number s}\<rparr>)"

text \<open>A round of \<^verbatim>\<open>CompactMemTableThread\<close> that succeeds; \<open>v\<close> are the guards of the new version.\<close>

definition flush :: "GuardMetaData list list \<Rightarrow> MemTable \<Rightarrow> DBImpl \<Rightarrow> DBImpl" where
  "flush v m s = DeleteObsoleteLogs
     (s\<lparr>db_tables := m # db_tables s, db_version := v, db_prev_log_number := 0,
        db_log_number := db_logfile_number s, db_imm := None, db_has_imm := False\<rparr>)"

section \<open>Steps\<close>

text \<open>What a client passes to \<^verbatim>\<open>Write\<close>: nothing, or a batch it built.\<close>

definition client_batch :: "batch_op list \<Rightarrow> bool" where
  "client_batch ops \<longleftrightarrow> list_all op_insertable ops \<and> list_all (\<lambda>x. \<not> is_guard x) ops \<and> length ops < 2 ^ 31"

definition client_updates :: "slice option \<Rightarrow> bool" where
  "client_updates updates \<longleftrightarrow> updates = None \<or> (\<exists>ops. client_batch ops \<and> updates = Some (foldl add_op WriteBatch_Clear ops))"

inductive db_step ::
  "(MemTable \<Rightarrow> bool) \<Rightarrow> nat list \<Rightarrow> nat option list \<Rightarrow> DBImpl \<Rightarrow> DBImpl option \<Rightarrow> bool"
  for over prev0 obs0
where
  step_start: "w_pc (db_writers s i) = Unborn \<Longrightarrow> client_updates updates \<Longrightarrow>
    db_step over prev0 obs0 s (Some (start_write i updates sync s))"
| step_begin: "w_pc (db_writers s i) = AtBegin \<Longrightarrow> can_begin over s i \<Longrightarrow> db_step over prev0 obs0 s (begin_write over st s i)"
| step_ticket: "w_pc (db_writers s i) = AtTicket \<Longrightarrow> db_step over prev0 obs0 s (Some (take_ticket s i))"
| step_resume: "w_pc (db_writers s i) = AtBackup \<Longrightarrow> \<not> db_backup s \<Longrightarrow> db_step over prev0 obs0 s (Some (resume_write s i))"
| step_apply: "w_pc (db_writers s i) = AtApply \<Longrightarrow> db_step over prev0 obs0 s (apply_write st s i)"
| step_end: "w_pc (db_writers s i) = AtEnd \<Longrightarrow> db_step over prev0 obs0 s (end_write prev0 obs0 s i)"
| step_unlink: "w_pc (db_writers s i) = AtUnlink \<Longrightarrow> db_step over prev0 obs0 s (unlink_write s i)"
| step_set_imm: "w_pc (db_writers s i) = AtSetImm \<Longrightarrow> db_step over prev0 obs0 s (Some (set_imm s i))"
| step_start_snapshot: "w_pc (db_writers s i) = Unborn \<Longrightarrow> db_step over prev0 obs0 s (Some (start_snapshot i s))"
| step_snapshot: "w_pc (db_writers s i) = AtSnapshot \<Longrightarrow> db_step over prev0 obs0 s (Some (take_snapshot s i))"
| step_enter: "w_pc (db_writers s i) = AtLink \<Longrightarrow> db_step over prev0 obs0 s (wait_enter s i)"
| step_leave: "w_pc (db_writers s i) = AtWait \<Longrightarrow> w_prev (db_writers s i) = None \<Longrightarrow> db_step over prev0 obs0 s (wait_leave s i)"
| step_flush: "db_imm s = Some m \<Longrightarrow> length v = kNumLevels \<Longrightarrow> db_step over prev0 obs0 s (Some (flush v m s))"
| step_flush_fails: "db_imm s = Some m \<Longrightarrow> \<not> status_ok st \<Longrightarrow> db_step over prev0 obs0 s (Some (RecordBackgroundError st s))"
| step_backup: "db_step over prev0 obs0 s (Some (s\<lparr>db_backup := b\<rparr>))"

text \<open>The states of a run that hands out fewer than \<open>2 ^ 55\<close> sequence numbers.\<close>

inductive db_reach ::
  "(MemTable \<Rightarrow> bool) \<Rightarrow> nat list \<Rightarrow> nat option list \<Rightarrow> DBImpl \<Rightarrow> DBImpl \<Rightarrow> bool"
  for over prev0 obs0 s0
where
  reach_start: "db_reach over prev0 obs0 s0 s0"
| reach_step: "db_reach over prev0 obs0 s0 s \<Longrightarrow> db_step over prev0 obs0 s (Some s') \<Longrightarrow>
    db_writers_upper s \<le> db_writers_upper s' \<Longrightarrow> db_writers_upper s' \<le> 2 ^ 55 \<Longrightarrow> db_reach over prev0 obs0 s0 s'"

lemma scast_count: "n < 2 ^ 31 \<Longrightarrow> (scast (of_nat n :: u32) :: u64) = of_nat n"
proof -
  assume n: "n < 2 ^ 31"
  have "sint (of_nat n :: u32) = int n"
    using n by (simp add: sint_uint uint_nat signed_take_bit_int_eq_self)
  then show ?thesis by (metis of_int_of_nat_eq of_int_sint)
qed

section \<open>What a writer is, apart from its place in the queue\<close>

definition core :: "Writer \<Rightarrow> Writer" where
  "core w = w\<lparr>w_linked := False, w_has_imm := False, w_wake_me_when_head := False, w_prev := None, w_next := None\<rparr>"

abbreviation cores :: "DBImpl \<Rightarrow> nat \<Rightarrow> Writer" where
  "cores s i \<equiv> core (db_writers s i)"

lemma core_simps [simp]:
  "core (w\<lparr>w_linked := a\<rparr>) = core w" "core (w\<lparr>w_has_imm := a\<rparr>) = core w" "core (w\<lparr>w_wake_me_when_head := a\<rparr>) = core w"
  "core (w\<lparr>w_prev := p\<rparr>) = core w" "core (w\<lparr>w_next := p\<rparr>) = core w"
  "w_start_sequence (core w) = w_start_sequence w" "w_end_sequence (core w) = w_end_sequence w" "w_log (core w) = w_log w"
  "w_pc (core w) = w_pc w" "w_updates (core w) = w_updates w" "w_updates_with_guards (core w) = w_updates_with_guards w"
  "w_status (core w) = w_status w" "w_sync (core w) = w_sync w" "w_snapshot (core w) = w_snapshot w"
  by (simp_all add: core_def)

lemma db_writers_set_writer: "db_writers (set_writer i f s) j = (if j = i then f (db_writers s i) else db_writers s j)"
  by (simp add: set_writer_def)

text \<open>The parts of the state other than the writers.\<close>

definition rest :: "DBImpl \<Rightarrow> DBImpl" where
  "rest s = s\<lparr>db_writers := (\<lambda>_. new_DbWriter), db_writers_tail := None\<rparr>"

lemma rest_simps [simp]:
  "rest (set_writer i f s) = rest s" "rest (s\<lparr>db_writers_tail := t\<rparr>) = rest s"
  by (simp_all add: rest_def set_writer_def)

lemma rest_eqD:
  assumes "rest s = rest t"
  shows "db_mem s = db_mem t" "db_imm s = db_imm t" "db_version s = db_version t" "db_last_sequence s = db_last_sequence t"
    "db_prev_log_number s = db_prev_log_number t" "db_logfile_number s = db_logfile_number t" "db_logs s = db_logs t"
    "db_tables s = db_tables t" "db_bg_error s = db_bg_error t" "db_backup s = db_backup t" "db_writers_upper s = db_writers_upper t"
  using arg_cong [OF assms, of db_mem] arg_cong [OF assms, of db_imm] arg_cong [OF assms, of db_version]
    arg_cong [OF assms, of db_last_sequence] arg_cong [OF assms, of db_prev_log_number] arg_cong [OF assms, of db_logfile_number]
    arg_cong [OF assms, of db_logs] arg_cong [OF assms, of db_tables] arg_cong [OF assms, of db_bg_error]
    arg_cong [OF assms, of db_backup] arg_cong [OF assms, of db_writers_upper]
  by (simp_all add: rest_def)

lemma link_rest: "rest (link_writer i s) = rest s" "cores (link_writer i s) j = cores s j"
  by (auto simp: link_writer_def Let_def db_writers_set_writer split: option.splits)

lemma unlink_rest:
  "rest (unlink_prev i s) = rest s" "cores (unlink_prev i s) j = cores s j"
  "rest (unlink_next i s) = rest s" "cores (unlink_next i s) j = cores s j"
  by (auto simp: unlink_prev_def unlink_next_def Let_def db_writers_set_writer split: option.splits)

lemma clear_tail_rest: "clear_tail i s = Some t \<Longrightarrow> rest t = rest s \<and> db_writers t = db_writers s"
  by (auto simp: clear_tail_def split: if_splits)

lemma AddRecord_loop_flat_ok: "fst (AddRecord_loop flat_WriteAt dest offset ptr b)"
proof (induction "flat_WriteAt" dest offset ptr b rule: AddRecord_loop.induct)
  case (1 dest offset ptr b)
  then show ?case
    by (subst AddRecord_loop.simps)
      (auto simp: Let_def EmitPhysicalRecordAt_def flat_WriteAt_def split: prod.splits)
qed

lemma AddRecord_flat_ok: "fst (AddRecord flat_WriteAt lw x)"
  using AddRecord_loop_flat_ok [of "lw_dest lw" "lw_offset lw" x True]
  by (simp add: AddRecord_def Let_def case_prod_beta)

end
