(* ===== verification/Writer_Queue.thy ===== *)
theory Writer_Queue
  imports Prelude
begin

text \<open>
  The doubly linked queue of the writers of \<^verbatim>\<open>db/db_impl.cc\<close>, as its pointers: what linking at the tail and
  unlinking anywhere keep of it.
\<close>

text \<open>Membership \<open>q\<close>, pointers \<open>p\<close> and \<open>n\<close> and the tail: the pointers of members lead to members and are
  inverse to each other, along increasing ranks. Members need not form one list.\<close>

definition queue_ok :: "(nat \<Rightarrow> bool) \<Rightarrow> (nat \<Rightarrow> nat option) \<Rightarrow> (nat \<Rightarrow> nat option) \<Rightarrow> nat option \<Rightarrow> bool" where
  "queue_ok q p n tail \<longleftrightarrow> (\<exists>rank :: nat \<Rightarrow> nat. \<forall>i. q i \<longrightarrow>
     (\<forall>k. p i = Some k \<longrightarrow> q k \<and> n k = Some i) \<and>
     (\<forall>k. n i = Some k \<longrightarrow> q k \<and> p k = Some i \<and> rank i < rank k)) \<and>
   (\<forall>t. tail = Some t \<longrightarrow> q t \<and> n t = None)"

lemma queue_link:
  assumes ok: "queue_ok q p n tail" and i: "\<not> q i" "p i = None"
  shows "queue_ok (q(i := True)) (p(i := tail)) (case tail of None \<Rightarrow> n(i := None) | Some t \<Rightarrow> (n(i := None))(t := Some i)) (Some i)"
proof (cases tail)
  case None
  then show ?thesis using ok i unfolding queue_ok_def by (auto simp: fun_upd_def; metis)
next
  case (Some t)
  obtain rank :: "nat \<Rightarrow> nat" where r: "\<And>j k. q j \<Longrightarrow> p j = Some k \<Longrightarrow> q k \<and> n k = Some j"
      "\<And>j k. q j \<Longrightarrow> n j = Some k \<Longrightarrow> q k \<and> p k = Some j \<and> rank j < rank k" and t: "q t" "n t = None"
    using ok Some unfolding queue_ok_def by blast
  have "t \<noteq> i" using t i by auto
  have "\<forall>j. (q(i := True)) j \<longrightarrow>
      (\<forall>k. (p(i := tail)) j = Some k \<longrightarrow> (q(i := True)) k \<and> ((n(i := None))(t := Some i)) k = Some j) \<and>
      (\<forall>k. ((n(i := None))(t := Some i)) j = Some k \<longrightarrow> (q(i := True)) k \<and> (p(i := tail)) k = Some j \<and>
        (rank(i := rank t + 1)) j < (rank(i := rank t + 1)) k)"
  proof (intro allI impI conjI, goal_cases)
    case (1 j k) then show ?case using r(1) [of j k] t Some by (auto split: if_splits)
  next
    case (2 j k) then show ?case using r(1) [of j k] t i Some \<open>t \<noteq> i\<close> by (auto split: if_splits)
  next
    case (3 j k) then show ?case using r(2) [of j k] by (auto split: if_splits)
  next
    case (4 j k) then show ?case using r(2) [of j k] i Some by (auto split: if_splits)
  next
    case (5 j k) then show ?case using r(2) [of j k] i \<open>t \<noteq> i\<close> by (auto split: if_splits)
  qed
  moreover have "\<forall>u. Some i = Some u \<longrightarrow> (q(i := True)) u \<and> ((n(i := None))(t := Some i)) u = None"
    using \<open>t \<noteq> i\<close> by simp
  ultimately show ?thesis unfolding queue_ok_def Some option.case by blast
qed

lemma queue_unlink:
  assumes ok: "queue_ok q p n tail" and i: "q i"
  shows "queue_ok (q(i := False)) (case n i of None \<Rightarrow> p | Some k \<Rightarrow> p(k := p i)) (case p i of None \<Rightarrow> n | Some k \<Rightarrow> n(k := n i))
      (if tail = Some i then None else tail)"
    and "tail = Some i \<Longrightarrow> n i = None" "p i \<noteq> Some i" "n i \<noteq> Some i"
proof -
  obtain rank :: "nat \<Rightarrow> nat" where r: "\<And>j k. q j \<Longrightarrow> p j = Some k \<Longrightarrow> q k \<and> n k = Some j"
      "\<And>j k. q j \<Longrightarrow> n j = Some k \<Longrightarrow> q k \<and> p k = Some j \<and> rank j < rank k" and t: "\<And>t. tail = Some t \<Longrightarrow> q t \<and> n t = None"
    using ok unfolding queue_ok_def by blast
  show "tail = Some i \<Longrightarrow> n i = None" using t [of i] by simp
  show self: "p i \<noteq> Some i" "n i \<noteq> Some i" using r(1) [OF i, of i] r(2) [OF i, of i] by auto
  let ?p = "case n i of None \<Rightarrow> p | Some k \<Rightarrow> p(k := p i)" and ?n = "case p i of None \<Rightarrow> n | Some k \<Rightarrow> n(k := n i)"
  have p: "?p j = (if n i = Some j then p i else p j)" for j by (auto split: option.splits)
  have n: "?n j = (if p i = Some j then n i else n j)" for j by (auto split: option.splits)
  have "\<forall>j. (q(i := False)) j \<longrightarrow>
      (\<forall>k. ?p j = Some k \<longrightarrow> (q(i := False)) k \<and> ?n k = Some j) \<and>
      (\<forall>k. ?n j = Some k \<longrightarrow> (q(i := False)) k \<and> ?p k = Some j \<and> rank j < rank k)"
    unfolding p n
  proof (intro allI impI, goal_cases)
    case (1 j)
    then have j: "j \<noteq> i" "q j" by (simp_all split: if_splits)
    have a: "k \<noteq> i \<and> q k \<and> (if p i = Some k then n i else n k) = Some j"
      if "(if n i = Some j then p i else p j) = Some k" for k
      using that r(1) [OF i, of k] r(1) [OF j(2), of k] r(2) [OF i, of j] r(1) [OF j(2), of i] j self
      by (cases "n i = Some j"; cases "p i = Some k") auto
    have b: "k \<noteq> i \<and> q k \<and> (if n i = Some k then p i else p k) = Some j \<and> rank j < rank k"
      if "(if p i = Some j then n i else n j) = Some k" for k
      using that r(2) [OF i, of k] r(2) [OF j(2), of k] r(1) [OF i, of j] r(2) [OF j(2), of i] j self
      by (cases "p i = Some j"; cases "n i = Some k") auto
    show ?case using a b by simp
  qed
  moreover have "\<forall>t. (if tail = Some i then None else tail) = Some t \<longrightarrow> (q(i := False)) t \<and> ?n t = None"
    unfolding n using t r(1) [OF i] by (auto split: if_splits)
  ultimately show "queue_ok (q(i := False)) ?p ?n (if tail = Some i then None else tail)" unfolding queue_ok_def by blast
qed

lemma queue_ok_cong:
  assumes "queue_ok q p n tail" "\<And>i. q' i = q i" "\<And>i. q i \<Longrightarrow> p' i = p i \<and> n' i = n i"
  shows "queue_ok q' p' n' tail"
proof -
  obtain rank :: "nat \<Rightarrow> nat" where r: "\<And>j k. q j \<Longrightarrow> p j = Some k \<Longrightarrow> q k \<and> n k = Some j"
      "\<And>j k. q j \<Longrightarrow> n j = Some k \<Longrightarrow> q k \<and> p k = Some j \<and> rank j < rank k" and t: "\<And>t. tail = Some t \<Longrightarrow> q t \<and> n t = None"
    using assms(1) unfolding queue_ok_def by blast
  have "q' j \<Longrightarrow> p' j = Some k \<Longrightarrow> q' k \<and> n' k = Some j" "q' j \<Longrightarrow> n' j = Some k \<Longrightarrow> q' k \<and> p' k = Some j \<and> rank j < rank k"
    "tail = Some u \<Longrightarrow> q' u \<and> n' u = None" for j k u
    using r [of j k] t [of u] assms(2) [of j] assms(2) [of k] assms(2) [of u] assms(3) [of j] assms(3) [of k] assms(3) [of u] by auto
  then show ?thesis unfolding queue_ok_def by blast
qed

end
