(* ===== verification/DbWrite_Inv.thy ===== *)
theory DbWrite_Inv
  imports DbWrite Writer_Queue
begin

text \<open>
  What holds in every state of the concurrent write path: writers own disjoint ranges of sequence
  numbers, the memtables hold exactly writes of writers that got as far as inserting, a write that
  was acknowledged is in one of them and below the last sequence number, and the queue's pointers
  lead to queued writers only.
\<close>

section \<open>The invariant\<close>

lemma core_push [simp]:
  "core (w\<lparr>w_start_sequence := a\<rparr>) = (core w)\<lparr>w_start_sequence := a\<rparr>" "core (w\<lparr>w_end_sequence := a\<rparr>) = (core w)\<lparr>w_end_sequence := a\<rparr>"
  "core (w\<lparr>w_log := l\<rparr>) = (core w)\<lparr>w_log := l\<rparr>" "core (w\<lparr>w_pc := p\<rparr>) = (core w)\<lparr>w_pc := p\<rparr>"
  "core (w\<lparr>w_updates := b\<rparr>) = (core w)\<lparr>w_updates := b\<rparr>" "core (w\<lparr>w_updates_with_guards := b\<rparr>) = (core w)\<lparr>w_updates_with_guards := b\<rparr>"
  "core (w\<lparr>w_status := st\<rparr>) = (core w)\<lparr>w_status := st\<rparr>" "core (w\<lparr>w_snapshot := q\<rparr>) = (core w)\<lparr>w_snapshot := q\<rparr>"
  by (simp_all add: core_def)

definition with_guards :: "batch_op list \<Rightarrow> batch_op list" where
  "with_guards ops = ops @ concat (map guard_ops ops)"

fun unnumbered :: "writer_pc \<Rightarrow> bool" where
  "unnumbered AtBackup = False"
| "unnumbered AtApply = False"
| "unnumbered AtEnd = False"
| "unnumbered AtUnlink = False"
| "unnumbered AtSetImm = False"
| "unnumbered Returned = False"
| "unnumbered _ = True"

fun inserted :: "writer_pc \<Rightarrow> bool" where
  "inserted AtUnlink = True"
| "inserted AtSetImm = True"
| "inserted Returned = True"
| "inserted _ = False"

lemma inserted_numbered: "inserted pc \<Longrightarrow> \<not> unnumbered pc"
  by (cases pc) simp_all

text \<open>A writer, the operations \<open>xs\<close> of its batch and the numbers it owns, up to the last ticket \<open>u\<close>.\<close>

definition writer_inv :: "batch_op list \<Rightarrow> u64 \<Rightarrow> Writer \<Rightarrow> bool" where
  "writer_inv xs u w \<longleftrightarrow>
     (case w_updates w of None \<Rightarrow> xs = [] | Some b \<Rightarrow> client_batch xs \<and> (\<exists>q. b = batch_of q xs)) \<and>
     (w_pc w = AtEnd \<longrightarrow> w_updates_with_guards w =
        (if w_updates w = None then None else Some (batch_of (w_start_sequence w) (with_guards xs)))) \<and>
     (unnumbered (w_pc w) \<longrightarrow> w_end_sequence w = 0 \<and> w_updates_with_guards w = None) \<and>
     (w_pc w \<in> {AtBackup, AtApply} \<longrightarrow> w_updates_with_guards w = None) \<and>
     (w_pc w \<in> {AtBackup, AtApply, AtEnd} \<longrightarrow> w_end_sequence w \<noteq> 0) \<and>
     (inserted (w_pc w) \<and> w_updates w \<noteq> None \<and> status_ok (w_status w) \<longrightarrow> w_end_sequence w \<noteq> 0) \<and>
     (w_pc w \<in> {AtSnapshot, AtLink, AtWait} \<longrightarrow> w_updates w = None) \<and>
     (w_end_sequence w \<noteq> 0 \<longrightarrow> unat (w_start_sequence w) + length xs = unat (w_end_sequence w) \<and>
        w_start_sequence w \<noteq> 0 \<and> w_end_sequence w \<le> u)"

definition apart :: "Writer \<Rightarrow> Writer \<Rightarrow> bool" where
  "apart w v \<longleftrightarrow> w_end_sequence w = 0 \<or> w_end_sequence v = 0 \<or>
     w_end_sequence w < w_start_sequence v \<or> w_end_sequence v < w_start_sequence w"

definition seq_inv :: "(nat \<Rightarrow> batch_op list) \<Rightarrow> (nat \<Rightarrow> Writer) \<Rightarrow> u64 \<Rightarrow> bool" where
  "seq_inv ops C u \<longleftrightarrow> (\<forall>i. writer_inv (ops i) u (C i)) \<and> (\<forall>i j. i \<noteq> j \<longrightarrow> apart (C i) (C j))"

definition writes_of :: "batch_op list \<Rightarrow> Writer \<Rightarrow> mem_write set" where
  "writes_of xs w = set (op_writes True (w_start_sequence w) xs)"

definition holds :: "MemTable \<Rightarrow> mem_write list \<Rightarrow> bool" where
  "holds m ws \<longleftrightarrow> (\<exists>es. bytewise_mem.mem_holds m es ws) \<and> distinct (map fst ws)"

definition memtables :: "DBImpl \<Rightarrow> MemTable list" where
  "memtables s = db_mem s # (case db_imm s of None \<Rightarrow> [] | Some m \<Rightarrow> [m]) @ db_tables s"

text \<open>The tables hold writes of writers that have inserted; and all writes of those that succeeded.\<close>

definition mem_inv :: "(nat \<Rightarrow> batch_op list) \<Rightarrow> (nat \<Rightarrow> Writer) \<Rightarrow> MemTable list \<Rightarrow> mem_write list list \<Rightarrow> SequenceNumber \<Rightarrow> bool" where
  "mem_inv ops C ms W l \<longleftrightarrow> list_all2 holds ms W \<and>
     (\<forall>w\<in>set (concat W). \<exists>i. inserted (w_pc (C i)) \<and> w_end_sequence (C i) \<noteq> 0 \<and> w \<in> writes_of (ops i) (C i)) \<and>
     (\<forall>i. inserted (w_pc (C i)) \<and> w_end_sequence (C i) \<noteq> 0 \<and> status_ok (w_status (C i)) \<longrightarrow>
        w_end_sequence (C i) \<le> l \<and> writes_of (ops i) (C i) \<subseteq> set (concat W))"

definition log_inv :: "(nat \<Rightarrow> Writer) \<Rightarrow> DBImpl \<Rightarrow> bool" where
  "log_inv C s \<longleftrightarrow> (\<forall>i. w_pc (C i) \<in> {AtTicket, AtBackup, AtApply} \<longrightarrow> (\<exists>n. w_log (C i) = Some n \<and> db_logs s n \<noteq> None)) \<and>
     db_logs s (db_logfile_number s) \<noteq> None \<and> db_prev_log_number s = 0 \<and> length (db_version s) = kNumLevels \<and>
     db_writers_upper s \<le> 2 ^ 55"

definition db_inv :: "DBImpl \<Rightarrow> bool" where
  "db_inv s \<longleftrightarrow> (\<exists>ops W. seq_inv ops (cores s) (db_writers_upper s) \<and>
     mem_inv ops (cores s) (memtables s) W (db_last_sequence s) \<and> log_inv (cores s) s)"

lemma writer_invD:
  assumes "writer_inv xs u w"
  shows "case w_updates w of None \<Rightarrow> xs = [] | Some b \<Rightarrow> client_batch xs \<and> (\<exists>q. b = batch_of q xs)"
    "w_pc w = AtEnd \<Longrightarrow> w_updates_with_guards w =
      (if w_updates w = None then None else Some (batch_of (w_start_sequence w) (with_guards xs)))"
    "unnumbered (w_pc w) \<Longrightarrow> w_end_sequence w = 0" "unnumbered (w_pc w) \<Longrightarrow> w_updates_with_guards w = None"
    "w_pc w \<in> {AtBackup, AtApply} \<Longrightarrow> w_updates_with_guards w = None"
    "w_pc w \<in> {AtBackup, AtApply, AtEnd} \<Longrightarrow> w_end_sequence w \<noteq> 0"
    "w_end_sequence w \<noteq> 0 \<Longrightarrow> unat (w_start_sequence w) + length xs = unat (w_end_sequence w) \<and>
      w_start_sequence w \<noteq> 0 \<and> w_end_sequence w \<le> u"
    "inserted (w_pc w) \<Longrightarrow> w_updates w \<noteq> None \<Longrightarrow> status_ok (w_status w) \<Longrightarrow> w_end_sequence w \<noteq> 0"
    "w_pc w \<in> {AtSnapshot, AtLink, AtWait} \<Longrightarrow> w_updates w = None"
  using assms by (simp_all only: writer_inv_def simp_thms)

lemma writer_inv_mono:
  assumes "writer_inv xs u w" "u \<le> u'" shows "writer_inv xs u' w"
proof -
  have "w_end_sequence w \<noteq> 0 \<longrightarrow> unat (w_start_sequence w) + length xs = unat (w_end_sequence w) \<and>
      w_start_sequence w \<noteq> 0 \<and> w_end_sequence w \<le> u'"
    using writer_invD(7) [OF assms(1)] assms(2) by (meson order_trans)
  with assms(1) show ?thesis unfolding writer_inv_def by (elim conjE) (intro conjI)
qed

lemma apart_sym: "apart w v \<longleftrightarrow> apart v w"
  by (auto simp: apart_def)

lemma seq_inv_update:
  assumes inv: "seq_inv ops C u" and w: "writer_inv xs u' w" "u \<le> u'"
    and num: "w_end_sequence w = 0 \<or> u < w_start_sequence w \<or>
      w_start_sequence w = w_start_sequence (C i) \<and> w_end_sequence w = w_end_sequence (C i)"
  shows "seq_inv (ops(i := xs)) (C(i := w)) u'"
proof -
  have C: "writer_inv (ops j) u (C j)" "j \<noteq> k \<Longrightarrow> apart (C j) (C k)" for j k
    using inv by (simp_all add: seq_inv_def)
  have bound: "w_end_sequence (C j) = 0 \<or> w_end_sequence (C j) \<le> u" for j
    using C(1) [of j] unfolding writer_inv_def by blast
  have new: "apart w (C j)" if "j \<noteq> i" for j
    using num bound [of j] C(2) [of i j] that unfolding apart_def by force
  then have "apart (C j) w" if "j \<noteq> i" for j using that apart_sym by blast
  moreover have "writer_inv (ops j) u' (C j)" for j using C(1) w(2) by (rule writer_inv_mono)
  ultimately show ?thesis using C(2) w(1) new by (simp add: seq_inv_def)
qed

lemma mem_inv_update:
  assumes inv: "mem_inv ops C ms W l" and l: "l \<le> l'"
    and keep: "inserted (w_pc (C i)) \<Longrightarrow> inserted (w_pc w) \<and> xs = ops i \<and> w_start_sequence w = w_start_sequence (C i) \<and>
        w_end_sequence w = w_end_sequence (C i) \<and> w_status w = w_status (C i)"
    and new: "inserted (w_pc w) \<Longrightarrow> w_end_sequence w \<noteq> 0 \<Longrightarrow> status_ok (w_status w) \<Longrightarrow> \<not> inserted (w_pc (C i)) \<Longrightarrow>
        w_end_sequence w \<le> l' \<and> writes_of xs w \<subseteq> set (concat W)"
  shows "mem_inv (ops(i := xs)) (C(i := w)) ms W l'"
proof -
  have "\<exists>j. inserted (w_pc ((C(i := w)) j)) \<and> w_end_sequence ((C(i := w)) j) \<noteq> 0 \<and> x \<in> writes_of ((ops(i := xs)) j) ((C(i := w)) j)"
    if x: "x \<in> set (concat W)" for x
  proof -
    obtain j where j: "inserted (w_pc (C j))" "w_end_sequence (C j) \<noteq> 0" "x \<in> writes_of (ops j) (C j)"
      using inv x unfolding mem_inv_def by blast
    then show ?thesis
      using keep by (intro exI [of _ j]) (auto simp: writes_of_def)
  qed
  moreover have "w_end_sequence ((C(i := w)) j) \<le> l' \<and> writes_of ((ops(i := xs)) j) ((C(i := w)) j) \<subseteq> set (concat W)"
    if j: "inserted (w_pc ((C(i := w)) j))" "w_end_sequence ((C(i := w)) j) \<noteq> 0" "status_ok (w_status ((C(i := w)) j))" for j
  proof (cases "j = i \<and> \<not> inserted (w_pc (C i))")
    case True
    with new j show ?thesis by simp
  next
    case False
    have old: "w_end_sequence (C j) \<le> l \<and> writes_of (ops j) (C j) \<subseteq> set (concat W)"
      if "inserted (w_pc (C j))" "w_end_sequence (C j) \<noteq> 0" "status_ok (w_status (C j))"
      using inv that unfolding mem_inv_def by blast
    show ?thesis
    proof (cases "j = i")
      case True
      with False keep old j l show ?thesis by (auto simp: writes_of_def)
    next
      case other: False
      with old j l show ?thesis by auto
    qed
  qed
  ultimately show ?thesis using inv unfolding mem_inv_def by blast
qed

lemma mem_inv_insert:
  assumes inv: "mem_inv ops C ms W l" "\<not> inserted (w_pc (C i))" and w: "inserted (w_pc w)" "w_end_sequence w \<noteq> 0"
    and l: "w_end_sequence w \<le> l'" "l \<le> l'" and W': "list_all2 holds ms' W'" "set (concat W') = writes_of (ops i) w \<union> set (concat W)"
  shows "mem_inv (ops(i := ops i)) (C(i := w)) ms' W' l'"
  unfolding mem_inv_def
proof (intro conjI ballI allI impI)
  show "list_all2 holds ms' W'" by (rule W'(1))
next
  fix x assume "x \<in> set (concat W')"
  then consider "x \<in> writes_of (ops i) w" | "x \<in> set (concat W)" unfolding W'(2) by blast
  then show "\<exists>j. inserted (w_pc ((C(i := w)) j)) \<and> w_end_sequence ((C(i := w)) j) \<noteq> 0 \<and> x \<in> writes_of ((ops(i := ops i)) j) ((C(i := w)) j)"
  proof cases
    case 1
    then show ?thesis using w by (intro exI [of _ i]) simp
  next
    case 2
    then obtain j where "inserted (w_pc (C j))" "w_end_sequence (C j) \<noteq> 0" "x \<in> writes_of (ops j) (C j)"
      using inv(1) unfolding mem_inv_def by blast
    then show ?thesis using inv(2) by (intro exI [of _ j]) auto
  qed
next
  fix j assume j: "inserted (w_pc ((C(i := w)) j)) \<and> w_end_sequence ((C(i := w)) j) \<noteq> 0 \<and> status_ok (w_status ((C(i := w)) j))"
  have "j \<noteq> i \<Longrightarrow> w_end_sequence (C j) \<le> l \<and> writes_of (ops j) (C j) \<subseteq> set (concat W)"
    using inv(1) j unfolding mem_inv_def by simp
  with l show "w_end_sequence ((C(i := w)) j) \<le> l'" by (cases "j = i") auto
  show "writes_of ((ops(i := ops i)) j) ((C(i := w)) j) \<subseteq> set (concat W')"
    using \<open>j \<noteq> i \<Longrightarrow> _\<close> unfolding W'(2) by (cases "j = i") auto
qed

section \<open>Every step keeps the invariant\<close>

lemma db_inv_one:
  assumes inv: "seq_inv ops (cores s) (db_writers_upper s)" "log_inv (cores s) s"
    and C': "\<And>j. cores s' j = (if j = i then w else cores s j)"
    and logs: "\<And>n. db_logs s n \<noteq> None \<Longrightarrow> db_logs s' n \<noteq> None" "db_logs s' (db_logfile_number s') \<noteq> None"
      "db_prev_log_number s' = 0" "length (db_version s') = kNumLevels"
    and upper: "db_writers_upper s \<le> db_writers_upper s'" "db_writers_upper s' \<le> 2 ^ 55"
    and w: "writer_inv xs (db_writers_upper s') w"
      "w_end_sequence w = 0 \<or> db_writers_upper s < w_start_sequence w \<or>
        w_start_sequence w = w_start_sequence (cores s i) \<and> w_end_sequence w = w_end_sequence (cores s i)"
      "w_pc w \<in> {AtTicket, AtBackup, AtApply} \<Longrightarrow> \<exists>n. w_log w = Some n \<and> db_logs s' n \<noteq> None"
    and mem: "mem_inv (ops(i := xs)) ((\<lambda>j. cores s j)(i := w)) (memtables s') W (db_last_sequence s')"
  shows "db_inv s'"
proof -
  have C: "(\<lambda>j. cores s' j) = (\<lambda>j. cores s j)(i := w)" using C' by (intro ext) simp
  have "seq_inv (ops(i := xs)) (\<lambda>j. cores s' j) (db_writers_upper s')"
    unfolding C using inv(1) w(1) upper(1) w(2) by (rule seq_inv_update)
  moreover have "log_inv (\<lambda>j. cores s' j) s'"
    using inv(2) logs upper(2) w(3) unfolding C log_inv_def by (auto simp del: core_simps)
  ultimately show ?thesis unfolding db_inv_def using mem [folded C] by blast
qed

text \<open>The steps that change one writer and nothing the invariant reads besides.\<close>

lemma db_inv_private:
  assumes inv: "seq_inv ops (cores s) (db_writers_upper s)" "log_inv (cores s) s"
      "mem_inv ops (cores s) (memtables s) W (db_last_sequence s)"
    and same: "rest s' = rest s" and C': "\<And>j. cores s' j = (if j = i then w else cores s j)"
    and w: "writer_inv xs (db_writers_upper s) w"
      "w_end_sequence w = 0 \<or> w_start_sequence w = w_start_sequence (cores s i) \<and> w_end_sequence w = w_end_sequence (cores s i)"
      "w_pc w \<in> {AtTicket, AtBackup, AtApply} \<Longrightarrow> \<exists>n. w_log w = Some n \<and> db_logs s n \<noteq> None"
      "inserted (w_pc (cores s i)) \<Longrightarrow> inserted (w_pc w) \<and> xs = ops i \<and> w_start_sequence w = w_start_sequence (cores s i) \<and>
        w_end_sequence w = w_end_sequence (cores s i) \<and> w_status w = w_status (cores s i)"
      "inserted (w_pc w) \<Longrightarrow> w_end_sequence w \<noteq> 0 \<Longrightarrow> inserted (w_pc (cores s i))"
  shows "db_inv s'"
proof (rule db_inv_one [OF inv(1,2) C'])
  note eqs = rest_eqD [OF same]
  show "mem_inv (ops(i := xs)) ((\<lambda>j. cores s j)(i := w)) (memtables s') W (db_last_sequence s')"
    unfolding memtables_def eqs
    by (rule mem_inv_update [OF inv(3) [unfolded memtables_def] order_refl]) (use w(4,5) in blast)+
qed (use rest_eqD [OF same] inv(2) w in \<open>auto simp: log_inv_def\<close>)

lemma db_invE:
  assumes "db_inv s"
  obtains ops W where "seq_inv ops (cores s) (db_writers_upper s)" "log_inv (cores s) s"
    "mem_inv ops (cores s) (memtables s) W (db_last_sequence s)" "writer_inv (ops i) (db_writers_upper s) (cores s i)"
  using assms unfolding db_inv_def seq_inv_def by blast

lemma inv_start:
  assumes "db_inv s" "w_pc (db_writers s i) = Unborn" "client_updates updates"
  shows "db_inv (start_write i updates sync s)"
proof -
  from assms(1) obtain ops W where inv: "seq_inv ops (cores s) (db_writers_upper s)" "log_inv (cores s) s"
    "mem_inv ops (cores s) (memtables s) W (db_last_sequence s)" "writer_inv (ops i) (db_writers_upper s) (cores s i)"
    by (rule db_invE)
  obtain xs where xs: "case updates of None \<Rightarrow> xs = [] | Some b \<Rightarrow> client_batch xs \<and> (\<exists>q. b = batch_of q xs)"
    using assms(3) by (fastforce simp: client_updates_def Clear_batch add_ops_batch split: option.splits)
  let ?w = "core (new_DbWriter\<lparr>w_pc := AtBegin, w_updates := updates, w_sync := sync\<rparr>)"
  show ?thesis
    by (rule db_inv_private [OF inv(1-3), of _ i ?w xs])
      (use xs assms(2) in \<open>auto simp: start_write_def db_writers_set_writer writer_inv_def new_DbWriter_def\<close>)
qed

lemma inv_snapshot_start:
  assumes "db_inv s" "w_pc (db_writers s i) = Unborn"
  shows "db_inv (start_snapshot i s)"
proof -
  from assms(1) obtain ops W where inv: "seq_inv ops (cores s) (db_writers_upper s)" "log_inv (cores s) s"
    "mem_inv ops (cores s) (memtables s) W (db_last_sequence s)" "writer_inv (ops i) (db_writers_upper s) (cores s i)"
    by (rule db_invE)
  show ?thesis
    by (rule db_inv_private [OF inv(1-3), of _ i "core (new_DbWriter\<lparr>w_pc := AtSnapshot\<rparr>)" "[]"])
      (use assms(2) in \<open>auto simp: start_snapshot_def db_writers_set_writer writer_inv_def new_DbWriter_def\<close>)
qed

text \<open>A step of one thread that only moves it on.\<close>

lemma inv_move:
  assumes "db_inv s" "rest s' = rest s" "\<And>j. cores s' j = (if j = i then (cores s i)\<lparr>w_status := st, w_snapshot := q, w_log := n, w_pc := pc\<rparr> else cores s j)"
    and log: "pc \<in> {AtTicket, AtApply} \<Longrightarrow> \<exists>k. n = Some k \<and> db_logs s k \<noteq> None"
    and pc: "unnumbered (w_pc (db_writers s i)) \<and> (unnumbered pc \<or> inserted pc \<and> (w_updates (db_writers s i) = None \<or> \<not> status_ok st)) \<or>
      inserted (w_pc (db_writers s i)) \<and> inserted pc \<and> st = w_status (db_writers s i) \<or>
      w_pc (db_writers s i) = AtBackup \<and> pc = AtApply"
      "pc \<in> {AtSnapshot, AtLink, AtWait} \<Longrightarrow> w_updates (db_writers s i) = None"
  shows "db_inv s'"
proof -
  from assms(1) obtain ops W where inv: "seq_inv ops (cores s) (db_writers_upper s)" "log_inv (cores s) s"
    "mem_inv ops (cores s) (memtables s) W (db_last_sequence s)" "writer_inv (ops i) (db_writers_upper s) (cores s i)"
    by (rule db_invE)
  let ?w = "(cores s i)\<lparr>w_status := st, w_snapshot := q, w_log := n, w_pc := pc\<rparr>"
  have zero: "unnumbered (w_pc (db_writers s i)) \<Longrightarrow> w_end_sequence (db_writers s i) = 0"
    using writer_invD(3) [OF inv(4)] by simp
  have moved: "writer_inv (ops i) (db_writers_upper s) ?w"
    if "unnumbered pc \<or> inserted pc" "unnumbered pc \<Longrightarrow> unnumbered (w_pc (db_writers s i))"
      "inserted pc \<Longrightarrow> inserted (w_pc (db_writers s i)) \<and> st = w_status (db_writers s i) \<or> w_updates (db_writers s i) = None \<or> \<not> status_ok st"
  proof -
    have "pc \<notin> {AtBackup, AtApply, AtEnd}" using that(1) by auto
    moreover have "inserted pc \<and> w_updates (db_writers s i) \<noteq> None \<and> status_ok st \<longrightarrow> w_end_sequence (db_writers s i) \<noteq> 0"
      using that(3) writer_invD(8) [OF inv(4)] by auto
    ultimately show ?thesis
      using writer_invD [OF inv(4)] that(2) pc(2) unfolding writer_inv_def by simp
  qed
  show ?thesis
  proof (rule db_inv_private [OF inv(1-3) assms(2,3), of "ops i"])
    show "writer_inv (ops i) (db_writers_upper s) ?w"
      using pc(1)
    proof (elim disjE conjE)
      assume "w_pc (db_writers s i) = AtBackup" "pc = AtApply"
      with writer_invD [OF inv(4)] show ?thesis unfolding writer_inv_def by simp
    next
      assume "inserted (w_pc (db_writers s i))" "inserted pc" "st = w_status (db_writers s i)"
      then show ?thesis using inserted_numbered [of pc] by (intro moved) simp_all
    next
      assume "unnumbered (w_pc (db_writers s i))" "unnumbered pc"
      then show ?thesis using inserted_numbered [of pc] by (intro moved) auto
    next
      assume "inserted pc" "w_updates (db_writers s i) = None"
      then show ?thesis using inserted_numbered [of pc] by (intro moved) auto
    next
      assume "inserted pc" "\<not> status_ok st"
      then show ?thesis using inserted_numbered [of pc] by (intro moved) auto
    qed
  next
    show "inserted (w_pc ?w) \<Longrightarrow> w_end_sequence ?w \<noteq> 0 \<Longrightarrow> inserted (w_pc (cores s i))"
      using pc(1) zero by (elim disjE) auto
  next
    show "inserted (w_pc (cores s i)) \<Longrightarrow> inserted (w_pc ?w) \<and> ops i = ops i \<and> w_start_sequence ?w = w_start_sequence (cores s i) \<and>
        w_end_sequence ?w = w_end_sequence (cores s i) \<and> w_status ?w = w_status (cores s i)"
      using pc(1) inserted_numbered by (elim disjE) auto
  next
    show "w_pc ?w \<in> {AtTicket, AtBackup, AtApply} \<Longrightarrow> \<exists>n. w_log ?w = Some n \<and> db_logs s n \<noteq> None"
      using pc(1) log by (elim disjE) auto
  qed simp
qed

lemma inv_begin:
  assumes inv: "db_inv s" and pc: "w_pc (db_writers s i) = AtBegin" "can_begin over s i" "begin_write over st s i = Some s'"
  shows "db_inv s'"
proof -
  from inv obtain ops W where ops: "seq_inv ops (cores s) (db_writers_upper s)" "log_inv (cores s) s"
    "mem_inv ops (cores s) (memtables s) W (db_last_sequence s)" "writer_inv (ops i) (db_writers_upper s) (cores s i)"
    by (rule db_invE)
  let ?w = "db_writers s i"
  let ?fails = "\<lambda>st. set_writer i (\<lambda>w. w\<lparr>w_status := st, w_pc := Returned\<rparr>) s"
  have fails: "db_inv (?fails st)" if "\<not> status_ok st" for st
    by (rule inv_move [OF inv, where i = i and st = st and q = "w_snapshot ?w" and n = "w_log ?w" and pc = Returned])
      (use pc(1) that in \<open>auto simp: db_writers_set_writer core_def\<close>)
  let ?room = "set_writer i (\<lambda>w. w\<lparr>w_log := Some (db_logfile_number s), w_pc := AtTicket\<rparr>) s"
  have room: "db_inv ?room"
    by (rule inv_move [OF inv, where i = i and st = "w_status ?w" and q = "w_snapshot ?w" and n = "Some (db_logfile_number s)" and pc = AtTicket])
      (use pc(1) ops(2) in \<open>auto simp: db_writers_set_writer core_def log_inv_def\<close>)
  let ?n = "db_next_file s"
  let ?switch = "set_writer i (\<lambda>w. w\<lparr>w_has_imm := True, w_log := Some ?n, w_pc := AtTicket\<rparr>)
      (s\<lparr>db_next_file := ?n + 1, db_logs := (db_logs s)(?n \<mapsto> new_Writer []), db_dir := insert ?n (db_dir s),
         db_logfile_number := ?n, db_imm := Some (db_mem s), db_mem := new_MemTable KeyNum\<rparr>)"
  have switch: "db_inv ?switch" if "db_imm s = None"
  proof (rule db_inv_one [OF ops(1,2), of _ i "(cores s i)\<lparr>w_log := Some ?n, w_pc := AtTicket\<rparr>" "ops i" "[] # W"])
    have "holds (new_MemTable KeyNum) []" using bytewise_mem.new_mem_holds by (auto simp: holds_def)
    then have "mem_inv ops (cores s) (memtables ?switch) ([] # W) (db_last_sequence ?switch)"
      using ops(3) that by (simp add: mem_inv_def memtables_def set_writer_def)
    from mem_inv_update [OF this order_refl, where i = i and w = "(cores s i)\<lparr>w_log := Some ?n, w_pc := AtTicket\<rparr>" and xs = "ops i"] pc(1)
    show "mem_inv (ops(i := ops i)) ((\<lambda>j. cores s j)(i := (cores s i)\<lparr>w_log := Some ?n, w_pc := AtTicket\<rparr>))
        (memtables ?switch) ([] # W) (db_last_sequence ?switch)" by simp
  next
    show "writer_inv (ops i) (db_writers_upper ?switch) ((cores s i)\<lparr>w_log := Some ?n, w_pc := AtTicket\<rparr>)"
      using writer_invD [OF ops(4)] pc(1) unfolding writer_inv_def by (simp add: set_writer_def)
  qed (use ops(2) in \<open>auto simp: set_writer_def core_def log_inv_def\<close>)
  from pc fails room switch show ?thesis
    unfolding begin_write_def can_begin_def Let_def by (auto split: if_splits)
qed

lemma ticket_arith:
  fixes u :: u64
  assumes "unat u \<le> 2 ^ 55" "n < 2 ^ 31"
  shows "unat (u + (1 + of_nat n)) = unat u + 1 + n" "unat (u + (1 + of_nat n) - of_nat n) = unat u + 1"
proof -
  have "u + (1 + of_nat n) = of_nat (unat u + 1 + n)" by (simp add: add.assoc)
  moreover have "unat u + 1 + n < 2 ^ 64" using assms by simp
  ultimately show "unat (u + (1 + of_nat n)) = unat u + 1 + n" by (simp only: unat_of_nat_u64)
  have "u + (1 + of_nat n) - of_nat n = of_nat (unat u + 1)" by simp
  moreover have "unat u + 1 < 2 ^ 64" using assms by simp
  ultimately show "unat (u + (1 + of_nat n) - of_nat n) = unat u + 1" by (simp only: unat_of_nat_u64)
qed

lemma inv_ticket:
  assumes inv: "db_inv s" and pc: "w_pc (db_writers s i) = AtTicket" and upper: "db_writers_upper (take_ticket s i) \<le> 2 ^ 55"
  shows "db_inv (take_ticket s i)"
proof -
  from inv obtain ops W where ops: "seq_inv ops (cores s) (db_writers_upper s)" "log_inv (cores s) s"
    "mem_inv ops (cores s) (memtables s) W (db_last_sequence s)" "writer_inv (ops i) (db_writers_upper s) (cores s i)"
    by (rule db_invE)
  let ?u = "db_writers_upper s" let ?n = "length (ops i)"
  let ?t = "?u + (1 + of_nat ?n)"
  note same = rest_eqD [OF link_rest(1) [of i s]] and link = link_rest(2) [of i s]
  have n: "?n < 2 ^ 31" "(case w_updates (db_writers s i) of None \<Rightarrow> 0 | Some b \<Rightarrow> scast (Count b)) = (of_nat ?n :: u64)"
    using writer_invD(1) [OF ops(4)]
    by (auto simp: client_batch_def batch_of_header scast_count split: option.splits)
  have "?u \<le> 2 ^ 55" using ops(2) by (simp add: log_inv_def)
  then have "unat ?u \<le> 2 ^ 55" by (simp add: word_le_nat_alt)
  note t = ticket_arith [OF this n(1)]
  define w where "w = (cores s i)\<lparr>w_start_sequence := ?t - of_nat ?n, w_end_sequence := ?t,
     w_pc := (if db_backup s then AtBackup else AtApply)\<rparr>"
  have upper': "db_writers_upper (take_ticket s i) = ?t"
    by (simp add: take_ticket_def Let_def n(2) same set_writer_def)
  have mems: "memtables (take_ticket s i) = memtables s" "db_last_sequence (take_ticket s i) = db_last_sequence s"
    by (simp_all add: memtables_def take_ticket_def Let_def same set_writer_def)
  show ?thesis
  proof (rule db_inv_one [OF ops(1,2), of _ i w "ops i" W])
    show "cores (take_ticket s i) j = (if j = i then w else cores s j)" for j
      using link by (simp add: take_ticket_def Let_def n(2) same db_writers_set_writer w_def)
  next
    show "mem_inv (ops(i := ops i)) ((\<lambda>j. cores s j)(i := w)) (memtables (take_ticket s i)) W (db_last_sequence (take_ticket s i))"
      unfolding mems by (rule mem_inv_update [OF ops(3) order_refl]) (use pc in \<open>simp_all add: w_def split: if_splits\<close>)
  next
    show "writer_inv (ops i) (db_writers_upper (take_ticket s i)) w"
      using writer_invD [OF ops(4)] pc t unfolding writer_inv_def upper' w_def by (auto simp: word_unat_eq_iff)
  next
    show "db_writers_upper s \<le> db_writers_upper (take_ticket s i)" using t by (simp add: upper' word_le_nat_alt)
  next
    show "w_end_sequence w = 0 \<or> db_writers_upper s < w_start_sequence w \<or>
        w_start_sequence w = w_start_sequence (cores s i) \<and> w_end_sequence w = w_end_sequence (cores s i)"
      using t by (simp add: w_def word_less_nat_alt)
  qed (use ops(2) pc upper in \<open>auto simp: take_ticket_def Let_def same set_writer_def w_def log_inv_def\<close>)
qed

lemma client_batch_ok:
  assumes "client_batch xs"
  shows "list_all op_ok xs" "list_all (\<lambda>x. \<not> is_guard x) xs" "list_all op_insertable (with_guards xs)"
    "length (with_guards xs) \<le> 8 * length xs"
proof -
  have xs: "list_all op_insertable xs" using assms by (simp add: client_batch_def)
  then show "list_all op_ok xs" by (rule op_insertable_ok)
  show "list_all (\<lambda>x. \<not> is_guard x) xs" using assms by (simp add: client_batch_def)
  have one: "op_insertable x \<Longrightarrow> list_all op_insertable (guard_ops x) \<and> length (guard_ops x) \<le> 7" for x
  proof (cases x)
    case (BPut key val)
    moreover have "length (filter (guard_at key) [0..<kNumLevels]) \<le> 7"
      using length_filter_le [of "guard_at key" "[0..<kNumLevels]"] by (simp add: kNumLevels_def)
    moreover assume "op_insertable x"
    ultimately show ?thesis by (auto simp: list_all_iff kNumLevels_def)
  qed simp_all
  show "list_all op_insertable (with_guards xs)"
    using xs one by (auto simp: with_guards_def list_all_iff)
  have "length (concat (map guard_ops xs)) \<le> 7 * length xs"
    using xs by (induction xs) (auto dest!: one)
  then show "length (with_guards xs) \<le> 8 * length xs" by (simp add: with_guards_def)
qed

lemma op_writes_guards: "list_all is_guard gs \<Longrightarrow> op_writes True q (xs @ gs) = op_writes True q xs"
proof (induction xs arbitrary: q)
  case Nil
  then show ?case
  proof (induction gs arbitrary: q)
    case (Cons g gs)
    then show ?case by (cases g) simp_all
  qed simp
next
  case (Cons x xs)
  then show ?case by (cases x) simp_all
qed

lemma op_writes_with_guards: "op_writes True q (with_guards xs) = op_writes True q xs"
proof -
  have "list_all is_guard (guard_ops x)" for x by (cases x) (simp_all add: list_all_iff)
  then have "list_all is_guard (concat (map guard_ops xs))" by (auto simp: list_all_iff)
  then show ?thesis unfolding with_guards_def by (rule op_writes_guards)
qed

text \<open>Applying a write never fails, and leaves the batch with its guards for the insertion.\<close>

lemma apply_write_eq:
  assumes inv: "db_inv s" and pc: "w_pc (db_writers s i) = AtApply"
  shows "\<exists>s'. apply_write st s i = Some s' \<and> db_inv s'"
proof -
  from inv obtain ops W where ops: "seq_inv ops (cores s) (db_writers_upper s)" "log_inv (cores s) s"
    "mem_inv ops (cores s) (memtables s) W (db_last_sequence s)" "writer_inv (ops i) (db_writers_upper s) (cores s i)"
    by (rule db_invE)
  let ?w = "db_writers s i"
  show ?thesis
  proof (cases "w_updates ?w")
    case None
    have "db_inv (set_writer i (\<lambda>w. w\<lparr>w_pc := AtEnd\<rparr>) s)"
      by (rule db_inv_private [OF ops(1-3), of _ i "(cores s i)\<lparr>w_pc := AtEnd\<rparr>" "ops i"])
        (use writer_invD [OF ops(4)] pc None in \<open>simp_all add: db_writers_set_writer writer_inv_def\<close>)
    with None show ?thesis by (simp add: apply_write_def)
  next
    case (Some b)
    then obtain q where b: "b = batch_of q (ops i)" "client_batch (ops i)" using writer_invD(1) [OF ops(4)] by auto
    let ?b = "batch_of (w_start_sequence ?w) (ops i)" let ?g = "batch_of (w_start_sequence ?w) (with_guards (ops i))"
    have guards: "SetGuards False ?b ?b = Some (OK, ?g)"
      using SetGuards_batch [OF client_batch_ok(1,2) [OF b(2)]] by (simp add: with_guards_def)
    obtain n lw where n: "w_log ?w = Some n" "db_logs s n = Some lw" using ops(2) pc by (fastforce simp: log_inv_def)
    obtain lw' where lw': "AddRecord flat_WriteAt lw ?g = (True, lw')"
      using AddRecord_flat_ok [of lw ?g] by (cases "AddRecord flat_WriteAt lw ?g") simp
    let ?st = "if w_sync ?w then st else OK"
    let ?s = "set_writer i (\<lambda>w. w\<lparr>w_updates := Some ?b, w_updates_with_guards := Some ?g, w_status := (if w_sync w then st else OK), w_pc := AtEnd\<rparr>)
        (s\<lparr>db_logs := (db_logs s)(n \<mapsto> lw')\<rparr>)"
    let ?v = "(cores s i)\<lparr>w_updates := Some ?b, w_updates_with_guards := Some ?g, w_status := ?st, w_pc := AtEnd\<rparr>"
    have "apply_write st s i = Some ?s"
      using Some b guards n lw' by (simp add: apply_write_def batch_of_header Contents_def Let_def)
    moreover have "db_inv ?s"
    proof (rule db_inv_one [OF ops(1,2), of _ i ?v "ops i" W])
      have mems: "memtables ?s = memtables s" "db_last_sequence ?s = db_last_sequence s"
        by (simp_all add: memtables_def set_writer_def)
      show "mem_inv (ops(i := ops i)) ((\<lambda>j. cores s j)(i := ?v)) (memtables ?s) W (db_last_sequence ?s)"
        unfolding mems by (rule mem_inv_update [OF ops(3) order_refl]) (use pc in simp_all)
    next
      show "writer_inv (ops i) (db_writers_upper ?s) ?v"
        using writer_invD [OF ops(4)] pc b(2) unfolding writer_inv_def by (auto simp: set_writer_def)
    qed (use ops(2) in \<open>auto simp: set_writer_def log_inv_def\<close>)
    ultimately show ?thesis by blast
  qed
qed

lemma writes_of_range:
  assumes "writer_inv xs u w" "u \<le> 2 ^ 55" "w_end_sequence w \<noteq> 0" "x \<in> writes_of xs w"
  shows "w_start_sequence w \<le> fst x \<and> fst x < w_end_sequence w"
proof -
  have n: "unat (w_start_sequence w) + length xs = unat (w_end_sequence w)" using writer_invD(7) [OF assms(1,3)] by simp
  moreover have "unat (w_end_sequence w) < 2 ^ 64" using unsigned_less [where ?'a = nat, of "w_end_sequence w"] by simp
  ultimately show ?thesis
    using op_writes_seqs [of "w_start_sequence w" xs x True] assms(4)
    by (simp add: writes_of_def word_le_nat_alt word_less_nat_alt)
qed

lemma writes_apart:
  assumes inv: "seq_inv ops C u" "u \<le> 2 ^ 55" and ij: "i \<noteq> j"
    and ends: "w_end_sequence (C i) \<noteq> 0" "w_end_sequence (C j) \<noteq> 0"
    and x: "x \<in> writes_of (ops i) (C i)" "y \<in> writes_of (ops j) (C j)"
  shows "fst x \<noteq> fst y"
proof -
  have "writer_inv (ops i) u (C i)" "writer_inv (ops j) u (C j)" "apart (C i) (C j)"
    using inv(1) ij by (simp_all add: seq_inv_def)
  with writes_of_range [of "ops i" u "C i" x] writes_of_range [of "ops j" u "C j" y] assms show ?thesis
    unfolding apart_def by force
qed

text \<open>The insertion never fails, because the numbers of the batch are in no memtable yet.\<close>

lemma end_insert_eq:
  assumes ops: "seq_inv ops (cores s) (db_writers_upper s)" "log_inv (cores s) s"
      "mem_inv ops (cores s) (memtables s) W (db_last_sequence s)" "writer_inv (ops i) (db_writers_upper s) (cores s i)"
    and pc: "w_pc (db_writers s i) = AtEnd" and arrays: "length prev0 = kMaxHeight" "length obs0 = kMaxHeight"
    and ok: "w_updates (db_writers s i) = Some b" "status_ok (w_status (db_writers s i))"
  shows "\<exists>(ins :: MemTableInserter) ws Wr. end_insert prev0 obs0 s i = Some (OK, s\<lparr>db_mem := ins_mem ins, db_version := the (ins_version ins)\<rparr>) \<and>
    length (the (ins_version ins)) = kNumLevels \<and> W = ws # Wr \<and>
    holds (ins_mem ins) (rev (op_writes True (w_start_sequence (db_writers s i)) (ops i)) @ ws)"
proof -
  let ?w = "db_writers s i" and ?q = "w_start_sequence (db_writers s i)" and ?xs = "with_guards (ops i)"
  have batch: "client_batch (ops i)" "w_updates_with_guards ?w = Some (batch_of ?q ?xs)"
    using writer_invD(1,2) [OF ops(4)] pc ok(1) by auto
  obtain ws Wr where W: "W = ws # Wr" "holds (db_mem s) ws" "list_all2 holds (tl (memtables s)) Wr"
    using ops(3) by (auto simp: mem_inv_def memtables_def list_all2_Cons1)
  then obtain es where es: "bytewise_mem.mem_holds (db_mem s) es ws" "distinct (map fst ws)" by (auto simp: holds_def)
  have num: "w_end_sequence ?w \<noteq> 0" using writer_invD(6) [OF ops(4)] pc by simp
  have u: "db_writers_upper s \<le> 2 ^ 55" "length (db_version s) = kNumLevels" using ops(2) by (simp_all add: log_inv_def)
  have "?q \<le> w_end_sequence ?w" "w_end_sequence ?w \<le> db_writers_upper s"
    using writer_invD(7) [OF ops(4)] num by (auto simp: word_le_nat_alt)
  then have "unat ?q \<le> 2 ^ 55" using u(1) by (simp add: word_le_nat_alt)
  moreover have "length ?xs < 2 ^ 34" using client_batch_ok(4) [OF batch(1)] batch(1) by (simp add: client_batch_def)
  ultimately have room: "unat ?q + length ?xs \<le> unat kMaxSequenceNumber + 1" "unat ?q + length (ops i) < 2 ^ 64"
    by (simp_all add: kMaxSequenceNumber_def with_guards_def)
  have "fst x \<noteq> fst y" if xy: "x \<in> set (op_writes True ?q ?xs)" "y \<in> set ws" for x y
  proof -
    obtain j where j: "inserted (w_pc (cores s j))" "w_end_sequence (cores s j) \<noteq> 0" "y \<in> writes_of (ops j) (cores s j)"
      using ops(3) xy(2) unfolding mem_inv_def W(1) by fastforce
    then have "i \<noteq> j" using pc by auto
    with j xy(1) num show ?thesis
      by (intro writes_apart [OF ops(1) u(1), of i j]) (simp_all add: writes_of_def op_writes_with_guards)
  qed
  then have new: "fst ` set (op_writes (Some (db_version s) \<noteq> None) ?q ?xs) \<inter> fst ` set ws = {}" by auto
  obtain ins es' where ins: "InsertIntoVersion Bytewise_Compare KeyNum prev0 obs0 (batch_of ?q ?xs) (db_mem s) (Some (db_version s)) = Some (OK, ins)"
      "bytewise_mem.mem_holds (ins_mem ins) es' (rev (op_writes True ?q ?xs) @ ws)"
      "ins_version ins = Some (add_guards ?q ?xs (db_version s))"
    using bytewise_mem.InsertIntoVersion_holds [OF es(1) client_batch_ok(3) [OF batch(1)] room(1) new _ arrays] u(2) by auto
  have "distinct (map fst (rev (op_writes True ?q ?xs) @ ws))"
    using es(2) new op_writes_distinct [OF room(2), of True]
    by (auto simp: op_writes_with_guards rev_map [symmetric])
  then have "holds (ins_mem ins) (rev (op_writes True ?q (ops i)) @ ws)"
    using ins(2) by (auto simp: holds_def op_writes_with_guards)
  then show ?thesis
    using ins(1,3) W(1) batch(2) ok(2)
    by (intro exI [of _ ins] exI [of _ ws] exI [of _ Wr]) (simp add: end_insert_def)
qed

lemma VersionSet_SetLastSequence_simps:
  "db_last_sequence (VersionSet_SetLastSequence q s) = max (db_last_sequence s) q"
  "memtables (VersionSet_SetLastSequence q s) = memtables s" "db_writers (VersionSet_SetLastSequence q s) = db_writers s"
  "db_logs (VersionSet_SetLastSequence q s) = db_logs s" "db_logfile_number (VersionSet_SetLastSequence q s) = db_logfile_number s"
  "db_prev_log_number (VersionSet_SetLastSequence q s) = db_prev_log_number s" "db_version (VersionSet_SetLastSequence q s) = db_version s"
  "db_writers_upper (VersionSet_SetLastSequence q s) = db_writers_upper s"
  by (auto simp: VersionSet_SetLastSequence_def memtables_def max_def)

lemma RecordBackgroundError_simps:
  "db_last_sequence (RecordBackgroundError st s) = db_last_sequence s"
  "memtables (RecordBackgroundError st s) = memtables s" "db_writers (RecordBackgroundError st s) = db_writers s"
  "db_logs (RecordBackgroundError st s) = db_logs s" "db_logfile_number (RecordBackgroundError st s) = db_logfile_number s"
  "db_prev_log_number (RecordBackgroundError st s) = db_prev_log_number s" "db_version (RecordBackgroundError st s) = db_version s"
  "db_writers_upper (RecordBackgroundError st s) = db_writers_upper s"
  by (auto simp: RecordBackgroundError_def memtables_def)

lemma set_writer_simps:
  "db_last_sequence (set_writer j f s) = db_last_sequence s"
  "memtables (set_writer j f s) = memtables s"
  "db_logs (set_writer j f s) = db_logs s" "db_logfile_number (set_writer j f s) = db_logfile_number s"
  "db_prev_log_number (set_writer j f s) = db_prev_log_number s" "db_version (set_writer j f s) = db_version s"
  "db_writers_upper (set_writer j f s) = db_writers_upper s"
  by (simp_all add: set_writer_def memtables_def)

lemmas db_effects = VersionSet_SetLastSequence_simps RecordBackgroundError_simps set_writer_simps

lemma end_write_eq:
  assumes inv: "db_inv s" and pc: "w_pc (db_writers s i) = AtEnd" and arrays: "length prev0 = kMaxHeight" "length obs0 = kMaxHeight"
  shows "\<exists>s'. end_write prev0 obs0 s i = Some s' \<and> db_inv s'"
proof -
  from inv obtain ops W where ops: "seq_inv ops (cores s) (db_writers_upper s)" "log_inv (cores s) s"
    "mem_inv ops (cores s) (memtables s) W (db_last_sequence s)" "writer_inv (ops i) (db_writers_upper s) (cores s i)"
    by (rule db_invE)
  let ?w = "db_writers s i"
  let ?v = "(cores s i)\<lparr>w_pc := AtUnlink\<rparr>"
  have finish: "\<exists>s'. end_write prev0 obs0 s i = Some s' \<and> db_inv s'"
    if e: "end_insert prev0 obs0 s i = Some (st, s\<lparr>db_mem := m, db_version := v\<rparr>)" "length v = kNumLevels"
      and mem: "mem_inv (ops(i := ops i)) ((\<lambda>j. cores s j)(i := ?v)) (m # tl (memtables s)) W' (max (db_last_sequence s) (w_end_sequence ?w))"
    for st m v W'
  proof -
    define s1 where "s1 = s\<lparr>db_mem := m, db_version := v\<rparr>"
    define s' where "s' = set_writer i (\<lambda>w. w\<lparr>w_pc := AtUnlink\<rparr>) (VersionSet_SetLastSequence (w_end_sequence ?w) (if status_ok st then s1 else RecordBackgroundError st s1))"
    have "end_write prev0 obs0 s i = Some s'"
      using e(1) by (simp add: end_write_def s'_def s1_def Let_def RecordBackgroundError_simps)
    moreover have "db_inv s'"
    proof (rule db_inv_one [OF ops(1,2), of _ i ?v "ops i" W'])
      show "mem_inv (ops(i := ops i)) ((\<lambda>j. cores s j)(i := ?v)) (memtables s') W' (db_last_sequence s')"
        using mem by (simp add: s'_def db_effects) (simp add: s1_def memtables_def)
    next
      show "writer_inv (ops i) (db_writers_upper s') ?v"
        using writer_invD [OF ops(4)] pc unfolding writer_inv_def by (simp add: s'_def db_effects s1_def)
    qed (use ops(2) e(2) in \<open>simp_all add: s'_def db_effects s1_def db_writers_set_writer log_inv_def\<close>)
    ultimately show ?thesis by blast
  qed
  have l: "db_last_sequence s \<le> max (db_last_sequence s) (w_end_sequence ?w)" "w_end_sequence ?w \<le> max (db_last_sequence s) (w_end_sequence ?w)" by simp_all
  have same: "s\<lparr>db_mem := db_mem s, db_version := db_version s\<rparr> = s" by simp
  have tl: "db_mem s # tl (memtables s) = memtables s" by (simp add: memtables_def)
  show ?thesis
  proof (cases "\<exists>b. w_updates ?w = Some b \<and> status_ok (w_status ?w)")
    case False
    have "end_insert prev0 obs0 s i = Some (w_status ?w, s)"
      using False writer_invD(2) [OF ops(4)] pc by (cases "w_updates ?w") (simp_all add: end_insert_def)
    moreover have "mem_inv (ops(i := ops i)) ((\<lambda>j. cores s j)(i := ?v)) (memtables s) W (max (db_last_sequence s) (w_end_sequence ?w))"
      by (rule mem_inv_update [OF ops(3) l(1)])
        (use pc False writer_invD(1) [OF ops(4)] l(2) in \<open>auto simp: writes_of_def split: option.splits\<close>)
    ultimately show ?thesis
      using finish [where st = "w_status ?w" and m = "db_mem s" and v = "db_version s" and W' = W] ops(2) unfolding same tl by (simp add: log_inv_def)
  next
    case True
    then obtain b where b: "w_updates ?w = Some b" "status_ok (w_status ?w)" by blast
    obtain ins :: MemTableInserter and ws Wr where e: "end_insert prev0 obs0 s i = Some (OK, s\<lparr>db_mem := ins_mem ins, db_version := the (ins_version ins)\<rparr>)"
        "length (the (ins_version ins)) = kNumLevels" "W = ws # Wr"
        "holds (ins_mem ins) (rev (op_writes True (w_start_sequence ?w) (ops i)) @ ws)"
      using end_insert_eq [OF ops pc arrays b] by blast
    let ?W = "(rev (op_writes True (w_start_sequence ?w) (ops i)) @ ws) # Wr"
    have num: "w_end_sequence ?w \<noteq> 0" using writer_invD(6) [OF ops(4)] pc by simp
    have "set (concat ?W) = writes_of (ops i) ?v \<union> set (concat W)" by (simp add: e(3) writes_of_def Un_assoc)
    moreover have "list_all2 holds (ins_mem ins # tl (memtables s)) ?W"
      using ops(3) e(3,4) by (simp add: mem_inv_def memtables_def)
    ultimately have "mem_inv (ops(i := ops i)) ((\<lambda>j. cores s j)(i := ?v)) (ins_mem ins # tl (memtables s)) ?W (max (db_last_sequence s) (w_end_sequence ?w))"
      using pc num l by (intro mem_inv_insert [OF ops(3)]) simp_all
    with finish e(1,2) show ?thesis by blast
  qed
qed

section \<open>The queue of writers\<close>

fun queued :: "writer_pc \<Rightarrow> bool" where
  "queued AtBackup = True"
| "queued AtApply = True"
| "queued AtEnd = True"
| "queued AtUnlink = True"
| "queued AtWait = True"
| "queued _ = False"

fun unlinked :: "writer_pc \<Rightarrow> bool" where
  "unlinked Unborn = True"
| "unlinked AtBegin = True"
| "unlinked AtTicket = True"
| "unlinked AtSnapshot = True"
| "unlinked AtLink = True"
| "unlinked _ = False"

abbreviation q_in :: "DBImpl \<Rightarrow> nat \<Rightarrow> bool" where "q_in s j \<equiv> queued (w_pc (db_writers s j))"
abbreviation q_prev :: "DBImpl \<Rightarrow> nat \<Rightarrow> nat option" where "q_prev s j \<equiv> w_prev (db_writers s j)"
abbreviation q_next :: "DBImpl \<Rightarrow> nat \<Rightarrow> nat option" where "q_next s j \<equiv> w_next (db_writers s j)"

definition db_queue :: "DBImpl \<Rightarrow> bool" where
  "db_queue s \<longleftrightarrow> queue_ok (q_in s) (q_prev s) (q_next s) (db_writers_tail s) \<and> (\<forall>i. unlinked (w_pc (db_writers s i)) \<longrightarrow> q_prev s i = None)"

lemma db_queueI:
  assumes "queue_ok q p n t" "q_in s = q" "q_prev s = p" "q_next s = n" "db_writers_tail s = t"
    "\<And>j. unlinked (w_pc (db_writers s j)) \<Longrightarrow> p j = None"
  shows "db_queue s"
proof -
  have "q_prev s j = p j" for j by (rule fun_cong [OF assms(3)])
  then show ?thesis unfolding db_queue_def using assms(1,6) unfolding assms(2-5) by simp
qed

text \<open>A step of one thread that leaves the queue alone.\<close>

lemma db_queue_move:
  assumes "db_queue s" "db_writers_tail s' = db_writers_tail s" "\<And>j. j \<noteq> i \<Longrightarrow> db_writers s' j = db_writers s j"
    "q_in s' i = q_in s i" "q_in s i \<Longrightarrow> q_prev s' i = q_prev s i \<and> q_next s' i = q_next s i"
    "unlinked (w_pc (db_writers s' i)) \<Longrightarrow> q_prev s' i = None"
  shows "db_queue s'"
proof -
  have "queue_ok (q_in s') (q_prev s') (q_next s') (db_writers_tail s)"
  proof (rule queue_ok_cong)
    show "queue_ok (q_in s) (q_prev s) (q_next s) (db_writers_tail s)" using assms(1) by (simp add: db_queue_def)
    show "q_in s' j = q_in s j" for j using assms(3) [of j] assms(4) by (cases "j = i") auto
    show "q_in s j \<Longrightarrow> q_prev s' j = q_prev s j \<and> q_next s' j = q_next s j" for j
      using assms(3) [of j] assms(5) by (cases "j = i") auto
  qed
  moreover have "unlinked (w_pc (db_writers s' j)) \<Longrightarrow> q_prev s' j = None" for j
    using assms(1) assms(3) [of j] assms(6) by (cases "j = i") (auto simp: db_queue_def)
  ultimately show ?thesis by (simp add: db_queue_def assms(2))
qed

lemma link_pointers:
  assumes "q_prev s i = None" "db_writers_tail s \<noteq> Some i"
  shows "q_prev (link_writer i s) = (\<lambda>j. q_prev s j)(i := db_writers_tail s)"
    "q_next (link_writer i s) = (case db_writers_tail s of None \<Rightarrow> (\<lambda>j. q_next s j)(i := None) | Some t \<Rightarrow> ((\<lambda>j. q_next s j)(i := None))(t := Some i))"
    "db_writers_tail (link_writer i s) = Some i" "w_pc (db_writers (link_writer i s) j) = w_pc (db_writers s j)"
  using assms by (auto simp: link_writer_def Let_def set_writer_def fun_eq_iff split: option.splits)

lemma db_queue_link:
  assumes q: "db_queue s" and i: "unlinked (w_pc (db_writers s i))"
  shows "queue_ok ((\<lambda>j. q_in s j)(i := True)) (q_prev (link_writer i s)) (q_next (link_writer i s)) (Some i)"
    "unlinked (w_pc (db_writers s j)) \<Longrightarrow> j \<noteq> i \<Longrightarrow> q_prev (link_writer i s) j = None"
    "db_writers_tail s \<noteq> Some i" "q_prev s i = None"
proof -
  have ni: "\<not> q_in s i" using i by (cases "w_pc (db_writers s i)") simp_all
  show t: "db_writers_tail s \<noteq> Some i" using q ni by (auto simp: db_queue_def queue_ok_def)
  show p: "q_prev s i = None" using q i by (simp add: db_queue_def)
  show "queue_ok ((\<lambda>j. q_in s j)(i := True)) (q_prev (link_writer i s)) (q_next (link_writer i s)) (Some i)"
    unfolding link_pointers [OF p t] by (rule queue_link) (use q ni p in \<open>simp_all add: db_queue_def\<close>)
  show "unlinked (w_pc (db_writers s j)) \<Longrightarrow> j \<noteq> i \<Longrightarrow> q_prev (link_writer i s) j = None"
    using q fun_cong [OF link_pointers(1) [OF p t], of j] by (simp add: db_queue_def)
qed

lemma db_queue_ticket:
  assumes "db_queue s" "w_pc (db_writers s i) = AtTicket"
  shows "db_queue (take_ticket s i)"
proof -
  have u: "unlinked (w_pc (db_writers s i))" using assms(2) by simp
  note l = db_queue_link [OF assms(1) u]
  note pc = link_pointers [OF l(4,3)]
  have "q_prev (take_ticket s i) = q_prev (link_writer i s)" "q_next (take_ticket s i) = q_next (link_writer i s)"
      "db_writers_tail (take_ticket s i) = Some i" "q_in (take_ticket s i) = (\<lambda>j. q_in s j)(i := True)"
      "\<And>j. unlinked (w_pc (db_writers (take_ticket s i) j)) \<Longrightarrow> unlinked (w_pc (db_writers s j)) \<and> j \<noteq> i"
    using pc(3,4) by (auto simp: take_ticket_def Let_def set_writer_def fun_eq_iff split: if_splits)
  then show ?thesis using l(2) by (intro db_queueI [OF l(1)]) blast+
qed

lemma unlink_pointers:
  assumes "q_prev s i \<noteq> Some i" "q_next s i \<noteq> Some i"
  defines "t \<equiv> unlink_next i (unlink_prev i s)"
  shows "q_prev t = (case q_next s i of None \<Rightarrow> (\<lambda>j. q_prev s j) | Some k \<Rightarrow> (\<lambda>j. q_prev s j)(k := q_prev s i))"
    "q_next t = (case q_prev s i of None \<Rightarrow> (\<lambda>j. q_next s j) | Some k \<Rightarrow> (\<lambda>j. q_next s j)(k := q_next s i))"
    "db_writers_tail t = db_writers_tail s" "w_pc (db_writers t j) = w_pc (db_writers s j)"
  using assms by (auto simp: unlink_prev_def unlink_next_def Let_def set_writer_def fun_eq_iff split: option.splits)

text \<open>Leaving the queue, for both ways the code writes it.\<close>

lemma db_queue_leave:
  assumes q: "queue_ok q (q_prev s) (q_next s) (db_writers_tail s)" "q i" "\<And>j. j \<noteq> i \<Longrightarrow> q j = q_in s j"
    and fresh: "\<And>j. unlinked (w_pc (db_writers s j)) \<Longrightarrow> j \<noteq> i \<Longrightarrow> q_prev s j = None"
    and t: "q_prev t = (case q_next s i of None \<Rightarrow> (\<lambda>j. q_prev s j) | Some k \<Rightarrow> (\<lambda>j. q_prev s j)(k := q_prev s i))"
      "q_next t = (case q_prev s i of None \<Rightarrow> (\<lambda>j. q_next s j) | Some k \<Rightarrow> (\<lambda>j. q_next s j)(k := q_next s i))"
      "db_writers_tail t = db_writers_tail s" "\<And>j. w_pc (db_writers t j) = w_pc (db_writers s j)"
  shows "\<exists>s'. map_option (set_writer i (\<lambda>w. w\<lparr>w_pc := AtSetImm\<rparr>)) (clear_tail i t) = Some s' \<and> db_queue s'"
proof -
  note un = queue_unlink [OF q(1,2)]
  let ?s = "set_writer i (\<lambda>w. w\<lparr>w_pc := AtSetImm\<rparr>) (if db_writers_tail t = Some i then t\<lparr>db_writers_tail := None\<rparr> else t)"
  have ni: "q_next t i = None" if "db_writers_tail s = Some i"
    using un(2) [OF that] un(3) by (auto simp: fun_cong [OF t(2)] split: option.splits)
  have "map_option (set_writer i (\<lambda>w. w\<lparr>w_pc := AtSetImm\<rparr>)) (clear_tail i t) = Some ?s"
    using t(3) ni by (simp add: clear_tail_def)
  moreover have "q_prev ?s = q_prev t" "q_next ?s = q_next t" "q_in ?s = q(i := False)"
      "db_writers_tail ?s = (if db_writers_tail s = Some i then None else db_writers_tail s)"
    using t(3,4) q(3) by (auto simp: set_writer_def fun_eq_iff)
  moreover have "q_prev t j = None" if "unlinked (w_pc (db_writers ?s j))" for j
  proof -
    have j: "unlinked (w_pc (db_writers s j))" "j \<noteq> i" using that t(4) by (auto simp: set_writer_def split: if_splits)
    then have "\<not> q j" using q(3) [of j] by (cases "w_pc (db_writers s j)") simp_all
    then have "q_next s i \<noteq> Some j" using q(1,2) by (auto simp: queue_ok_def)
    then show ?thesis using fresh [OF j] by (auto simp: fun_cong [OF t(1)] split: option.splits)
  qed
  ultimately show ?thesis
    by (intro exI [of _ ?s] conjI db_queueI [OF un(1) _ _ _ _]) (simp_all only: t(1,2) [symmetric])
qed

lemma db_queue_unlink:
  assumes "db_queue s" "w_pc (db_writers s i) = AtUnlink"
  shows "\<exists>s'. unlink_write s i = Some s' \<and> db_queue s'"
proof -
  have q: "queue_ok (q_in s) (q_prev s) (q_next s) (db_writers_tail s)" "q_in s i" using assms by (simp_all add: db_queue_def)
  note t = unlink_pointers [OF queue_unlink(3,4) [OF q]]
  show ?thesis
    unfolding unlink_write_def by (rule db_queue_leave [OF q _ _ t]) (use assms(1) in \<open>simp_all add: db_queue_def\<close>)
qed

lemma db_queue_wait_leave:
  assumes q: "queue_ok q (q_prev s) (q_next s) (db_writers_tail s)" "q i" "\<And>j. j \<noteq> i \<Longrightarrow> q j = q_in s j"
    and fresh: "\<And>j. unlinked (w_pc (db_writers s j)) \<Longrightarrow> j \<noteq> i \<Longrightarrow> q_prev s j = None" and head: "q_prev s i = None"
  shows "\<exists>s'. wait_leave s i = Some s' \<and> db_queue s'"
proof -
  let ?t = "case q_next s i of None \<Rightarrow> s | Some n \<Rightarrow> set_writer n (\<lambda>u. u\<lparr>w_prev := None\<rparr>) s"
  have t: "q_prev ?t = (case q_next s i of None \<Rightarrow> (\<lambda>j. q_prev s j) | Some k \<Rightarrow> (\<lambda>j. q_prev s j)(k := q_prev s i))"
      "q_next ?t = (case q_prev s i of None \<Rightarrow> (\<lambda>j. q_next s j) | Some k \<Rightarrow> (\<lambda>j. q_next s j)(k := q_next s i))"
      "db_writers_tail ?t = db_writers_tail s" "\<And>j. w_pc (db_writers ?t j) = w_pc (db_writers s j)"
    using head by (auto simp: set_writer_def fun_eq_iff split: option.splits)
  show ?thesis unfolding wait_leave_def Let_def by (rule db_queue_leave [OF q fresh t])
qed

lemma db_queue_enter:
  assumes q: "db_queue s" and pc: "w_pc (db_writers s i) = AtLink"
  shows "\<exists>s'. wait_enter s i = Some s' \<and> db_queue s'"
proof -
  have u: "unlinked (w_pc (db_writers s i))" using pc by simp
  note l = db_queue_link [OF q u]
  note ptr = link_pointers [OF l(4,3)]
  let ?l = "link_writer i s"
  let ?s = "set_writer i (\<lambda>w. w\<lparr>w_wake_me_when_head := True, w_pc := AtWait\<rparr>) ?l"
  have "q_prev ?s = q_prev ?l" "q_next ?s = q_next ?l" "q_in ?s = (\<lambda>j. q_in s j)(i := True)" "db_writers_tail ?s = Some i"
      "\<And>j. unlinked (w_pc (db_writers ?s j)) \<Longrightarrow> unlinked (w_pc (db_writers s j)) \<and> j \<noteq> i"
    using ptr(3,4) by (auto simp: set_writer_def fun_eq_iff split: if_splits)
  then have wait: "db_queue ?s" using l(2) by (intro db_queueI [OF l(1)]) blast+
  have "\<exists>s'. wait_leave ?l i = Some s' \<and> db_queue s'" if "q_prev ?l i = None"
    by (rule db_queue_wait_leave [of "(\<lambda>j. q_in s j)(i := True)"]) (use l(1,2) that in \<open>simp_all add: ptr(3,4)\<close>)
  then show ?thesis using wait by (cases "q_prev ?l i") (simp_all add: wait_enter_def)
qed

lemma clear_tail_move:
  assumes "map_option (set_writer i (\<lambda>w. w\<lparr>w_pc := AtSetImm\<rparr>)) (clear_tail i t) = Some s'" "rest t = rest s" "\<And>j. cores t j = cores s j"
  shows "rest s' = rest s" "cores s' j = (if j = i then (cores s i)\<lparr>w_pc := AtSetImm\<rparr> else cores s j)"
proof -
  obtain u where u: "clear_tail i t = Some u" "s' = set_writer i (\<lambda>w. w\<lparr>w_pc := AtSetImm\<rparr>) u" using assms(1) by auto
  show "rest s' = rest s" using clear_tail_rest [OF u(1)] assms(2) by (simp add: u(2))
  show "cores s' j = (if j = i then (cores s i)\<lparr>w_pc := AtSetImm\<rparr> else cores s j)"
    using clear_tail_rest [OF u(1)] assms(3) [of i] assms(3) [of j] by (simp add: u(2) db_writers_set_writer)
qed

lemma wait_leave_move:
  assumes "wait_leave s i = Some s'"
  shows "rest s' = rest s" "cores s' j = (if j = i then (cores s i)\<lparr>w_pc := AtSetImm\<rparr> else cores s j)"
proof -
  let ?t = "case q_next s i of None \<Rightarrow> s | Some n \<Rightarrow> set_writer n (\<lambda>u. u\<lparr>w_prev := None\<rparr>) s"
  have t: "rest ?t = rest s" "cores ?t j = cores s j" for j
    by (auto simp: db_writers_set_writer split: option.splits)
  show "rest s' = rest s" "cores s' j = (if j = i then (cores s i)\<lparr>w_pc := AtSetImm\<rparr> else cores s j)"
    using clear_tail_move [OF assms [unfolded wait_leave_def Let_def] t] by blast+
qed

section \<open>Every step of a run\<close>

lemma inv_pc:
  assumes "db_inv s" "rest s' = rest s" "\<And>j. cores s' j = (if j = i then (cores s i)\<lparr>w_pc := pc\<rparr> else cores s j)"
    and "pc \<noteq> AtTicket" "pc \<noteq> AtApply"
    and "unnumbered (w_pc (db_writers s i)) \<and> w_updates (db_writers s i) = None \<and> (unnumbered pc \<or> inserted pc) \<or> inserted (w_pc (db_writers s i)) \<and> inserted pc"
  shows "db_inv s'"
  by (rule inv_move [OF assms(1,2), where i = i and st = "w_status (cores s i)" and q = "w_snapshot (cores s i)" and n = "w_log (cores s i)" and pc = pc])
    (use assms(3-6) inserted_numbered [of pc] in auto)

lemma wait_no_updates:
  assumes "db_inv s" "w_pc (db_writers s i) \<in> {AtSnapshot, AtLink, AtWait}"
  shows "w_updates (db_writers s i) = None"
proof -
  from assms(1) obtain ops W where "writer_inv (ops i) (db_writers_upper s) (cores s i)" by (rule db_invE)
  from writer_invD(9) [OF this] assms(2) show ?thesis by simp
qed

lemma inv_resume:
  assumes "db_inv s" "w_pc (db_writers s i) = AtBackup"
  shows "db_inv (resume_write s i)"
proof (rule inv_move [OF assms(1), where i = i and st = "w_status (cores s i)" and q = "w_snapshot (cores s i)" and n = "w_log (cores s i)" and pc = AtApply])
  from assms(1) obtain ops W where "log_inv (cores s) s" by (rule db_invE)
  then show "\<exists>k. w_log (cores s i) = Some k \<and> db_logs s k \<noteq> None" using assms(2) by (auto simp: log_inv_def)
qed (use assms(2) in \<open>simp_all add: resume_write_def db_writers_set_writer\<close>)

lemma inv_snapshot:
  assumes "db_inv s" "w_pc (db_writers s i) = AtSnapshot"
  shows "db_inv (take_snapshot s i)"
  by (rule inv_move [OF assms(1), where i = i and st = "w_status (cores s i)" and q = "db_last_sequence s" and n = "w_log (cores s i)" and pc = AtLink])
    (use assms(2) wait_no_updates [OF assms(1)] in \<open>simp_all add: take_snapshot_def db_writers_set_writer\<close>)

lemma inv_shared:
  assumes "db_inv s" "db_writers s' = db_writers s" "memtables s' = memtables s" "db_last_sequence s' = db_last_sequence s"
    "db_logs s' = db_logs s" "db_logfile_number s' = db_logfile_number s" "db_prev_log_number s' = 0"
    "length (db_version s') = kNumLevels" "db_writers_upper s' = db_writers_upper s"
  shows "db_inv s'"
proof -
  from assms(1) obtain ops W where inv: "seq_inv ops (cores s) (db_writers_upper s)" "log_inv (cores s) s"
    "mem_inv ops (cores s) (memtables s) W (db_last_sequence s)" by (rule db_invE)
  have "log_inv (cores s) s'" using inv(2) assms(5-9) by (simp add: log_inv_def)
  with inv show ?thesis unfolding db_inv_def assms(2-4,9) by blast
qed

lemma inv_unlink:
  assumes "db_inv s" "w_pc (db_writers s i) = AtUnlink" "unlink_write s i = Some s'"
  shows "db_inv s'"
proof -
  have r: "rest (unlink_next i (unlink_prev i s)) = rest s" "cores (unlink_next i (unlink_prev i s)) j = cores s j" for j
    by (simp_all add: unlink_rest)
  show ?thesis
    by (rule inv_pc [OF assms(1) clear_tail_move [OF assms(3) [unfolded unlink_write_def] r]]) (use assms(2) in simp_all)
qed

lemma inv_leave:
  assumes "db_inv s" "w_pc (db_writers s i) \<in> {AtLink, AtWait}" "wait_leave s i = Some s'"
  shows "db_inv s'"
  by (rule inv_pc [OF assms(1) wait_leave_move [OF assms(3)]]) (use assms(2) wait_no_updates [OF assms(1)] in auto)

lemma inv_enter:
  assumes "db_inv s" "w_pc (db_writers s i) = AtLink" "wait_enter s i = Some s'"
  shows "db_inv s'"
proof (cases "q_prev (link_writer i s) i = None")
  case True
  then have w: "wait_leave (link_writer i s) i = Some s'" using assms(3) by (simp add: wait_enter_def)
  show ?thesis
    by (rule inv_pc [OF assms(1), where i = i and pc = AtSetImm])
      (use wait_leave_move [OF w] link_rest [of i s] assms(2) wait_no_updates [OF assms(1)] in simp_all)
next
  case False
  then have "s' = set_writer i (\<lambda>w. w\<lparr>w_wake_me_when_head := True, w_pc := AtWait\<rparr>) (link_writer i s)"
    using assms(3) by (auto simp: wait_enter_def Let_def)
  then show ?thesis
    by (intro inv_pc [OF assms(1), where i = i and pc = AtWait]) (use link_rest [of i s] assms(2) wait_no_updates [OF assms(1)] in \<open>simp_all add: db_writers_set_writer\<close>)
qed

lemma inv_set_imm:
  assumes "db_inv s" "w_pc (db_writers s i) = AtSetImm"
  shows "db_inv (set_imm s i)"
proof -
  let ?b = "if w_has_imm (db_writers s i) \<and> w_prev (db_writers s i) = None then db_imm s \<noteq> None else db_has_imm s"
  have "db_inv (s\<lparr>db_has_imm := ?b\<rparr>)"
    by (rule inv_shared [OF assms(1)]) (use assms(1) in \<open>auto simp: db_inv_def log_inv_def memtables_def\<close>)
  then show ?thesis
    by (rule inv_pc [where i = i and pc = Returned]) (use assms(2) in \<open>auto simp: set_imm_def Let_def db_writers_set_writer\<close>)
qed

lemma inv_flush:
  assumes "db_inv s" "db_imm s = Some m" "length v = kNumLevels"
  shows "db_inv (flush v m s)"
  by (rule inv_shared [OF assms(1)]) (use assms(2,3) in \<open>simp_all add: flush_def DeleteObsoleteLogs_def memtables_def\<close>)

lemma queue_same: "db_queue s \<Longrightarrow> db_writers s' = db_writers s \<Longrightarrow> db_writers_tail s' = db_writers_tail s \<Longrightarrow> db_queue s'"
  by (simp add: db_queue_def)

lemma queue_begin:
  assumes "db_queue s" "w_pc (db_writers s i) = AtBegin" "begin_write over st s i = Some s'"
  shows "db_queue s'"
proof (rule db_queue_move [OF assms(1)])
  show "db_writers_tail s' = db_writers_tail s" "\<And>j. j \<noteq> i \<Longrightarrow> db_writers s' j = db_writers s j"
    "q_in s' i = q_in s i" "q_in s i \<Longrightarrow> q_prev s' i = q_prev s i \<and> q_next s' i = q_next s i"
    using assms(2,3) by (auto simp: begin_write_def Let_def set_writer_def split: if_splits)
  have "q_prev s i = None" using assms(1,2) by (simp add: db_queue_def)
  then show "q_prev s' i = None"
    using assms(3) by (auto simp: begin_write_def Let_def set_writer_def split: if_splits)
qed

lemma queue_apply:
  assumes "db_queue s" "w_pc (db_writers s i) = AtApply" "apply_write st s i = Some s'"
  shows "db_queue s'"
  by (rule db_queue_move [OF assms(1), where i = i])
    (use assms(2,3) in \<open>auto simp: apply_write_def Let_def set_writer_def split: option.splits prod.splits if_splits\<close>)

lemma queue_end:
  assumes "db_queue s" "w_pc (db_writers s i) = AtEnd" "end_write prev0 obs0 s i = Some s'"
  shows "db_queue s'"
proof -
  obtain st s1 where e: "end_insert prev0 obs0 s i = Some (st, s1)" using assms(3) by (auto simp: end_write_def split: option.splits)
  then have s1: "db_writers s1 = db_writers s" "db_writers_tail s1 = db_writers_tail s"
    by (auto simp: end_insert_def Let_def split: option.splits if_splits)
  show ?thesis
    by (rule db_queue_move [OF assms(1), where i = i])
      (use assms(2,3) e s1 in \<open>auto simp: end_write_def Let_def set_writer_def VersionSet_SetLastSequence_def RecordBackgroundError_def split: if_splits\<close>)
qed

text \<open>Every step from a state of the invariant succeeds and, below the limit on sequence numbers, keeps
  the invariant.\<close>

lemma step_ok:
  assumes inv: "db_inv s" "db_queue s" and arrays: "length prev0 = kMaxHeight" "length obs0 = kMaxHeight"
    and step: "db_step over prev0 obs0 s r"
  shows "\<exists>s'. r = Some s' \<and> (db_writers_upper s' \<le> 2 ^ 55 \<longrightarrow> db_inv s' \<and> db_queue s')"
  using step
proof cases
  case (step_start i updates sync)
  have "db_queue (start_write i updates sync s)"
    by (rule db_queue_move [OF inv(2), where i = i]) (use step_start in \<open>auto simp: start_write_def set_writer_def new_DbWriter_def\<close>)
  with step_start inv_start [OF inv(1)] show ?thesis by blast
next
  case (step_begin i st)
  have "db_prev_log_number s = 0" using inv(1) by (auto simp: db_inv_def log_inv_def)
  then have "begin_write over st s i \<noteq> None" by (simp add: begin_write_def Let_def)
  then obtain s' where "begin_write over st s i = Some s'" by blast
  with step_begin inv_begin [OF inv(1)] queue_begin [OF inv(2)] show ?thesis by blast
next
  case (step_ticket i)
  with inv_ticket [OF inv(1)] db_queue_ticket [OF inv(2)] show ?thesis by blast
next
  case (step_resume i)
  have "db_queue (resume_write s i)"
    by (rule db_queue_move [OF inv(2), where i = i]) (use step_resume in \<open>auto simp: resume_write_def set_writer_def\<close>)
  with step_resume inv_resume [OF inv(1)] show ?thesis by blast
next
  case (step_apply i st)
  with apply_write_eq [OF inv(1), of i st] queue_apply [OF inv(2)] show ?thesis by blast
next
  case (step_end i)
  with end_write_eq [OF inv(1) _ arrays, of i] queue_end [OF inv(2)] show ?thesis by blast
next
  case (step_unlink i)
  with db_queue_unlink [OF inv(2), of i] inv_unlink [OF inv(1)] show ?thesis by blast
next
  case (step_set_imm i)
  have "db_queue (set_imm s i)"
    by (rule db_queue_move [OF inv(2), where i = i]) (use step_set_imm in \<open>auto simp: set_imm_def Let_def set_writer_def\<close>)
  with step_set_imm inv_set_imm [OF inv(1)] show ?thesis by blast
next
  case (step_start_snapshot i)
  have "db_queue (start_snapshot i s)"
    by (rule db_queue_move [OF inv(2), where i = i]) (use step_start_snapshot in \<open>auto simp: start_snapshot_def set_writer_def new_DbWriter_def\<close>)
  with step_start_snapshot inv_snapshot_start [OF inv(1)] show ?thesis by blast
next
  case (step_snapshot i)
  have "q_prev s i = None" using inv(2) step_snapshot by (simp add: db_queue_def)
  then have "db_queue (take_snapshot s i)"
    by (intro db_queue_move [OF inv(2), where i = i]) (use step_snapshot in \<open>auto simp: take_snapshot_def set_writer_def\<close>)
  with step_snapshot inv_snapshot [OF inv(1)] show ?thesis by blast
next
  case (step_enter i)
  with db_queue_enter [OF inv(2), of i] inv_enter [OF inv(1)] show ?thesis by blast
next
  case (step_leave i)
  have "\<exists>s'. wait_leave s i = Some s' \<and> db_queue s'"
    by (rule db_queue_wait_leave [of "q_in s"]) (use inv(2) step_leave in \<open>simp_all add: db_queue_def\<close>)
  moreover have "w_pc (db_writers s i) \<in> {AtLink, AtWait}" using step_leave by simp
  ultimately show ?thesis using step_leave(1) inv_leave [OF inv(1)] by blast
next
  case (step_flush m v)
  have "db_queue (flush v m s)"
    by (rule queue_same [OF inv(2)]) (simp_all add: flush_def DeleteObsoleteLogs_def)
  with step_flush inv_flush [OF inv(1)] show ?thesis by blast
next
  case (step_flush_fails m st)
  have "db_inv (RecordBackgroundError st s)" "db_queue (RecordBackgroundError st s)"
    using inv by (auto simp: db_effects db_inv_def log_inv_def intro!: inv_shared [OF inv(1)] queue_same [OF inv(2)])
      (simp add: RecordBackgroundError_def)
  with step_flush_fails show ?thesis by blast
next
  case (step_backup b)
  have "db_inv (s\<lparr>db_backup := b\<rparr>)" "db_queue (s\<lparr>db_backup := b\<rparr>)"
    using inv by (auto simp: memtables_def db_inv_def log_inv_def intro!: inv_shared [OF inv(1)] queue_same [OF inv(2)])
  with step_backup show ?thesis by blast
qed

end
