(* ===== verification/DbWrite_Runs.thy ===== *)
theory DbWrite_Runs
  imports DbWrite_Safety
begin

text \<open>
  Runs of the concurrent write path that end where they should not. Two writers get their tickets;
  the later one finishes first and a snapshot is taken before the earlier one inserts. And a writer
  whose memtable is replaced between its two critical sections.
\<close>

section \<open>Two writers with tickets\<close>

abbreviation no_guards :: "GuardMetaData list list" where
  "no_guards \<equiv> replicate kNumLevels []"

abbreviation put_a :: "batch_op list" where "put_a \<equiv> [BPut [97] [1]]"
abbreviation put_b :: "batch_op list" where "put_b \<equiv> [BPut [98] [2]]"

definition ticketed :: "bool \<Rightarrow> batch_op list \<Rightarrow> u64 \<Rightarrow> nat option \<Rightarrow> nat option \<Rightarrow> Writer" where
  "ticketed sync ops seq p nxt = new_DbWriter\<lparr>w_linked := True, w_prev := p, w_next := nxt, w_start_sequence := seq, w_end_sequence := seq + 1,
     w_log := Some 1, w_pc := AtApply, w_updates := Some (batch_of 0 ops), w_sync := sync\<rparr>"

definition one_ticket :: DBImpl where
  "one_ticket = (opened 7 1 no_guards)\<lparr>db_writers := (\<lambda>_. new_DbWriter)(0 := ticketed True put_a 8 None None),
     db_writers_tail := Some 0, db_writers_upper := 9\<rparr>"

definition two_tickets :: DBImpl where
  "two_tickets = one_ticket\<lparr>db_writers := (db_writers one_ticket)(0 := ticketed True put_a 8 None (Some 1), 1 := ticketed False put_b 10 (Some 0) None),
     db_writers_tail := Some 1, db_writers_upper := 11\<rparr>"

lemma client_put: "client_batch put_a" "client_batch put_b"
  by (simp_all add: client_batch_def)

lemma client_updates_put: "client_batch xs \<Longrightarrow> client_updates (Some (batch_of 0 xs))"
  unfolding client_updates_def by (intro disjI2 exI [of _ xs]) (simp add: Clear_batch add_ops_batch)

lemmas run_defs = start_write_def begin_write_def can_begin_def take_ticket_def link_writer_def set_writer_def
  opened_def new_DbWriter_def ticketed_def one_ticket_def two_tickets_def batch_of_header

lemma reach_one_ticket:
  assumes over: "\<not> over (new_MemTable KeyNum)"
  shows "db_reach over prev0 obs0 (opened 7 1 no_guards) one_ticket"
proof -
  let ?s0 = "opened 7 1 no_guards"
  let ?s1 = "start_write 0 (Some (batch_of 0 put_a)) True ?s0"
  have r1: "db_reach over prev0 obs0 ?s0 ?s1"
    by (rule reach_step [OF reach_start step_start [OF _ client_updates_put [OF client_put(1)]]]) (simp_all add: run_defs)
  define s2 where "s2 = set_writer 0 (\<lambda>w. w\<lparr>w_log := Some 1, w_pc := AtTicket\<rparr>) ?s1"
  have b: "begin_write over OK ?s1 0 = Some s2" using over by (simp add: s2_def run_defs)
  have "db_step over prev0 obs0 ?s1 (begin_write over OK ?s1 0)"
    by (rule step_begin) (simp_all add: run_defs)
  then have r2: "db_reach over prev0 obs0 ?s0 s2"
    unfolding b by (rule reach_step [OF r1]) (simp_all add: s2_def run_defs)
  have "take_ticket s2 0 = one_ticket" by (simp add: s2_def run_defs Let_def scast_count [of 1, simplified] fun_eq_iff)
  moreover have "db_step over prev0 obs0 s2 (Some (take_ticket s2 0))" by (rule step_ticket) (simp add: s2_def run_defs)
  ultimately have "db_step over prev0 obs0 s2 (Some one_ticket)" by simp
  then show ?thesis by (rule reach_step [OF r2]) (simp_all add: s2_def run_defs)
qed

lemma reach_two_tickets:
  assumes over: "\<not> over (new_MemTable KeyNum)"
  shows "db_reach over prev0 obs0 (opened 7 1 no_guards) two_tickets"
proof -
  let ?s0 = "opened 7 1 no_guards"
  let ?s1 = "start_write 1 (Some (batch_of 0 put_b)) False one_ticket"
  have r1: "db_reach over prev0 obs0 ?s0 ?s1"
    by (rule reach_step [OF reach_one_ticket [where over = over, OF over] step_start [OF _ client_updates_put [OF client_put(2)]]])
      (simp_all add: run_defs)
  define s2 where "s2 = set_writer 1 (\<lambda>w. w\<lparr>w_log := Some 1, w_pc := AtTicket\<rparr>) ?s1"
  have b: "begin_write over OK ?s1 1 = Some s2" using over by (simp add: s2_def run_defs)
  have "db_step over prev0 obs0 ?s1 (begin_write over OK ?s1 1)"
    by (rule step_begin) (simp_all add: run_defs)
  then have r2: "db_reach over prev0 obs0 ?s0 s2"
    unfolding b by (rule reach_step [OF r1]) (simp_all add: s2_def run_defs)
  have "take_ticket s2 1 = two_tickets" by (simp add: s2_def run_defs Let_def scast_count [of 1, simplified] fun_eq_iff)
  moreover have "db_step over prev0 obs0 s2 (Some (take_ticket s2 1))" by (rule step_ticket) (simp add: s2_def run_defs)
  ultimately have "db_step over prev0 obs0 s2 (Some two_tickets)" by simp
  then show ?thesis by (rule reach_step [OF r2]) (simp_all add: s2_def run_defs)
qed

lemma holds_nothing: "holds (new_MemTable KeyNum) []"
  using bytewise_mem.new_mem_holds by (auto simp: holds_def)

lemma holds_Get:
  assumes "holds m ws" "length u + 8 < 2 ^ 32" "snapshot \<le> kMaxSequenceNumber"
  shows "mem_Get Bytewise_Compare KeyNum m (new_LookupKey u snapshot) val0 st0 = Some (get_answer (newest u snapshot ws) val0 st0)"
  using assms bytewise_Get_newest [of m _ ws ws] by (auto simp: holds_def)

text \<open>The later writer has finished, and a snapshot has been taken.\<close>

lemma reach_snapshot:
  assumes over: "\<not> over (new_MemTable KeyNum)" and arrays: "length prev0 = kMaxHeight" "length obs0 = kMaxHeight"
  shows "\<exists>s. db_reach over prev0 obs0 (opened 7 1 no_guards) s \<and> db_writers_upper s = 11 \<and> holds (db_mem s) [(10, kTypeValue, [98], [2])] \<and>
    length (db_version s) = kNumLevels \<and> w_pc (db_writers s 2) = Returned \<and> w_snapshot (db_writers s 2) = 11 \<and>
    db_writers s 0 = ticketed True put_a 8 None None \<and> db_logs s 1 \<noteq> None"
proof -
  let ?s0 = "opened 7 1 no_guards"
  note r0 = reach_two_tickets [where over = over, OF over]
  define r where "r t \<longleftrightarrow> db_reach over prev0 obs0 ?s0 t \<and> db_writers_upper t = 11" for t
  have go: "r u" if "r t" "db_step over prev0 obs0 t (Some u)" "db_writers_upper u = 11" for t u
    using that reach_step [of over prev0 obs0 ?s0 t u] by (simp add: r_def)
  have r: "r two_tickets" using r0 by (simp add: r_def run_defs)
  obtain a1 where a1: "apply_write OK two_tickets 1 = Some a1" "db_writers_upper a1 = 11" "db_mem a1 = new_MemTable KeyNum" "db_version a1 = no_guards"
      "db_last_sequence a1 = 7" "db_logs a1 1 \<noteq> None" "db_writers_tail a1 = Some 1"
      "db_writers a1 = (db_writers two_tickets)(1 := (ticketed False put_b 10 (Some 0) None)\<lparr>w_pc := AtEnd, w_updates := Some (batch_of 10 put_b), w_updates_with_guards := Some (batch_of 10 (with_guards put_b))\<rparr>)"
    using apply_write_batch [of two_tickets 1 0 put_b 1 "new_Writer []" OK] client_put(2)
    by (auto simp: run_defs fun_eq_iff)
  have "db_step over prev0 obs0 two_tickets (apply_write OK two_tickets 1)" by (rule step_apply) (simp add: run_defs)
  with go [OF r] a1(1,2) have r1: "r a1" by simp
  obtain m v where m: "end_write prev0 obs0 a1 1 = Some (set_writer 1 (\<lambda>w. w\<lparr>w_pc := AtUnlink\<rparr>) (VersionSet_SetLastSequence 11 (a1\<lparr>db_mem := m, db_version := v\<rparr>)))"
      "holds m [(10, kTypeValue, [98], [2])]" "length v = kNumLevels"
    using end_write_batch [of a1 "[]" 1 10 put_b prev0 obs0] client_put(2) arrays holds_nothing a1 by (auto simp: ticketed_def new_DbWriter_def)
  define e1 where "e1 = set_writer 1 (\<lambda>w. w\<lparr>w_pc := AtUnlink\<rparr>) (VersionSet_SetLastSequence 11 (a1\<lparr>db_mem := m, db_version := v\<rparr>))"
  define u1 where "u1 = set_writer 1 (\<lambda>w. w\<lparr>w_pc := AtSetImm\<rparr>) ((set_writer 0 (\<lambda>w. w\<lparr>w_next := None\<rparr>) e1)\<lparr>db_writers_tail := None\<rparr>)"
  define i1 where "i1 = set_imm u1 1"
  define p1 where "p1 = start_snapshot 2 i1"
  define p2 where "p2 = take_snapshot p1 2"
  define p3 where "p3 = set_writer 2 (\<lambda>w. w\<lparr>w_linked := True, w_next := None, w_pc := AtSetImm\<rparr>) p2"
  define p4 where "p4 = set_imm p3 2"
  note snap_defs = e1_def u1_def i1_def p1_def p2_def p3_def p4_def set_imm_def start_snapshot_def take_snapshot_def set_writer_def
    VersionSet_SetLastSequence_def a1 Let_def
  have "db_step over prev0 obs0 a1 (end_write prev0 obs0 a1 1)" by (rule step_end) (simp add: a1)
  with go [OF r1, of e1] m(1) have r2: "r e1" by (simp add: e1_def [symmetric]) (simp add: snap_defs)
  have "unlink_write e1 1 = Some u1"
    by (simp add: unlink_write_def unlink_prev_def unlink_next_def clear_tail_def snap_defs run_defs fun_eq_iff)
  moreover have "db_step over prev0 obs0 e1 (unlink_write e1 1)" by (rule step_unlink) (simp add: snap_defs)
  ultimately have r3: "r u1" using go [OF r2, of u1] by (simp add: snap_defs)
  have "db_step over prev0 obs0 u1 (Some i1)" unfolding i1_def by (rule step_set_imm) (simp add: snap_defs)
  then have r4: "r i1" by (rule go [OF r3]) (simp add: snap_defs)
  have "db_step over prev0 obs0 i1 (Some p1)" unfolding p1_def by (rule step_start_snapshot) (simp add: snap_defs run_defs)
  then have r5: "r p1" by (rule go [OF r4]) (simp add: snap_defs)
  have "db_step over prev0 obs0 p1 (Some p2)" unfolding p2_def by (rule step_snapshot) (simp add: snap_defs run_defs)
  then have r6: "r p2" by (rule go [OF r5]) (simp add: snap_defs)
  have "wait_enter p2 2 = Some p3"
    by (simp add: wait_enter_def wait_leave_def link_writer_def clear_tail_def snap_defs run_defs fun_eq_iff)
  moreover have "db_step over prev0 obs0 p2 (wait_enter p2 2)" by (rule step_enter) (simp add: snap_defs run_defs)
  ultimately have r7: "r p3" using go [OF r6, of p3] by (simp add: snap_defs)
  have "db_step over prev0 obs0 p3 (Some p4)" unfolding p4_def by (rule step_set_imm) (simp add: snap_defs run_defs)
  then have r8: "r p4" by (rule go [OF r7]) (simp add: snap_defs)
  have p4: "db_mem p4 = m" "db_version p4 = v" "w_pc (db_writers p4 2) = Returned" "w_snapshot (db_writers p4 2) = 11"
      "db_writers p4 0 = ticketed True put_a 8 None None" "db_logs p4 = db_logs a1" "db_last_sequence p4 = 11"
    by (simp_all add: snap_defs run_defs)
  then show ?thesis using r8 m(2,3) a1(6) by (intro exI [of _ p4]) (simp add: r_def)
qed

text \<open>C16. A snapshot may change after it was handed out. The later of two writers finishes first and
  takes the tail of the queue with it, so the snapshot that is taken next finds an empty queue and does
  not wait for the earlier writer; when that writer inserts, its key appears in the snapshot.\<close>

theorem snapshot_not_stable:
  assumes over: "\<not> over (new_MemTable KeyNum)" and arrays: "length prev0 = kMaxHeight" "length obs0 = kMaxHeight"
  shows "\<exists>s s'. db_reach over prev0 obs0 (opened 7 1 no_guards) s \<and> db_reach over prev0 obs0 s s' \<and>
    w_pc (db_writers s 2) = Returned \<and> w_snapshot (db_writers s 2) = 11 \<and> w_snapshot (db_writers s' 2) = 11 \<and>
    mem_Get Bytewise_Compare KeyNum (db_mem s) (new_LookupKey [97] 11) [] OK = Some (False, [], OK) \<and>
    mem_Get Bytewise_Compare KeyNum (db_mem s') (new_LookupKey [97] 11) [] OK = Some (True, [1], OK)"
proof -
  obtain p where p: "db_reach over prev0 obs0 (opened 7 1 no_guards) p" "db_writers_upper p = 11" "holds (db_mem p) [(10, kTypeValue, [98], [2])]"
      "length (db_version p) = kNumLevels" "w_pc (db_writers p 2) = Returned" "w_snapshot (db_writers p 2) = 11"
      "db_writers p 0 = ticketed True put_a 8 None None" "db_logs p 1 \<noteq> None"
    using reach_snapshot [where over = over, OF assms] by blast
  obtain lw where lw: "db_logs p 1 = Some lw" using p(8) by auto
  obtain a0 where a0: "apply_write OK p 0 = Some a0" "db_writers_upper a0 = 11" "db_mem a0 = db_mem p" "db_version a0 = db_version p" "db_writers a0 2 = db_writers p 2"
      "db_writers a0 0 = (ticketed True put_a 8 None None)\<lparr>w_pc := AtEnd, w_updates := Some (batch_of 8 put_a), w_updates_with_guards := Some (batch_of 8 (with_guards put_a))\<rparr>"
    using apply_write_batch [of p 0 0 put_a 1 lw OK] client_put(1) lw p(2,7)
    by (auto simp: ticketed_def new_DbWriter_def set_writer_def)
  have "db_step over prev0 obs0 p (apply_write OK p 0)" by (rule step_apply) (simp add: p(7) ticketed_def)
  then have sa: "db_step over prev0 obs0 p (Some a0)" by (simp add: a0(1))
  obtain m' v' where m': "end_write prev0 obs0 a0 0 = Some (set_writer 0 (\<lambda>w. w\<lparr>w_pc := AtUnlink\<rparr>) (VersionSet_SetLastSequence 9 (a0\<lparr>db_mem := m', db_version := v'\<rparr>)))"
      "holds m' [(8, kTypeValue, [97], [1]), (10, kTypeValue, [98], [2])]"
    using end_write_batch [of a0 "[(10, kTypeValue, [98], [2])]" 0 8 put_a prev0 obs0] client_put(1) arrays p(3,4) a0
    by (auto simp: ticketed_def new_DbWriter_def)
  define e0 where "e0 = set_writer 0 (\<lambda>w. w\<lparr>w_pc := AtUnlink\<rparr>) (VersionSet_SetLastSequence 9 (a0\<lparr>db_mem := m', db_version := v'\<rparr>))"
  have e0: "db_mem e0 = m'" "db_writers_upper e0 = 11" "db_writers e0 2 = db_writers p 2"
    by (simp_all add: e0_def set_writer_def VersionSet_SetLastSequence_def a0)
  have "db_step over prev0 obs0 a0 (end_write prev0 obs0 a0 0)" by (rule step_end) (simp add: a0 ticketed_def)
  then have "db_step over prev0 obs0 a0 (Some e0)" by (simp add: m'(1) e0_def)
  then have "db_reach over prev0 obs0 p e0"
    using reach_step [OF reach_step [OF reach_start sa]] p(2) a0(2) e0(2) by simp
  moreover have "mem_Get Bytewise_Compare KeyNum (db_mem p) (new_LookupKey [97] 11) [] OK = Some (False, [], OK)"
    by (subst holds_Get [OF p(3)]) (simp_all add: kMaxSequenceNumber_def get_answer_def)
  moreover have "mem_Get Bytewise_Compare KeyNum m' (new_LookupKey [97] 11) [] OK = Some (True, [1], OK)"
    by (subst holds_Get [OF m'(2)]) (simp_all add: kMaxSequenceNumber_def get_answer_def)
  ultimately show ?thesis
    using p e0 by (intro exI [of _ p] exI [of _ e0]) simp
qed

theorem snapshot_not_stable_witness:
  "\<exists>s s'. db_reach (\<lambda>m. False) (replicate 17 0) (replicate 17 None) s s' \<and> w_snapshot (db_writers s 2) = 11 \<and>
    mem_Get Bytewise_Compare KeyNum (db_mem s) (new_LookupKey [97] 11) [] OK \<noteq>
    mem_Get Bytewise_Compare KeyNum (db_mem s') (new_LookupKey [97] 11) [] OK"
  using snapshot_not_stable [of "\<lambda>m. False" "replicate 17 0" "replicate 17 None"]
  by (auto simp: kMaxHeight_def) (metis Pair_inject option.inject)

section \<open>A write in no file\<close>

text \<open>The first writer has written to the log it took, and the memtable has been replaced.\<close>

lemma reach_switched:
  assumes over: "\<not> over (new_MemTable KeyNum)"
  obtains s3 where "db_reach over prev0 obs0 (opened 7 1 no_guards) s3" "db_writers_upper s3 = 9" "db_mem s3 = new_MemTable KeyNum" "db_imm s3 = Some (new_MemTable KeyNum)"
      "db_version s3 = no_guards" "db_logs s3 2 = Some (new_Writer [])" "db_dir s3 = {1, 2}" "db_logfile_number s3 = 2"
      "db_tables s3 = []" "db_last_sequence s3 = 7" "db_writers_tail s3 = Some 0"
      "db_writers s3 0 = (ticketed True put_a 8 None None)\<lparr>w_pc := AtEnd, w_updates := Some (batch_of 8 put_a), w_updates_with_guards := Some (batch_of 8 (with_guards put_a))\<rparr>"
      "db_backup s3 = False" "db_bg_error s3 = OK"
proof -
  let ?s0 = "opened 7 1 no_guards"
  define r where "r t \<longleftrightarrow> db_reach over prev0 obs0 ?s0 t \<and> db_writers_upper t = 9" for t
  have go: "r u" if "r t" "db_step over prev0 obs0 t (Some u)" "db_writers_upper u = 9" for t u
    using that reach_step [of over prev0 obs0 ?s0 t u] by (simp add: r_def)
  have r0: "r one_ticket" using reach_one_ticket [where over = over, OF over] by (simp add: r_def run_defs)
  define s1 where "s1 = start_write 1 None False one_ticket"
  have "db_step over prev0 obs0 one_ticket (Some s1)"
    unfolding s1_def by (rule step_start) (simp_all add: run_defs client_updates_def)
  then have r1: "r s1" by (rule go [OF r0]) (simp add: s1_def run_defs)
  define s2 where "s2 = the (begin_write over OK s1 1)"
  have s2: "begin_write over OK s1 1 = Some s2" "db_writers_upper s2 = 9" "db_mem s2 = new_MemTable KeyNum" "db_imm s2 = Some (new_MemTable KeyNum)"
      "db_version s2 = no_guards" "db_logs s2 = [1 \<mapsto> new_Writer [], 2 \<mapsto> new_Writer []]" "db_dir s2 = {1, 2}" "db_logfile_number s2 = 2"
      "db_tables s2 = []" "db_last_sequence s2 = 7" "db_writers_tail s2 = Some 0" "db_writers s2 0 = ticketed True put_a 8 None None"
      "db_backup s2 = False" "db_bg_error s2 = OK"
    by (auto simp: s2_def s1_def run_defs Let_def)
  have "db_step over prev0 obs0 s1 (begin_write over OK s1 1)"
    by (rule step_begin) (simp_all add: s1_def run_defs)
  with go [OF r1, of s2] s2(1,2) have r2: "r s2" by simp
  define s3 where "s3 = the (apply_write OK s2 0)"
  have s3: "apply_write OK s2 0 = Some s3" "db_writers_upper s3 = 9" "db_mem s3 = new_MemTable KeyNum" "db_imm s3 = Some (new_MemTable KeyNum)"
      "db_version s3 = no_guards" "db_logs s3 2 = Some (new_Writer [])" "db_dir s3 = {1, 2}" "db_logfile_number s3 = 2"
      "db_tables s3 = []" "db_last_sequence s3 = 7" "db_writers_tail s3 = Some 0"
      "db_writers s3 0 = (ticketed True put_a 8 None None)\<lparr>w_pc := AtEnd, w_updates := Some (batch_of 8 put_a), w_updates_with_guards := Some (batch_of 8 (with_guards put_a))\<rparr>"
      "db_backup s3 = False" "db_bg_error s3 = OK"
    using apply_write_batch [of s2 0 0 put_a 1 "new_Writer []" OK] client_put(1) s2
    by (simp_all add: s3_def ticketed_def new_DbWriter_def set_writer_def)
  have "db_step over prev0 obs0 s2 (apply_write OK s2 0)" by (rule step_apply) (simp add: s2 ticketed_def)
  with go [OF r2, of s3] s3(1,2) have r3: "r s3" by simp
  with that s3 show ?thesis by (simp add: r_def)
qed

lemma reach_lost_write:
  assumes over: "\<not> over (new_MemTable KeyNum)" and arrays: "length prev0 = kMaxHeight" "length obs0 = kMaxHeight"
  shows "\<exists>s. db_reach over prev0 obs0 (opened 7 1 no_guards) s \<and>
    w_pc (db_writers s 0) = Returned \<and> w_status (db_writers s 0) = OK \<and> w_sync (db_writers s 0) \<and>
    w_updates (db_writers s 0) = Some (batch_of 8 put_a) \<and> db_imm s = None \<and> db_last_sequence s = 9 \<and> w_start_sequence (db_writers s 0) = 8 \<and>
    db_dir s = {db_log_number s} \<and> (\<exists>lw. db_logs s (db_log_number s) = Some lw \<and> lw_dest lw = []) \<and>
    (\<forall>m\<in>set (db_tables s). mem_Get Bytewise_Compare KeyNum m (new_LookupKey [97] 9) [] OK = Some (False, [], OK))"
proof -
  obtain s3 where s3: "db_reach over prev0 obs0 (opened 7 1 no_guards) s3" "db_writers_upper s3 = 9" "db_mem s3 = new_MemTable KeyNum" "db_imm s3 = Some (new_MemTable KeyNum)"
      "db_version s3 = no_guards" "db_logs s3 2 = Some (new_Writer [])" "db_dir s3 = {1, 2}" "db_logfile_number s3 = 2"
      "db_tables s3 = []" "db_last_sequence s3 = 7" "db_writers_tail s3 = Some 0"
      "db_writers s3 0 = (ticketed True put_a 8 None None)\<lparr>w_pc := AtEnd, w_updates := Some (batch_of 8 put_a), w_updates_with_guards := Some (batch_of 8 (with_guards put_a))\<rparr>"
      "db_backup s3 = False" "db_bg_error s3 = OK"
    using reach_switched [where over = over, OF over] by blast
  let ?s0 = "opened 7 1 no_guards"
  define r where "r t \<longleftrightarrow> db_reach over prev0 obs0 ?s0 t \<and> db_writers_upper t = 9" for t
  have go: "r u" if "r t" "db_step over prev0 obs0 t (Some u)" "db_writers_upper u = 9" for t u
    using that reach_step [of over prev0 obs0 ?s0 t u] by (simp add: r_def)
  have r3: "r s3" using s3 by (simp add: r_def)
  obtain m v where m: "end_write prev0 obs0 s3 0 = Some (set_writer 0 (\<lambda>w. w\<lparr>w_pc := AtUnlink\<rparr>) (VersionSet_SetLastSequence 9 (s3\<lparr>db_mem := m, db_version := v\<rparr>)))"
    using end_write_batch [of s3 "[]" 0 8 put_a prev0 obs0] client_put(1) arrays holds_nothing s3 by (auto simp: ticketed_def new_DbWriter_def)
  define s4 where "s4 = set_writer 0 (\<lambda>w. w\<lparr>w_pc := AtUnlink\<rparr>) (VersionSet_SetLastSequence 9 (s3\<lparr>db_mem := m, db_version := v\<rparr>))"
  define s5 where "s5 = set_writer 0 (\<lambda>w. w\<lparr>w_pc := AtSetImm\<rparr>) (s4\<lparr>db_writers_tail := None\<rparr>)"
  define s6 where "s6 = set_imm s5 0"
  define s7 where "s7 = flush no_guards (new_MemTable KeyNum) s6"
  note defs = s4_def s5_def s6_def s7_def set_imm_def set_writer_def VersionSet_SetLastSequence_def flush_def DeleteObsoleteLogs_def s3 ticketed_def new_DbWriter_def Let_def
  have "db_step over prev0 obs0 s3 (end_write prev0 obs0 s3 0)" by (rule step_end) (simp add: defs)
  with go [OF r3, of s4] m have r4: "r s4" by (simp add: s4_def [symmetric]) (simp add: defs)
  have "unlink_write s4 0 = Some s5"
    by (simp add: unlink_write_def unlink_prev_def unlink_next_def clear_tail_def defs)
  moreover have "db_step over prev0 obs0 s4 (unlink_write s4 0)" by (rule step_unlink) (simp add: defs)
  ultimately have r5: "r s5" using go [OF r4, of s5] by (simp add: defs)
  have "db_step over prev0 obs0 s5 (Some s6)" unfolding s6_def by (rule step_set_imm) (simp add: defs)
  then have r6: "r s6" by (rule go [OF r5]) (simp add: defs)
  have "db_step over prev0 obs0 s6 (Some s7)" unfolding s7_def by (rule step_flush) (simp_all add: defs)
  then have r7: "r s7" by (rule go [OF r6]) (simp add: defs)
  have "mem_Get Bytewise_Compare KeyNum (new_MemTable KeyNum) (new_LookupKey [97] 9) [] OK = Some (False, [], OK)"
    by (subst holds_Get [OF holds_nothing]) (simp_all add: kMaxSequenceNumber_def get_answer_def)
  moreover have "db_dir s7 = {db_log_number s7}" "\<exists>lw. db_logs s7 (db_log_number s7) = Some lw \<and> lw_dest lw = []"
    by (auto simp: defs new_Writer_def word_le_nat_alt)
  ultimately show ?thesis
    using r7 by (intro exI [of _ s7]) (simp add: r_def, simp add: defs)
qed

text \<open>C15. A write that was acknowledged, and synced, may be in no file that recovery reads. When the
  memtable is replaced between the two critical sections of a writer, its record goes to the old log
  and its entries to the new memtable; writing the old memtable out deletes the old log. Every log
  file left is empty, and no table has the key.\<close>

theorem acknowledged_write_in_no_file:
  assumes over: "\<not> over (new_MemTable KeyNum)" and arrays: "length prev0 = kMaxHeight" "length obs0 = kMaxHeight"
  shows "\<exists>s. db_reach over prev0 obs0 (opened 7 1 no_guards) s \<and>
    w_pc (db_writers s 0) = Returned \<and> w_status (db_writers s 0) = OK \<and> w_sync (db_writers s 0) \<and>
    w_updates (db_writers s 0) = Some (batch_of 8 put_a) \<and> db_imm s = None \<and> db_last_sequence s = 9 \<and>
    db_dir s = {db_log_number s} \<and> (\<exists>lw. db_logs s (db_log_number s) = Some lw \<and> lw_dest lw = []) \<and>
    (\<forall>m\<in>set (db_tables s). mem_Get Bytewise_Compare KeyNum m (new_LookupKey [97] 9) [] OK = Some (False, [], OK))"
  using reach_lost_write [where over = over, OF assms] by blast

theorem acknowledged_write_in_no_file_witness:
  "\<exists>s. db_reach (\<lambda>m. False) (replicate 17 0) (replicate 17 None) (opened 7 1 no_guards) s \<and> w_pc (db_writers s 0) = Returned \<and>
    w_status (db_writers s 0) = OK \<and> (\<exists>lw. db_logs s (db_log_number s) = Some lw \<and> lw_dest lw = [])"
  using acknowledged_write_in_no_file [of "\<lambda>m. False" "replicate 17 0" "replicate 17 None"]
  by (simp add: kMaxHeight_def) blast

text \<open>In the same run the write is still readable from memory.\<close>

theorem acknowledged_write_readable_witness:
  "\<exists>s. db_reach (\<lambda>m. False) (replicate 17 0) (replicate 17 None) (opened 7 1 no_guards) s \<and> (8 :: u64) \<le> db_last_sequence s \<and>
    (\<exists>m\<in>set (memtables s). mem_Get Bytewise_Compare KeyNum m (new_LookupKey [97] 8) [] OK = Some (True, [1], OK))"
proof -
  obtain s where s: "db_reach (\<lambda>m. False) (replicate 17 0) (replicate 17 None) (opened 7 1 no_guards) s" "w_pc (db_writers s 0) = Returned"
      "w_status (db_writers s 0) = OK" "w_updates (db_writers s 0) = Some (batch_of 8 put_a)" "w_start_sequence (db_writers s 0) = 8"
    using reach_lost_write [of "\<lambda>m. False" "replicate 17 0" "replicate 17 None"] by (auto simp: kMaxHeight_def)
  have "(8 :: u64) \<le> db_last_sequence s \<and> (\<exists>m\<in>set (memtables s). \<forall>val0 st0.
      mem_Get Bytewise_Compare KeyNum m (new_LookupKey [97] 8) val0 st0 = Some (get_answer (Some (8, kTypeValue, [97], [1])) val0 st0))"
    by (rule acknowledged_write_readable [OF s(1) _ _ _ _ s(2) _ s(4) client_put(1)]) (simp_all add: s kMaxHeight_def)
  then show ?thesis using s(1) by (intro exI [of _ s]) (auto simp: get_answer_def)
qed


end
