(* ===== verification/DbRecovery.thy ===== *)
theory DbRecovery
  imports DbWrite
begin

text \<open>
  \<^verbatim>\<open>DBImpl::RecoverLogFile\<close>: the records of a log file are read, taken for batches and inserted into
  memtables, which are handed to \<^verbatim>\<open>WriteLevel0TableGuards\<close> when they are full and at the end. The model
  keeps the memtables in the order they are handed over; \<open>level0 k\<close> is the status the \<open>k\<close>-th hand-over
  returns, and \<open>over\<close> says that a memtable uses more memory than the write buffer may.
\<close>

section \<open>Replaying a log\<close>

record recovery =
  rc_status :: Status
  rc_mem :: "MemTable option"
  rc_version :: "GuardMetaData list list"
  rc_max_sequence :: SequenceNumber
  rc_tables :: "MemTable list"

definition MaybeIgnoreError :: "bool \<Rightarrow> Status \<Rightarrow> Status" where
  "MaybeIgnoreError paranoid_checks st = (if status_ok st \<or> paranoid_checks then st else OK)"

text \<open>The reporter of the log reader: with paranoid checks the first report becomes the status.\<close>

definition reporter_Corruption :: "bool \<Rightarrow> Status \<Rightarrow> Status \<Rightarrow> Status" where
  "reporter_Corruption paranoid_checks st reason = (if paranoid_checks \<and> status_ok st then reason else st)"

definition report_new :: "bool \<Rightarrow> Status \<Rightarrow> (u64 \<times> Status) list \<Rightarrow> (u64 \<times> Status) list \<Rightarrow> Status" where
  "report_new paranoid_checks st before now =
     foldl (\<lambda>st (bytes, reason). reporter_Corruption paranoid_checks st reason) st (drop (length before) now)"

definition recover_flush :: "(nat \<Rightarrow> Status) \<Rightarrow> MemTable \<Rightarrow> recovery \<Rightarrow> recovery" where
  "recover_flush level0 mem rc =
     rc\<lparr>rc_status := level0 (length (rc_tables rc)), rc_tables := rc_tables rc @ [mem]\<rparr>"

text \<open>The body of the loop for a record that was read. The result says whether the loop goes on.\<close>

definition recover_record ::
  "bool \<Rightarrow> (MemTable \<Rightarrow> bool) \<Rightarrow> (nat \<Rightarrow> Status) \<Rightarrow> nat list \<Rightarrow> nat option list \<Rightarrow> slice \<Rightarrow> recovery \<Rightarrow> (bool \<times> recovery) option"
where
  "recover_record paranoid_checks over level0 prev0 obs0 record rc =
     (if length record < 12
      then Some (True, rc\<lparr>rc_status := reporter_Corruption paranoid_checks (rc_status rc) (Corruption (str ''log record too small'') [])\<rparr>)
      else case SetContents record of
        None \<Rightarrow> None
      | Some batch \<Rightarrow>
          let mem = (case rc_mem rc of None \<Rightarrow> mem_Ref (new_MemTable KeyNum) | Some m \<Rightarrow> m) in
          (case InsertIntoVersion Bytewise_Compare KeyNum prev0 obs0 batch mem (Some (rc_version rc)) of
             None \<Rightarrow> None
           | Some (st, ins) \<Rightarrow>
               let rc = rc\<lparr>rc_status := MaybeIgnoreError paranoid_checks st, rc_mem := Some (ins_mem ins),
                          rc_version := the (ins_version ins)\<rparr>
               in if \<not> status_ok (rc_status rc) then Some (False, rc)
                  else
                    let last_seq = Sequence batch + (scast (Count batch) :: u64) - 1;
                        rc = (if rc_max_sequence rc < last_seq then rc\<lparr>rc_max_sequence := last_seq\<rparr> else rc)
                    in if over (ins_mem ins)
                       then let rc = recover_flush level0 (ins_mem ins) rc
                            in if \<not> status_ok (rc_status rc) then Some (False, rc)
                               else Some (True, rc\<lparr>rc_mem := None\<rparr>)
                       else Some (True, rc)))"

partial_function (option) recover_loop ::
  "('f \<Rightarrow> nat \<Rightarrow> Status \<times> slice \<times> 'f) \<Rightarrow> ('f \<Rightarrow> u64 \<Rightarrow> Status \<times> 'f) \<Rightarrow>
   bool \<Rightarrow> (MemTable \<Rightarrow> bool) \<Rightarrow> (nat \<Rightarrow> Status) \<Rightarrow> nat list \<Rightarrow> nat option list \<Rightarrow>
   'f log_reader \<Rightarrow> slice \<Rightarrow> slice \<Rightarrow> recovery \<Rightarrow> recovery option"
where
  "recover_loop seq_read seq_skip paranoid_checks over level0 prev0 obs0 reader record scratch rc =
     (case ReadRecord seq_read seq_skip reader record scratch of
        None \<Rightarrow> None
      | Some (ok, record, scratch, reader') \<Rightarrow>
          let rc = rc\<lparr>rc_status := report_new paranoid_checks (rc_status rc) (lr_reports reader) (lr_reports reader')\<rparr> in
          if ok \<and> status_ok (rc_status rc)
          then (case recover_record paranoid_checks over level0 prev0 obs0 record rc of
                  None \<Rightarrow> None
                | Some (go, rc) \<Rightarrow>
                    if go then recover_loop seq_read seq_skip paranoid_checks over level0 prev0 obs0 reader' record scratch rc
                    else Some rc)
          else Some rc)"

definition AddCompleteGuardsToEdit :: "GuardMetaData list list \<Rightarrow> VersionEdit \<Rightarrow> VersionEdit" where
  "AddCompleteGuardsToEdit complete_guards edit =
     foldl (\<lambda>edit i. foldl (\<lambda>edit g. AddCompleteGuardFromExisting edit (int i) g) edit (complete_guards ! i)) edit [0..<kNumLevels]"

text \<open>The file is the result of opening it. \<^verbatim>\<open>AddGuardsToEdit\<close> is called with the empty set of levels and
  leaves the edit as it is.\<close>

definition RecoverLogFile ::
  "('f \<Rightarrow> nat \<Rightarrow> Status \<times> slice \<times> 'f) \<Rightarrow> ('f \<Rightarrow> u64 \<Rightarrow> Status \<times> 'f) \<Rightarrow>
   bool \<Rightarrow> (MemTable \<Rightarrow> bool) \<Rightarrow> (nat \<Rightarrow> Status) \<Rightarrow> nat list \<Rightarrow> nat option list \<Rightarrow>
   Status + 'f \<Rightarrow> GuardMetaData list list \<Rightarrow> SequenceNumber \<Rightarrow> VersionEdit \<Rightarrow> (recovery \<times> VersionEdit) option"
where
  "RecoverLogFile seq_read seq_skip paranoid_checks over level0 prev0 obs0 opened_file version max_sequence edit =
     (let rc = \<lparr>rc_status = OK, rc_mem = None, rc_version = version, rc_max_sequence = max_sequence, rc_tables = []\<rparr> in
      case opened_file of
        Inl st \<Rightarrow> Some (rc\<lparr>rc_status := MaybeIgnoreError paranoid_checks st\<rparr>, edit)
      | Inr f \<Rightarrow>
          (case recover_loop seq_read seq_skip paranoid_checks over level0 prev0 obs0 (new_Reader f True True 0) [] [] rc of
             None \<Rightarrow> None
           | Some rc \<Rightarrow>
               let edit = AddCompleteGuardsToEdit (rc_version rc) edit;
                   rc = (case rc_mem rc of
                           None \<Rightarrow> rc
                         | Some mem \<Rightarrow> if status_ok (rc_status rc) then recover_flush level0 mem rc else rc)
               in Some (rc\<lparr>rc_mem := None\<rparr>, edit)))"

section \<open>The loop over the records the reader returns\<close>

fun recover_list ::
  "bool \<Rightarrow> (MemTable \<Rightarrow> bool) \<Rightarrow> (nat \<Rightarrow> Status) \<Rightarrow> nat list \<Rightarrow> nat option list \<Rightarrow> slice list \<Rightarrow> recovery \<Rightarrow> recovery option"
where
  "recover_list paranoid_checks over level0 prev0 obs0 [] rc = Some rc"
| "recover_list paranoid_checks over level0 prev0 obs0 (r # rs) rc =
     (if \<not> status_ok (rc_status rc) then Some rc
      else case recover_record paranoid_checks over level0 prev0 obs0 r rc of
        None \<Rightarrow> None
      | Some (go, rc) \<Rightarrow> if go then recover_list paranoid_checks over level0 prev0 obs0 rs rc else Some rc)"

text \<open>Reports are only ever added.\<close>

definition adds :: "'f log_reader \<Rightarrow> 'f log_reader \<Rightarrow> bool" where
  "adds r r' \<longleftrightarrow> (\<exists>xs. lr_reports r' = lr_reports r @ xs)"

lemma adds_refl [simp]: "adds r r"
  by (simp add: adds_def)

lemma adds_trans: "adds r s \<Longrightarrow> adds s t \<Longrightarrow> adds r t"
  by (auto simp: adds_def)

lemma adds_update [simp]:
  "adds r (s\<lparr>lr_buffer := b\<rparr>) = adds r s" "adds r (s\<lparr>lr_file := f\<rparr>) = adds r s" "adds r (s\<lparr>lr_eof := e\<rparr>) = adds r s"
  "adds r (s\<lparr>lr_end_of_buffer_offset := n\<rparr>) = adds r s" "adds r (s\<lparr>lr_last_record_offset := n\<rparr>) = adds r s"
  "adds (s\<lparr>lr_buffer := b\<rparr>) r = adds s r" "adds (s\<lparr>lr_file := f\<rparr>) r = adds s r" "adds (s\<lparr>lr_eof := e\<rparr>) r = adds s r"
  "adds (s\<lparr>lr_end_of_buffer_offset := n\<rparr>) r = adds s r"
  by (simp_all add: adds_def)

lemma adds_report [simp]: "adds r s \<Longrightarrow> adds r (ReportDrop s b st)" "adds r s \<Longrightarrow> adds r (ReportCorruption s b x)"
proof -
  have d: "adds s (ReportDrop s b st)" for b st by (simp add: adds_def ReportDrop_def)
  then show "adds r s \<Longrightarrow> adds r (ReportDrop s b st)" by (rule adds_trans [rotated])
  show "adds r s \<Longrightarrow> adds r (ReportCorruption s b x)" unfolding ReportCorruption_def using d by (rule adds_trans [rotated])
qed

lemma parse_adds: "parse_physical_record r result = (t, x, r') \<Longrightarrow> adds r r'"
  by (auto simp: parse_physical_record_def Let_def split: if_splits)

lemma ReadPhysicalRecord_adds: "ReadPhysicalRecord seq_read r result = (t, x, r') \<Longrightarrow> adds r r'"
proof (induction seq_read r result arbitrary: r' rule: ReadPhysicalRecord.induct)
  case (1 seq_read r result)
  obtain st buffer f where read: "seq_read (lr_file r) (unat kBlockSize) = (st, buffer, f)" by (metis prod_cases3)
  note IH = 1(1) [OF _ _ read [symmetric] refl refl]
  show ?case
    using 1(2) read IH by (subst (asm) ReadPhysicalRecord.simps) (auto simp: Let_def parse_adds split: if_splits)
qed

lemma ReadRecord_switch_adds:
  "ReadRecord_switch p t v r = Loop vr \<or> ReadRecord_switch p t v r = Return ok vr \<Longrightarrow> adds r (snd vr)"
  by (auto simp: ReadRecord_switch_def partial_record_report_def Let_def split: if_splits)

lemma ReadRecord_body_adds:
  assumes "ReadRecord_body seq_read v r = Loop vr \<or> ReadRecord_body seq_read v r = Return ok vr"
  shows "adds r (snd vr)"
proof -
  obtain t x r1 where r1: "ReadPhysicalRecord seq_read r (rv_fragment v) = (t, x, r1)" by (metis prod_cases3)
  have "adds r1 (snd vr)"
    using assms r1 by (auto simp: ReadRecord_body_def Let_def dest!: ReadRecord_switch_adds [OF disjI1] ReadRecord_switch_adds [OF disjI2])
  with ReadPhysicalRecord_adds [OF r1] show ?thesis by (rule adds_trans)
qed

lemma ReadRecord_loop_adds:
  assumes "ReadRecord_loop seq_read v r = Some y"
  shows "adds r (snd (snd y))"
proof (rule ReadRecord_loop.raw_induct [where P = "\<lambda>sr v r y. adds r (snd (snd y))", OF _ assms])
  fix loop and sr :: "'a \<Rightarrow> nat \<Rightarrow> Status \<times> slice \<times> 'a" and v r y
  assume IH: "\<And>sr v r y. loop sr v r = Some y \<Longrightarrow> adds r (snd (snd y))"
    and step: "(case ReadRecord_body sr v r of Loop vr \<Rightarrow> loop sr (fst vr) (snd vr) | Return ok vr \<Rightarrow> Some (ok, vr)) = Some y"
  show "adds r (snd (snd y))"
  proof (cases "ReadRecord_body sr v r")
    case (Loop vr)
    then show ?thesis using step IH [of sr "fst vr" "snd vr" y] ReadRecord_body_adds [of sr v r vr] by (auto intro: adds_trans)
  next
    case (Return ok vr)
    then show ?thesis using step ReadRecord_body_adds [of sr v r vr ok] by auto
  qed
qed

lemma ReadRecord_adds:
  assumes "ReadRecord seq_read seq_skip r rcd scratch = Some (ok, record', scratch', r')"
  shows "adds r r'"
proof -
  obtain b r1 where r1: "(if lr_last_record_offset r < lr_initial_offset r then SkipToInitialBlock seq_skip r else (True, r)) = (b, r1)"
    by (metis prod.exhaust)
  then have "adds r r1" by (auto simp: SkipToInitialBlock_def Let_def split: if_splits prod.splits)
  moreover have "adds r1 r'"
    using assms r1 by (auto simp: ReadRecord_def split: if_splits dest!: ReadRecord_loop_adds)
  ultimately show ?thesis by (rule adds_trans)
qed

lemma ReadRecords_cases:
  assumes "ReadRecords seq_read seq_skip r rcd scratch = Some (rs, r')"
  obtains (End) rcd' scratch' where "ReadRecord seq_read seq_skip r rcd scratch = Some (False, rcd', scratch', r')" "rs = []"
  | (More) rcd' scratch' r1 ys where "ReadRecord seq_read seq_skip r rcd scratch = Some (True, rcd', scratch', r1)" "rs = rcd' # ys"
      "ReadRecords seq_read seq_skip r1 rcd' scratch' = Some (ys, r')"
proof (cases "ReadRecord seq_read seq_skip r rcd scratch")
  case None
  with assms ReadRecords.simps [of seq_read seq_skip r rcd scratch] show ?thesis by simp
next
  case (Some x)
  obtain ok rcd' scratch' r1 where x: "x = (ok, rcd', scratch', r1)" by (cases x)
  note eq = assms [unfolded ReadRecords.simps [of seq_read seq_skip r rcd scratch] Some x option.case prod.case]
  show ?thesis
  proof (cases ok)
    case True
    with eq obtain ys where "ReadRecords seq_read seq_skip r1 rcd' scratch' = Some (ys, r')" "rs = rcd' # ys"
      by (cases "ReadRecords seq_read seq_skip r1 rcd' scratch'") auto
    with More Some x True show ?thesis by simp
  next
    case False
    with eq End Some x show ?thesis by simp
  qed
qed

lemma ReadRecords_adds: "ReadRecords seq_read seq_skip r rcd scratch = Some (rs, r') \<Longrightarrow> adds r r'"
proof (induction rs arbitrary: r rcd scratch)
  case Nil
  then show ?case by (cases rule: ReadRecords_cases) (simp_all add: ReadRecord_adds)
next
  case (Cons x rs)
  from Cons.prems show ?case
  proof (cases rule: ReadRecords_cases)
    case (More rcd' scratch' r1 ys)
    then have "ReadRecords seq_read seq_skip r1 rcd' scratch' = Some (rs, r')" by simp
    from ReadRecord_adds [OF More(1)] Cons.IH [OF this] show ?thesis by (rule adds_trans)
  qed simp
qed

lemma adds_antisym:
  assumes "adds r s" "adds s t" "lr_reports t = lr_reports r"
  shows "lr_reports s = lr_reports r"
proof -
  obtain xs ys where "lr_reports s = lr_reports r @ xs" "lr_reports t = lr_reports s @ ys"
    using assms(1,2) unfolding adds_def by blast
  with assms(3) show ?thesis by (metis append.assoc append_self_conv append_is_Nil_conv)
qed

lemma recover_loop_list:
  assumes "ReadRecords seq_read seq_skip reader rcd scratch = Some (rs, reader')" "lr_reports reader' = lr_reports reader"
    "recover_list paranoid_checks over level0 prev0 obs0 rs rc = Some rc'"
  shows "recover_loop seq_read seq_skip paranoid_checks over level0 prev0 obs0 reader rcd scratch rc = Some rc'"
  using assms
proof (induction rs arbitrary: reader rcd scratch rc)
  case Nil
  then obtain record' scratch' where rd: "ReadRecord seq_read seq_skip reader rcd scratch = Some (False, record', scratch', reader')"
    by (subst (asm) ReadRecords.simps) (auto split: option.splits if_splits bind_splits)
  show ?case using Nil.prems(2,3) by (subst recover_loop.simps) (simp add: rd report_new_def)
next
  case (Cons x rs)
  from Cons.prems(1) obtain scratch' r1 where rd: "ReadRecord seq_read seq_skip reader rcd scratch = Some (True, x, scratch', r1)"
      "ReadRecords seq_read seq_skip r1 x scratch' = Some (rs, reader')"
    by (cases rule: ReadRecords_cases) auto
  have same: "lr_reports r1 = lr_reports reader"
    using adds_antisym [OF ReadRecord_adds [OF rd(1)] ReadRecords_adds [OF rd(2)] Cons.prems(2)] .
  have IH: "recover_list paranoid_checks over level0 prev0 obs0 rs rc = Some rc' \<Longrightarrow>
      recover_loop seq_read seq_skip paranoid_checks over level0 prev0 obs0 r1 x scratch' rc = Some rc'" for rc
    using Cons.IH [OF rd(2)] Cons.prems(2) same by simp
  show ?case
    using Cons.prems(3) IH
    by (subst recover_loop.simps) (auto simp: rd(1) report_new_def same Let_def split: option.splits if_splits)
qed

section \<open>What a replay leaves behind\<close>

text \<open>The batches of a log, their records and their writes.\<close>

type_synonym log_batch = "SequenceNumber \<times> batch_op list"

definition batch_good :: "log_batch \<Rightarrow> bool" where
  "batch_good b \<longleftrightarrow> list_all op_insertable (snd b) \<and> unat (fst b) + length (snd b) \<le> unat kMaxSequenceNumber + 1 \<and> length (snd b) < 2 ^ 31"

definition batch_records :: "log_batch list \<Rightarrow> slice list" where
  "batch_records bs = map (\<lambda>b. batch_of (fst b) (snd b)) bs"

definition batch_writes :: "log_batch list \<Rightarrow> mem_write list" where
  "batch_writes bs = concat (map (\<lambda>b. op_writes True (fst b) (snd b)) bs)"

definition last_number :: "log_batch \<Rightarrow> SequenceNumber" where
  "last_number b = fst b + of_nat (length (snd b)) - 1"

text \<open>A memtable that holds some writes, in the order they were made.\<close>

definition held :: "MemTable \<Rightarrow> mem_write list \<Rightarrow> bool" where
  "held m ws \<longleftrightarrow> (\<exists>es. bytewise_mem.mem_holds m es (rev ws))"

definition held_opt :: "MemTable option \<Rightarrow> mem_write list \<Rightarrow> bool" where
  "held_opt mo ws \<longleftrightarrow> (case mo of None \<Rightarrow> ws = [] | Some m \<Rightarrow> held m ws)"

lemma held_new: "held (mem_Ref (new_MemTable KeyNum)) []"
  using bytewise_mem.new_mem_holds unfolding held_def bytewise_mem.mem_holds_def by (simp add: mem_Ref_def)

lemma recover_record_batch:
  assumes rc: "held_opt (rc_mem rc) ws" "length (rc_version rc) = kNumLevels" and b: "batch_good b"
    and new: "fst ` set (op_writes True (fst b) (snd b)) \<inter> fst ` set ws = {}"
    and level0: "\<And>k. level0 k = OK" and arrays: "length prev0 = kMaxHeight" "length obs0 = kMaxHeight"
  shows "\<exists>m. held m (ws @ op_writes True (fst b) (snd b)) \<and>
    recover_record paranoid_checks over level0 prev0 obs0 (batch_of (fst b) (snd b)) rc =
      Some (True, rc\<lparr>rc_status := OK, rc_mem := (if over m then None else Some m), rc_version := add_guards (fst b) (snd b) (rc_version rc),
        rc_max_sequence := max (rc_max_sequence rc) (last_number b), rc_tables := rc_tables rc @ (if over m then [m] else [])\<rparr>)"
proof -
  let ?m = "case rc_mem rc of None \<Rightarrow> mem_Ref (new_MemTable KeyNum) | Some m \<Rightarrow> m"
  have "held ?m ws" using rc(1) held_new by (auto simp: held_opt_def split: option.splits)
  then obtain es where es: "bytewise_mem.mem_holds ?m es (rev ws)" by (auto simp: held_def)
  have good: "list_all op_insertable (snd b)" "unat (fst b) + length (snd b) \<le> unat kMaxSequenceNumber + 1" "length (snd b) < 2 ^ 31"
    using b by (simp_all add: batch_good_def)
  have new': "fst ` set (op_writes (Some (rc_version rc) \<noteq> None) (fst b) (snd b)) \<inter> fst ` set (rev ws) = {}" using new by simp
  obtain ins es' where ins: "InsertIntoVersion Bytewise_Compare KeyNum prev0 obs0 (batch_of (fst b) (snd b)) ?m (Some (rc_version rc)) = Some (OK, ins)"
      "bytewise_mem.mem_holds (ins_mem ins) es' (rev (op_writes True (fst b) (snd b)) @ rev ws)"
      "ins_version ins = Some (add_guards (fst b) (snd b) (rc_version rc))"
    using bytewise_mem.InsertIntoVersion_holds [OF es good(1,2) new' _ arrays] rc(2) by auto
  have "held (ins_mem ins) (ws @ op_writes True (fst b) (snd b))" using ins(2) by (auto simp: held_def)
  moreover have "\<not> length (batch_of (fst b) (snd b)) < 12" using batch_of_length [of "fst b" "snd b"] by (simp add: kHeader_def)
  moreover have "Sequence (batch_of (fst b) (snd b)) + scast (Count (batch_of (fst b) (snd b))) - 1 = last_number b"
    using good(3) by (simp add: batch_of_header last_number_def scast_count)
  ultimately show ?thesis
    using ins level0
    by (intro exI [of _ "ins_mem ins"])
      (auto simp: recover_record_def SetContents_def kHeader_def Let_def MaybeIgnoreError_def recover_flush_def max_def not_less)
qed

lemma batch_writes_simps [simp]:
  "batch_writes [] = []" "batch_writes (b # bs) = op_writes True (fst b) (snd b) @ batch_writes bs"
  "batch_writes (bs @ cs) = batch_writes bs @ batch_writes cs"
  by (simp_all add: batch_writes_def)

lemma recover_list_batches:
  assumes "rc_status rc = OK" "held_opt (rc_mem rc) ws" "length (rc_version rc) = kNumLevels" "list_all batch_good bs"
    "distinct (map fst (ws @ batch_writes bs))" and level0: "\<And>k. level0 k = OK" and arrays: "length prev0 = kMaxHeight" "length obs0 = kMaxHeight"
  shows "\<exists>rc' ts wss wl. recover_list paranoid_checks over level0 prev0 obs0 (batch_records bs) rc = Some rc' \<and>
    rc_status rc' = OK \<and> rc_tables rc' = rc_tables rc @ ts \<and> list_all2 held ts wss \<and> held_opt (rc_mem rc') wl \<and>
    ws @ batch_writes bs = concat wss @ wl \<and> rc_max_sequence rc' = foldl max (rc_max_sequence rc) (map last_number bs) \<and>
    rc_version rc' = foldl (\<lambda>v b. add_guards (fst b) (snd b) v) (rc_version rc) bs"
  using assms(1-5)
proof (induction bs arbitrary: rc ws)
  case Nil
  then show ?case by (intro exI [of _ rc] exI [of _ "[]"] exI [of _ ws]) (simp add: batch_records_def)
next
  case (Cons b bs)
  let ?ws = "op_writes True (fst b) (snd b)"
  have "fst ` set ?ws \<inter> fst ` set ws = {}" using Cons.prems(5) by auto
  then obtain m where m: "held m (ws @ ?ws)"
    "recover_record paranoid_checks over level0 prev0 obs0 (batch_of (fst b) (snd b)) rc =
      Some (True, rc\<lparr>rc_status := OK, rc_mem := (if over m then None else Some m), rc_version := add_guards (fst b) (snd b) (rc_version rc),
        rc_max_sequence := max (rc_max_sequence rc) (last_number b), rc_tables := rc_tables rc @ (if over m then [m] else [])\<rparr>)"
    using recover_record_batch [of rc ws b level0 prev0 obs0 paranoid_checks over] Cons.prems(2-4) level0 arrays by auto
  define rc1 where "rc1 = rc\<lparr>rc_status := OK, rc_mem := (if over m then None else Some m), rc_version := add_guards (fst b) (snd b) (rc_version rc),
        rc_max_sequence := max (rc_max_sequence rc) (last_number b), rc_tables := rc_tables rc @ (if over m then [m] else [])\<rparr>"
  define ws1 where "ws1 = (if over m then [] else ws @ ?ws)"
  have "held_opt (rc_mem rc1) ws1" using m(1) by (simp add: rc1_def ws1_def held_opt_def)
  moreover have "distinct (map fst (ws1 @ batch_writes bs))" using Cons.prems(5) by (auto simp: ws1_def)
  ultimately obtain rc' ts wss wl where rc': "recover_list paranoid_checks over level0 prev0 obs0 (batch_records bs) rc1 = Some rc'"
      "rc_status rc' = OK" "rc_tables rc' = rc_tables rc1 @ ts" "list_all2 held ts wss" "held_opt (rc_mem rc') wl"
      "ws1 @ batch_writes bs = concat wss @ wl" "rc_max_sequence rc' = foldl max (rc_max_sequence rc1) (map last_number bs)"
      "rc_version rc' = foldl (\<lambda>v b. add_guards (fst b) (snd b) v) (rc_version rc1) bs"
    using Cons.IH [of rc1 ws1] Cons.prems(4) by (auto simp: rc1_def)
  have "recover_list paranoid_checks over level0 prev0 obs0 (batch_records (b # bs)) rc = Some rc'"
    using rc'(1) m(2) Cons.prems(1) by (simp add: batch_records_def rc1_def [symmetric])
  then show ?case
    using rc' m(1)
    by (intro exI [of _ rc'] exI [of _ "(if over m then [m] else []) @ ts"] exI [of _ "(if over m then [ws @ ?ws] else []) @ wss"] exI [of _ wl])
      (auto simp: rc1_def ws1_def split: if_splits)
qed

text \<open>The answers of a memtable that holds some writes.\<close>

definition answers :: "MemTable \<Rightarrow> mem_write list \<Rightarrow> bool" where
  "answers m ws \<longleftrightarrow> (\<forall>u snapshot val0 st0. length u + 8 < 2 ^ 32 \<and> snapshot \<le> kMaxSequenceNumber \<longrightarrow>
     mem_Get Bytewise_Compare KeyNum m (new_LookupKey u snapshot) val0 st0 = Some (get_answer (newest u snapshot ws) val0 st0))"

lemma held_answers: "held m ws \<Longrightarrow> distinct (map fst ws) \<Longrightarrow> answers m ws"
  using bytewise_Get_newest [of m _ "rev ws" ws] by (auto simp: held_def answers_def)

lemma distinct_map_concat: "distinct (map f (concat xss)) \<Longrightarrow> xs \<in> set xss \<Longrightarrow> distinct (map f xs)"
  by (induction xss) auto

lemma RecoverLogFile_batches:
  assumes bs: "list_all batch_good bs" "distinct (map fst (batch_writes bs))" and v: "length version = kNumLevels"
    and read: "ReadRecords flat_Read flat_Skip (new_Reader f True True 0) [] [] = Some (batch_records bs, r')" "lr_reports r' = []"
    and level0: "\<And>k. level0 k = OK" and arrays: "length prev0 = kMaxHeight" "length obs0 = kMaxHeight"
  shows "\<exists>rc edit' wss. RecoverLogFile flat_Read flat_Skip paranoid_checks over level0 prev0 obs0 (Inr f) version mx edit = Some (rc, edit') \<and>
    rc_status rc = OK \<and> list_all2 answers (rc_tables rc) wss \<and> concat wss = batch_writes bs \<and>
    rc_max_sequence rc = foldl max mx (map last_number bs) \<and>
    rc_version rc = foldl (\<lambda>v b. add_guards (fst b) (snd b) v) version bs \<and> edit' = AddCompleteGuardsToEdit (rc_version rc) edit"
proof -
  let ?rc = "\<lparr>rc_status = OK, rc_mem = None, rc_version = version, rc_max_sequence = mx, rc_tables = []\<rparr>"
  obtain rc ts wss wl where rc: "recover_list paranoid_checks over level0 prev0 obs0 (batch_records bs) ?rc = Some rc"
      "rc_status rc = OK" "rc_tables rc = ts" "list_all2 held ts wss" "held_opt (rc_mem rc) wl"
      "batch_writes bs = concat wss @ wl" "rc_max_sequence rc = foldl max mx (map last_number bs)"
      "rc_version rc = foldl (\<lambda>v b. add_guards (fst b) (snd b) v) version bs"
    using recover_list_batches [of ?rc "[]" bs level0 prev0 obs0 paranoid_checks over] assms by (auto simp: held_opt_def)
  note loop = recover_loop_list [OF read(1) _ rc(1)]
  have loop: "recover_loop flat_Read flat_Skip paranoid_checks over level0 prev0 obs0 (new_Reader f True True 0) [] [] ?rc = Some rc"
    by (rule loop) (simp add: read(2))
  have all: "distinct (map fst ws)" if "ws \<in> set (wss @ [wl])" for ws
  proof -
    have "distinct (map fst (concat (wss @ [wl])))" using bs(2) rc(6) by simp
    from distinct_map_concat [OF this that] show ?thesis .
  qed
  have tables: "list_all2 answers ts wss"
    using rc(4) all by (auto simp: list_all2_conv_all_nth intro!: held_answers)
  show ?thesis
  proof (cases "rc_mem rc")
    case None
    then have "wl = []" using rc(5) by (simp add: held_opt_def)
    with None loop rc tables show ?thesis
      by (intro exI [of _ "rc\<lparr>rc_mem := None\<rparr>"] exI [of _ "AddCompleteGuardsToEdit (rc_version rc) edit"] exI [of _ wss])
        (simp add: RecoverLogFile_def Let_def)
  next
    case (Some m)
    then have "answers m wl" using rc(5) all by (intro held_answers) (simp_all add: held_opt_def)
    with Some loop rc tables level0 show ?thesis
      by (intro exI [of _ "(recover_flush level0 m rc)\<lparr>rc_mem := None\<rparr>"] exI [of _ "AddCompleteGuardsToEdit (rc_version rc) edit"] exI [of _ "wss @ [wl]"])
        (simp add: RecoverLogFile_def Let_def recover_flush_def list_all2_appendI)
  qed
qed

end
