(* ===== verification/Bloom.thy ===== *)
theory Bloom
  imports Hash DbFormat
begin

text \<open>
  \<^verbatim>\<open>util/bloom.cc\<close>, the policy that decides which keys a filter may hold, and \<^verbatim>\<open>InternalFilterPolicy\<close> of
  \<^verbatim>\<open>db/dbformat.cc\<close>, which applies a policy to the user keys of internal keys. The locale
  \<open>filter_policy\<close> is the contract of \<^verbatim>\<open>include/pebblesdb/filter_policy.h\<close>: a filter is appended, and every
  key it was made from matches it.
\<close>

section \<open>The Bloom filter\<close>

definition BloomHash :: "slice \<Rightarrow> u32" where
  "BloomHash key = Hash key 0xbc9f1d34"

record BloomFilterPolicy =
  bf_bits_per_key :: u64
  bf_k :: nat
  bf_byte_size :: u64
  bf_filter_count :: u64

text \<open>The number of probes is the product with 0.69 rounded towards zero. Below 31 the product in floating
  point and the exact one have the same integral part, and larger values are replaced by 30. The
  conversion of a number below -1 has no defined result.\<close>

definition new_BloomFilterPolicy :: "int \<Rightarrow> BloomFilterPolicy option" where
  "new_BloomFilterPolicy bits_per_key =
     (if bits_per_key * 69 \<le> - 100 then None
      else let k = nat (bits_per_key * 69 div 100);
               k = (if k < 1 then 1 else k);
               k = (if k > 30 then 30 else k)
           in Some \<lparr>bf_bits_per_key = of_int bits_per_key, bf_k = k, bf_byte_size = 0, bf_filter_count = 0\<rparr>)"

definition bloom_delta :: "u32 \<Rightarrow> u32" where
  "bloom_delta h = drop_bit 17 h OR push_bit 15 h"

definition bloom_bitpos :: "u32 \<Rightarrow> u64 \<Rightarrow> u32" where
  "bloom_bitpos h bits = ucast ((ucast h :: u64) mod bits)"

primrec bloom_set :: "nat \<Rightarrow> u32 \<Rightarrow> u32 \<Rightarrow> u64 \<Rightarrow> nat \<Rightarrow> slice \<Rightarrow> slice" where
  "bloom_set 0 h delta bits init_size dst = dst"
| "bloom_set (Suc j) h delta bits init_size dst =
     (let bitpos = unat (bloom_bitpos h bits);
          i = init_size + bitpos div 8
      in bloom_set j (h + delta) delta bits init_size (dst[i := dst ! i OR push_bit (bitpos mod 8) 1]))"

definition bloom_CreateFilter :: "BloomFilterPolicy \<Rightarrow> slice list \<Rightarrow> 32 word \<Rightarrow> slice \<Rightarrow> BloomFilterPolicy \<times> slice" where
  "bloom_CreateFilter p keys n dst =
     (let p = p\<lparr>bf_filter_count := bf_filter_count p + 1\<rparr>;
          bits = (scast n :: u64) * bf_bits_per_key p;
          bits = (if bits < 64 then 64 else bits);
          bytes = (bits + 7) div 8;
          bits = bytes * 8;
          p = p\<lparr>bf_byte_size := bf_byte_size p + bytes\<rparr>;
          init_size = length dst;
          dst = dst @ replicate (unat bytes) 0 @ [of_nat (bf_k p)]
      in (p, foldl (\<lambda>dst key. let h = BloomHash key in bloom_set (bf_k p) h (bloom_delta h) bits init_size dst)
               dst (take (nat (sint n)) keys)))"

primrec bloom_check :: "nat \<Rightarrow> u32 \<Rightarrow> u32 \<Rightarrow> u64 \<Rightarrow> slice \<Rightarrow> bool" where
  "bloom_check 0 h delta bits array \<longleftrightarrow> True"
| "bloom_check (Suc j) h delta bits array \<longleftrightarrow>
     (let bitpos = unat (bloom_bitpos h bits)
      in if array ! (bitpos div 8) AND push_bit (bitpos mod 8) 1 = 0 then False
         else bloom_check j (h + delta) delta bits array)"

text \<open>The number of probes in a filter is read as a signed character.\<close>

definition bloom_KeyMayMatch :: "BloomFilterPolicy \<Rightarrow> slice \<Rightarrow> slice \<Rightarrow> bool" where
  "bloom_KeyMayMatch p key bloom_filter =
     (let len = length bloom_filter in
      if len < 2 then False
      else let bits = (of_nat len - 1) * 8 :: u64;
               k = scast (bloom_filter ! (len - 1)) :: u64
           in if k > 30 then True
              else let h = BloomHash key in bloom_check (unat k) h (bloom_delta h) bits bloom_filter)"

section \<open>The policy for internal keys\<close>

definition Internal_CreateFilter ::
  "('p \<Rightarrow> slice list \<Rightarrow> 32 word \<Rightarrow> slice \<Rightarrow> 'p \<times> slice) \<Rightarrow> 'p \<Rightarrow> slice list \<Rightarrow> 32 word \<Rightarrow> slice \<Rightarrow> 'p \<times> slice"
where
  "Internal_CreateFilter create p keys n dst =
     (let m = nat (sint n) in create p (map ExtractUserKey (take m keys) @ drop m keys) n dst)"

definition Internal_KeyMayMatch :: "('p \<Rightarrow> slice \<Rightarrow> slice \<Rightarrow> bool) \<Rightarrow> 'p \<Rightarrow> slice \<Rightarrow> slice \<Rightarrow> bool" where
  "Internal_KeyMayMatch may_match p key f = may_match p (ExtractUserKey key) f"

section \<open>Counts as signed integers\<close>

lemma sint_of_nat_small: "n < 2 ^ 31 \<Longrightarrow> sint (of_nat n :: 32 word) = int n"
  by (simp add: signed_of_nat signed_take_bit_int_eq_self)

lemma nat_sint_length [simp]: "length xs < 2 ^ 31 \<Longrightarrow> nat (sint (of_nat (length xs) :: 32 word)) = length xs"
  by (simp add: sint_of_nat_small)

section \<open>What a policy promises\<close>

locale filter_policy =
  fixes create :: "'p \<Rightarrow> slice list \<Rightarrow> 32 word \<Rightarrow> slice \<Rightarrow> 'p \<times> slice"
    and may_match :: "'p \<Rightarrow> slice \<Rightarrow> slice \<Rightarrow> bool"
    and policy_ok :: "'p \<Rightarrow> bool"
  assumes create_matches: "policy_ok p \<Longrightarrow> length keys < 2 ^ 31 \<Longrightarrow>
    \<exists>p' f. create p keys (of_nat (length keys)) dst = (p', dst @ f) \<and> policy_ok p' \<and>
      (\<forall>q key. policy_ok q \<longrightarrow> key \<in> set keys \<longrightarrow> may_match q key f)"
begin

text \<open>Applied to user keys, a policy keeps its promise for internal keys.\<close>

lemma internal_matches:
  assumes "policy_ok p" "length keys < 2 ^ 31"
  shows "\<exists>p' f. Internal_CreateFilter create p keys (of_nat (length keys)) dst = (p', dst @ f) \<and> policy_ok p' \<and>
    (\<forall>q key. policy_ok q \<longrightarrow> key \<in> set keys \<longrightarrow> Internal_KeyMayMatch may_match q key f)"
proof -
  have n: "nat (sint (of_nat (length keys) :: 32 word)) = length keys" using assms(2) by simp
  show ?thesis
    using create_matches [OF assms(1), of "map ExtractUserKey keys" dst] assms(2)
    by (auto simp: Internal_CreateFilter_def Internal_KeyMayMatch_def n)
qed

end

section \<open>Probes of the Bloom filter\<close>

text \<open>Bit \<open>pos\<close> of the array that starts at \<open>base\<close>.\<close>

definition bit_at :: "nat \<Rightarrow> slice \<Rightarrow> nat \<Rightarrow> bool" where
  "bit_at base xs pos \<longleftrightarrow> bit (xs ! (base + pos div 8)) (pos mod 8)"

lemma bit_test: "w AND 2 ^ n = 0 \<longleftrightarrow> \<not> bit w n" for w :: byte
  using bit_iff_and_push_bit_not_eq_0 [of w n] by simp

lemma bitpos_bound: "0 < bits \<Longrightarrow> unat (bloom_bitpos h bits) < unat bits"
proof -
  assume "0 < bits"
  have "(ucast h :: u64) mod bits \<le> ucast h" by (simp add: word_le_nat_alt unat_mod_distrib)
  then have "unat ((ucast h :: u64) mod bits) < 2 ^ 32" using unat_u32_bound [of h] by (simp add: word_le_nat_alt)
  then have "unat (bloom_bitpos h bits) = unat ((ucast h :: u64) mod bits)"
    by (simp add: bloom_bitpos_def unsigned_ucast_eq take_bit_nat_eq_self_iff)
  then show ?thesis using \<open>0 < bits\<close> by (simp add: unat_mod_distrib word_less_nat_alt)
qed

lemma length_bloom_set [simp]: "length (bloom_set k h delta bits base dst) = length dst"
  by (induction k arbitrary: h dst) (simp_all add: Let_def)

lemma bloom_set_outside: "i < base \<or> base + unat bits div 8 \<le> i \<Longrightarrow> 0 < bits \<Longrightarrow> 8 dvd unat bits \<Longrightarrow>
  bloom_set k h delta bits base dst ! i = dst ! i"
proof (induction k arbitrary: h dst)
  case (Suc k)
  have "unat (bloom_bitpos h bits) div 8 < unat bits div 8"
    using bitpos_bound [OF Suc.prems(2), of h] Suc.prems(3) by (auto elim!: dvdE)
  then have "base + unat (bloom_bitpos h bits) div 8 \<noteq> i" using Suc.prems(1) by auto
  then show ?case using Suc by (simp add: Let_def)
qed simp

lemma bloom_set_keeps: "bit_at base dst pos \<Longrightarrow> bit_at base (bloom_set k h delta bits base dst) pos"
proof (induction k arbitrary: h dst)
  case (Suc k)
  let ?i = "base + unat (bloom_bitpos h bits) div 8"
  have "bit_at base (dst[?i := dst ! ?i OR push_bit (unat (bloom_bitpos h bits) mod 8) 1]) pos"
    using Suc.prems by (cases "?i < length dst") (auto simp: bit_at_def nth_list_update bit_or_iff list_update_beyond)
  from Suc.IH [OF this] show ?case by (simp add: Let_def)
qed simp

lemma bloom_set_check:
  assumes "0 < bits" "unat bits = 8 * m" "base + m \<le> length dst"
    "\<And>pos. pos < 8 * m \<Longrightarrow> bit_at base (bloom_set k h delta bits base dst) pos \<Longrightarrow> bit (array ! (pos div 8)) (pos mod 8)"
  shows "bloom_check k h delta bits array"
  using assms(3,4)
proof (induction k arbitrary: h dst)
  case (Suc k)
  define pos where "pos = unat (bloom_bitpos h bits)"
  have pos: "pos < 8 * m" using bitpos_bound [OF assms(1), of h] by (simp add: pos_def assms(2))
  then have "pos div 8 < m" by auto
  define dst' where "dst' = dst[base + pos div 8 := dst ! (base + pos div 8) OR push_bit (pos mod 8) 1]"
  have set: "bloom_set (Suc k) h delta bits base dst = bloom_set k (h + delta) delta bits base dst'"
    by (simp add: Let_def pos_def dst'_def)
  have "bit_at base dst' pos"
    using \<open>pos div 8 < m\<close> Suc.prems(1) by (simp add: bit_at_def dst'_def bit_or_iff bit_simps)
  then have "bit (array ! (pos div 8)) (pos mod 8)"
    using Suc.prems(2) [OF pos] bloom_set_keeps unfolding set by blast
  moreover have "bloom_check k (h + delta) delta bits array"
    using Suc.prems unfolding set by (intro Suc.IH [where dst = dst']) (simp_all add: dst'_def)
  ultimately show ?case by (simp add: Let_def bit_test pos_def)
qed simp

definition bloom_ok :: "BloomFilterPolicy \<Rightarrow> bool" where
  "bloom_ok p \<longleftrightarrow> 1 \<le> bf_k p \<and> bf_k p \<le> 30 \<and> unat (bf_bits_per_key p) < 2 ^ 31"

abbreviation bloom_add :: "nat \<Rightarrow> u64 \<Rightarrow> nat \<Rightarrow> slice \<Rightarrow> slice \<Rightarrow> slice" where
  "bloom_add k bits base dst key \<equiv> bloom_set k (BloomHash key) (bloom_delta (BloomHash key)) bits base dst"

lemma bloom_adds_length [simp]: "length (foldl (bloom_add k bits base) dst keys) = length dst"
  by (induction keys arbitrary: dst) simp_all

lemma bloom_adds_outside: "i < base \<or> base + unat bits div 8 \<le> i \<Longrightarrow> 0 < bits \<Longrightarrow> 8 dvd unat bits \<Longrightarrow>
  foldl (bloom_add k bits base) dst keys ! i = dst ! i"
  by (induction keys arbitrary: dst) (simp_all add: bloom_set_outside)

lemma bloom_adds_keep: "bit_at base dst pos \<Longrightarrow> bit_at base (foldl (bloom_add k bits base) dst keys) pos"
  by (induction keys arbitrary: dst) (simp_all add: bloom_set_keeps)

lemma bloom_adds_check:
  assumes "0 < bits" "unat bits = 8 * m" "base + m \<le> length dst" "key \<in> set keys"
  shows "bloom_check k (BloomHash key) (bloom_delta (BloomHash key)) bits (drop base (foldl (bloom_add k bits base) dst keys))"
proof -
  obtain xs ys where keys: "keys = xs @ key # ys" using assms(4) by (auto dest: split_list)
  let ?dst = "foldl (bloom_add k bits base) dst xs"
  show ?thesis
  proof (rule bloom_set_check [OF assms(1,2), of base ?dst])
    fix pos assume pos: "pos < 8 * m" "bit_at base (bloom_add k bits base ?dst key) pos"
    from bloom_adds_keep [OF pos(2), of k bits ys] have "bit_at base (foldl (bloom_add k bits base) dst keys) pos"
      by (simp add: keys)
    moreover have "base + pos div 8 < length dst" using pos(1) assms(3) by auto
    ultimately show "bit (drop base (foldl (bloom_add k bits base) dst keys) ! (pos div 8)) (pos mod 8)"
      by (simp add: bit_at_def)
  qed (use assms(3) in simp)
qed

text \<open>The number of bytes of a filter, rounded up, does not wrap around.\<close>

lemma bloom_bytes:
  fixes bits :: u64
  assumes "64 \<le> bits" "unat bits < 2 ^ 63" "bytes = (bits + 7) div 8"
  shows "unat (bytes * 8) = 8 * unat bytes" "0 < bytes" "0 < bytes * 8" "unat bytes = (unat bits + 7) div 8"
proof -
  have "unat (bits + 7) = unat bits + 7" using unat_add_nat [of bits 7] assms(2) by simp
  then show b: "unat bytes = (unat bits + 7) div 8" using assms(3) by (simp add: unat_div_distrib)
  show m: "unat (bytes * 8) = 8 * unat bytes" using assms(2) by (simp add: unat_word_ariths b)
  have "64 \<le> unat bits" using assms(1) by (simp add: word_le_nat_alt)
  then have "0 < unat bytes" by (simp add: b)
  with m show "0 < bytes" "0 < bytes * 8" by (simp_all add: word_less_nat_alt)
qed

lemma small_product:
  fixes w :: u64
  assumes "n < 2 ^ 31" "unat w < 2 ^ 31"
  shows "unat ((scast (of_nat n :: 32 word) :: u64) * w) = n * unat w" "n * unat w < 2 ^ 63"
proof -
  have "sint (of_nat n :: 32 word) = int n"
    using assms(1) by (rule sint_of_nat_small)
  then have s: "(scast (of_nat n :: 32 word) :: u64) = of_nat n" by (metis of_int_of_nat_eq scast_eq)
  have "n * unat w < 2 ^ 31 * 2 ^ 31" using assms by (intro mult_strict_mono) auto
  then show "n * unat w < 2 ^ 63" "unat ((scast (of_nat n :: 32 word) :: u64) * w) = n * unat w"
    by (simp_all add: s unat_word_ariths unat_of_nat take_bit_eq_mod mod_simps)
qed

lemma bloom_create:
  assumes "bloom_ok p" "length keys < 2 ^ 31"
  shows "\<exists>p' f. bloom_CreateFilter p keys (of_nat (length keys)) dst = (p', dst @ f) \<and> bloom_ok p' \<and>
    length f = max 8 ((length keys * unat (bf_bits_per_key p) + 7) div 8) + 1 \<and> f ! (length f - 1) = of_nat (bf_k p) \<and>
    (\<forall>q key. bloom_ok q \<longrightarrow> key \<in> set keys \<longrightarrow> bloom_KeyMayMatch q key f)"
proof -
  have n: "nat (sint (of_nat (length keys) :: 32 word)) = length keys" using assms(2) by simp
  define bits where "bits = (let b = (scast (of_nat (length keys) :: 32 word) :: u64) * bf_bits_per_key p in if b < 64 then 64 else b)"
  have low: "64 \<le> bits" by (auto simp: bits_def Let_def)
  have bits: "unat bits < 2 ^ 63" "unat bits = max 64 (length keys * unat (bf_bits_per_key p))"
    using small_product [OF assms(2), of "bf_bits_per_key p"] assms(1)
    by (simp_all add: bits_def Let_def bloom_ok_def word_less_nat_alt max_def)
  define bytes where "bytes = (bits + 7) div 8"
  note b = bloom_bytes [OF low bits(1) bytes_def]
  define array where "array = dst @ replicate (unat bytes) 0 @ [of_nat (bf_k p)]"
  define res where "res = foldl (bloom_add (bf_k p) (bytes * 8) (length dst)) array keys"
  define f where "f = drop (length dst) res"
  have len: "length f = unat bytes + 1" by (simp add: f_def res_def array_def)
  have out: "res ! i = array ! i" if "i < length dst \<or> length dst + unat bytes \<le> i" for i
    unfolding res_def using that b by (intro bloom_adds_outside) auto
  have "take (length dst) res = dst"
    by (rule nth_equalityI) (auto simp: out, simp_all add: res_def array_def nth_append)
  then have res: "res = dst @ f" by (metis append_take_drop_id f_def)
  have "f ! unat bytes = res ! (length dst + unat bytes)" using len by (simp add: res)
  then have k: "f ! unat bytes = of_nat (bf_k p)" by (simp add: out) (simp add: array_def nth_append)
  have "bf_k p \<le> 30" using assms(1) by (simp add: bloom_ok_def)
  then have "sint (of_nat (bf_k p) :: byte) = int (bf_k p)" by (simp add: signed_of_nat signed_take_bit_int_eq_self)
  then have "(scast (of_nat (bf_k p) :: byte) :: u64) = of_nat (bf_k p)" by (metis of_int_of_nat_eq scast_eq)
  moreover have "unat (of_nat (bf_k p) :: u64) = bf_k p" using \<open>bf_k p \<le> 30\<close> by (intro unat_of_nat_u64) simp
  ultimately have "bloom_KeyMayMatch q key f" if "key \<in> set keys" for q key
    using bloom_adds_check [OF b(3,1) _ that, of "length dst" array "bf_k p"] b(2) len k
    by (simp add: bloom_KeyMayMatch_def Let_def word_less_nat_alt f_def res_def array_def)
  moreover define p' where "p' = p\<lparr>bf_filter_count := bf_filter_count p + 1, bf_byte_size := bf_byte_size p + bytes\<rparr>"
  moreover have "bloom_CreateFilter p keys (of_nat (length keys)) dst = (p', dst @ f)"
    unfolding res [symmetric] by (simp add: bloom_CreateFilter_def n Let_def p'_def res_def array_def bytes_def bits_def)
  moreover have "length f = max 8 ((length keys * unat (bf_bits_per_key p) + 7) div 8) + 1"
    unfolding len b(4) bits(2) by (auto simp: max_def)
  moreover have "f ! (length f - 1) = of_nat (bf_k p)" by (simp add: len k)
  moreover have "bloom_ok p'" using assms(1) by (simp add: bloom_ok_def p'_def)
  ultimately show ?thesis by blast
qed

lemma bloom_create_matches:
  assumes "bloom_ok p" "length keys < 2 ^ 31"
  shows "\<exists>p' f. bloom_CreateFilter p keys (of_nat (length keys)) dst = (p', dst @ f) \<and> bloom_ok p' \<and>
    (\<forall>q key. bloom_ok q \<longrightarrow> key \<in> set keys \<longrightarrow> bloom_KeyMayMatch q key f)"
  using bloom_create [OF assms] by blast

lemma bloom_CreateFilter_fields [simp]:
  "bf_bits_per_key (fst (bloom_CreateFilter p keys n dst)) = bf_bits_per_key p"
  "length (snd (bloom_CreateFilter p keys n dst)) =
     length dst + unat (((let bits = (scast n :: u64) * bf_bits_per_key p in if bits < 64 then 64 else bits) + 7) div 8) + 1"
  by (simp_all add: bloom_CreateFilter_def Let_def)

interpretation bloom: filter_policy bloom_CreateFilter bloom_KeyMayMatch bloom_ok
  by unfold_locales (rule bloom_create_matches)

interpretation internal_bloom: filter_policy "Internal_CreateFilter bloom_CreateFilter" "Internal_KeyMayMatch bloom_KeyMayMatch" bloom_ok
  by unfold_locales (rule bloom.internal_matches)

lemma new_BloomFilterPolicy_ok:
  assumes "0 \<le> bits_per_key" "bits_per_key < 2 ^ 31"
  shows "\<exists>p. new_BloomFilterPolicy bits_per_key = Some p \<and> bloom_ok p \<and> unat (bf_bits_per_key p) = nat bits_per_key"
proof -
  have "unat (of_int bits_per_key :: u64) = nat bits_per_key"
    using assms by (simp add: unat_eq_nat_uint uint_word_of_int mod_pos_pos_trivial)
  then show ?thesis using assms by (auto simp: new_BloomFilterPolicy_def bloom_ok_def Let_def)
qed

text \<open>C22. The size of a Bloom filter. It is appended to the string and leaves what was there; its array has as
  many bits per key as asked for, at least 64 and rounded up to bytes, without wrapping around, and the
  byte behind the array is a number of probes between 1 and 30. Whatever the hash, the byte that a probe
  sets or tests lies in the array.\<close>

theorem bloom_filter_size:
  assumes "0 \<le> bits_per_key" "bits_per_key < 2 ^ 31" "length keys < 2 ^ 31"
  shows "\<exists>p p' f. new_BloomFilterPolicy bits_per_key = Some p \<and>
    bloom_CreateFilter p keys (of_nat (length keys)) dst = (p', dst @ f) \<and>
    length f = max 8 ((length keys * nat bits_per_key + 7) div 8) + 1 \<and>
    1 \<le> unat (f ! (length f - 1)) \<and> unat (f ! (length f - 1)) \<le> 30 \<and>
    (\<forall>h. unat (bloom_bitpos h ((of_nat (length f) - 1) * 8)) div 8 < length f - 1)"
proof -
  obtain p where p: "new_BloomFilterPolicy bits_per_key = Some p" "bloom_ok p" "unat (bf_bits_per_key p) = nat bits_per_key"
    using new_BloomFilterPolicy_ok assms(1,2) by blast
  from bloom_create [OF p(2) assms(3), of dst] obtain p' f where
    f: "bloom_CreateFilter p keys (of_nat (length keys)) dst = (p', dst @ f)" "f ! (length f - 1) = of_nat (bf_k p)"
      "length f = max 8 ((length keys * nat bits_per_key + 7) div 8) + 1" unfolding p(3) by blast
  define m where "m = length f - 1"
  have "length keys * nat bits_per_key < 2 ^ 63"
    using small_product(2) [OF assms(3), of "bf_bits_per_key p"] p(2) by (simp add: bloom_ok_def p(3))
  then have m: "length f = m + 1" "8 \<le> m" "m * 8 < 2 ^ 64" using f(3) by (auto simp: m_def max_def)
  define bits where "bits = (of_nat (length f) - 1) * (8 :: u64)"
  have bits: "unat bits = m * 8" using unat_of_nat_u64 [OF m(3)] by (simp add: bits_def m(1))
  then have "unat (bloom_bitpos h bits) div 8 < m" for h
    using bitpos_bound [of bits h] m(2) by (simp add: word_less_nat_alt less_mult_imp_div_less)
  moreover have "unat (of_nat (bf_k p) :: byte) = bf_k p" "1 \<le> bf_k p" "bf_k p \<le> 30"
    using p(2) by (simp_all add: bloom_ok_def unat_of_nat take_bit_eq_mod)
  ultimately show ?thesis using p(1) f by (auto simp: m_def bits_def)
qed

theorem bloom_filter_size_witness:
  "\<exists>p p' f. new_BloomFilterPolicy 10 = Some p \<and> bloom_CreateFilter p [[97], [98], [99]] 3 [1, 2] = (p', [1, 2] @ f) \<and>
    length f = 9"
  using bloom_filter_size [of 10 "[[97], [98], [99]]" "[1, 2]"] by auto

end
