(* ===== verification/Fixed_Arrays.thy ===== *)
theory Fixed_Arrays
  imports Coding
begin

text \<open>
  What filter blocks and data blocks have in common: pieces appended to one string, the offsets at which
  they start, and an array of fixed 32-bit numbers at the end of the block that is read by index.
\<close>

section \<open>Arrays of fixed-width numbers\<close>

definition fixed32_array :: "u32 list \<Rightarrow> slice" where
  "fixed32_array xs = concat (map EncodeFixed32 xs)"

lemma length_fixed32_array [simp]: "length (fixed32_array xs) = 4 * length xs"
  by (induction xs) (simp_all add: fixed32_array_def)

lemma fixed32_array_simps [simp]:
  "fixed32_array [] = []" "fixed32_array (x # xs) = EncodeFixed32 x @ fixed32_array xs"
  "fixed32_array (xs @ ys) = fixed32_array xs @ fixed32_array ys"
  by (simp_all add: fixed32_array_def)

lemma foldl_PutFixed32: "foldl PutFixed32 dst xs = dst @ fixed32_array xs"
  by (induction xs arbitrary: dst) (simp_all add: PutFixed32_def)

lemma DecodeFixed32_nth: "i < length xs \<Longrightarrow> DecodeFixed32 (drop (4 * i) (fixed32_array xs @ ys)) = xs ! i"
proof (induction xs arbitrary: i)
  case (Cons x xs)
  then show ?case by (cases i) simp_all
qed simp

lemma DecodeFixed32_nth_behind:
  "k = length pre + 4 * i \<Longrightarrow> i < length xs \<Longrightarrow> DecodeFixed32 (drop k (pre @ fixed32_array xs @ ys)) = xs ! i"
  using DecodeFixed32_nth [of i xs ys] by simp

section \<open>Pieces of a string and where they start\<close>

definition starts :: "'a list list \<Rightarrow> nat list" where
  "starts ks = map (\<lambda>i. length (concat (take i ks))) [0..<length ks]"

lemma length_starts [simp]: "length (starts ks) = length ks"
  by (simp add: starts_def)

lemma starts_Nil [simp]: "starts [] = []"
  by (simp add: starts_def)

lemma starts_snoc [simp]: "starts (ks @ [k]) = starts ks @ [length (concat ks)]"
  by (simp add: starts_def)

lemma starts_end: "starts ks @ [length (concat ks)] = map (\<lambda>i. length (concat (take i ks))) [0..<Suc (length ks)]"
  by (simp add: starts_def)

lemma starts_end_nth: "i \<le> length ks \<Longrightarrow> (starts ks @ [length (concat ks)]) ! i = length (concat (take i ks))"
  unfolding starts_end by (simp del: upt_Suc)

lemma piece_of_concat:
  assumes "i < length ks"
  shows "take (length (concat (take (Suc i) ks)) - length (concat (take i ks))) (drop (length (concat (take i ks))) (concat ks)) = ks ! i"
proof -
  have "concat ks = concat (take i ks) @ ks ! i @ concat (drop (Suc i) ks)"
    by (metis append.assoc append_take_drop_id assms concat.simps(2) concat_append Cons_nth_drop_Suc)
  then show ?thesis by (simp add: take_Suc_conv_app_nth assms)
qed

lemma length_concat_take_le: "length (concat (take i ks)) \<le> length (concat ks)"
  by (metis append_take_drop_id concat_append le_add1 length_append)

end
