(* ===== verification/FilterBlock.thy ===== *)
theory FilterBlock
  imports Bloom Fixed_Arrays
begin

text \<open>
  \<^verbatim>\<open>table/filter_block.cc\<close>: the filters of a table, one for every 2 KB of its data, and the filter over all
  keys of a file. A policy is given by its two methods and its state.
\<close>

section \<open>File-level filters\<close>

record 'p FileLevelFilterBuilder =
  ff_policy :: "'p option"
  ff_keys :: slice
  ff_key_offsets :: "nat list"

definition new_FileLevelFilterBuilder :: "'p option \<Rightarrow> 'p FileLevelFilterBuilder" where
  "new_FileLevelFilterBuilder policy = \<lparr>ff_policy = policy, ff_keys = [], ff_key_offsets = []\<rparr>"

definition ff_Clear :: "'p FileLevelFilterBuilder \<Rightarrow> 'p FileLevelFilterBuilder" where
  "ff_Clear b = b\<lparr>ff_keys := [], ff_key_offsets := []\<rparr>"

text \<open>Here the memory of the strings and vectors is given back as well.\<close>

definition ff_Destroy :: "'p FileLevelFilterBuilder \<Rightarrow> 'p FileLevelFilterBuilder" where
  "ff_Destroy b = b\<lparr>ff_keys := [], ff_key_offsets := []\<rparr>"

definition ff_AddKey :: "'p FileLevelFilterBuilder \<Rightarrow> slice \<Rightarrow> 'p FileLevelFilterBuilder" where
  "ff_AddKey b key =
     (if ff_policy b = None then b
      else b\<lparr>ff_key_offsets := ff_key_offsets b @ [length (ff_keys b)], ff_keys := ff_keys b @ key\<rparr>)"

text \<open>The keys cut out of the string they were appended to.\<close>

definition tmp_keys :: "slice \<Rightarrow> nat list \<Rightarrow> slice list" where
  "tmp_keys keys offsets =
     (let offs = offsets @ [length keys]
      in map (\<lambda>i. take (offs ! (i + 1) - offs ! i) (drop (offs ! i) keys)) [0..<length offsets])"

definition ff_GenerateFilter ::
  "('p \<Rightarrow> slice list \<Rightarrow> 32 word \<Rightarrow> slice \<Rightarrow> 'p \<times> slice) \<Rightarrow> 'p FileLevelFilterBuilder \<Rightarrow>
   slice option \<times> 'p FileLevelFilterBuilder"
where
  "ff_GenerateFilter create b =
     (let num_keys = length (ff_key_offsets b) in
      case ff_policy b of
        None \<Rightarrow> (None, ff_Clear b)
      | Some p \<Rightarrow>
          if num_keys = 0 then (None, ff_Clear b)
          else case create p (tmp_keys (ff_keys b) (ff_key_offsets b)) (of_nat num_keys) [] of
                 (p, result) \<Rightarrow> (Some result, ff_Clear (b\<lparr>ff_policy := Some p\<rparr>)))"

section \<open>The builder of a filter block\<close>

definition kFilterBaseLg :: nat where "kFilterBaseLg = 11"
definition kFilterBase :: u64 where "kFilterBase = push_bit kFilterBaseLg 1"

record 'p FilterBlockBuilder =
  fb_policy :: 'p
  fb_keys :: slice
  fb_start :: "nat list"
  fb_result :: slice
  fb_filter_offsets :: "u32 list"

definition new_FilterBlockBuilder :: "'p \<Rightarrow> 'p FilterBlockBuilder" where
  "new_FilterBlockBuilder policy =
     \<lparr>fb_policy = policy, fb_keys = [], fb_start = [], fb_result = [], fb_filter_offsets = []\<rparr>"

definition fb_GenerateFilter ::
  "('p \<Rightarrow> slice list \<Rightarrow> 32 word \<Rightarrow> slice \<Rightarrow> 'p \<times> slice) \<Rightarrow> 'p FilterBlockBuilder \<Rightarrow> 'p FilterBlockBuilder"
where
  "fb_GenerateFilter create b =
     (let num_keys = length (fb_start b) in
      if num_keys = 0 then b\<lparr>fb_filter_offsets := fb_filter_offsets b @ [of_nat (length (fb_result b))]\<rparr>
      else let b = b\<lparr>fb_filter_offsets := fb_filter_offsets b @ [of_nat (length (fb_result b))]\<rparr>
           in case create (fb_policy b) (tmp_keys (fb_keys b) (fb_start b)) (of_nat num_keys) (fb_result b) of
                (p, result) \<Rightarrow> b\<lparr>fb_policy := p, fb_result := result, fb_keys := [], fb_start := []\<rparr>)"

lemma length_filter_offsets [simp]:
  "length (fb_filter_offsets (fb_GenerateFilter create b)) = Suc (length (fb_filter_offsets b))"
  by (auto simp: fb_GenerateFilter_def Let_def split: prod.splits)

function start_block_loop ::
  "('p \<Rightarrow> slice list \<Rightarrow> 32 word \<Rightarrow> slice \<Rightarrow> 'p \<times> slice) \<Rightarrow> u64 \<Rightarrow> 'p FilterBlockBuilder \<Rightarrow> 'p FilterBlockBuilder"
where
  "start_block_loop create filter_index b =
     (if unat filter_index > length (fb_filter_offsets b)
      then start_block_loop create filter_index (fb_GenerateFilter create b) else b)"
  by pat_completeness auto
termination
  by (relation "measure (\<lambda>(create, i, b). unat i - length (fb_filter_offsets b))") auto

declare start_block_loop.simps [simp del]

definition StartBlock ::
  "('p \<Rightarrow> slice list \<Rightarrow> 32 word \<Rightarrow> slice \<Rightarrow> 'p \<times> slice) \<Rightarrow> u64 \<Rightarrow> 'p FilterBlockBuilder \<Rightarrow> 'p FilterBlockBuilder option"
where
  "StartBlock create block_offset b =
     (let filter_index = block_offset div kFilterBase
      in if unat filter_index < length (fb_filter_offsets b) then None
         else Some (start_block_loop create filter_index b))"

definition fb_AddKey :: "'p FilterBlockBuilder \<Rightarrow> slice \<Rightarrow> 'p FilterBlockBuilder" where
  "fb_AddKey b key = b\<lparr>fb_start := fb_start b @ [length (fb_keys b)], fb_keys := fb_keys b @ key\<rparr>"

definition fb_Finish ::
  "('p \<Rightarrow> slice list \<Rightarrow> 32 word \<Rightarrow> slice \<Rightarrow> 'p \<times> slice) \<Rightarrow> 'p FilterBlockBuilder \<Rightarrow> slice \<times> 'p FilterBlockBuilder"
where
  "fb_Finish create b =
     (let b = (if fb_start b \<noteq> [] then fb_GenerateFilter create b else b);
          array_offset = of_nat (length (fb_result b)) :: u32;
          result = foldl PutFixed32 (fb_result b) (fb_filter_offsets b);
          result = PutFixed32 result array_offset @ [of_nat kFilterBaseLg]
      in (result, b\<lparr>fb_result := result\<rparr>))"

section \<open>The reader\<close>

text \<open>\<^verbatim>\<open>data_\<close> is the contents and \<^verbatim>\<open>offset_\<close> an index into them; with contents that cannot be a filter block
  both are null, and \<^verbatim>\<open>num_\<close> is zero.\<close>

record FilterBlockReader =
  fr_data :: slice
  fr_offset :: nat
  fr_num :: nat
  fr_base_lg :: u64

definition new_FilterBlockReader :: "slice \<Rightarrow> FilterBlockReader" where
  "new_FilterBlockReader contents =
     (let n = length contents;
          r = \<lparr>fr_data = [], fr_offset = 0, fr_num = 0, fr_base_lg = 0\<rparr>
      in if n < 5 then r
         else let r = r\<lparr>fr_base_lg := scast (contents ! (n - 1))\<rparr>;
                  last_word = DecodeFixed32 (drop (n - 5) contents)
              in if unat last_word > n - 5 then r
                 else r\<lparr>fr_data := contents, fr_offset := unat last_word, fr_num := (n - 5 - unat last_word) div 4\<rparr>)"

text \<open>\<open>None\<close> stands for a shift by more bits than the offset has, whose result is undefined.\<close>

definition fr_KeyMayMatch ::
  "('p \<Rightarrow> slice \<Rightarrow> slice \<Rightarrow> bool) \<Rightarrow> 'p \<Rightarrow> FilterBlockReader \<Rightarrow> u64 \<Rightarrow> slice \<Rightarrow> bool option"
where
  "fr_KeyMayMatch may_match policy r block_offset key =
     (if 64 \<le> fr_base_lg r then None
      else Some (
        let index = unat (drop_bit (unat (fr_base_lg r)) block_offset) in
        if index < fr_num r
        then let start = DecodeFixed32 (drop (fr_offset r + index * 4) (fr_data r));
                 limit = DecodeFixed32 (drop (fr_offset r + index * 4 + 4) (fr_data r))
             in if start \<le> limit \<and> unat limit \<le> fr_offset r
                then may_match policy key (take (unat (limit - start)) (drop (unat start) (fr_data r)))
                else if start = limit then False
                else True
        else True))"

section \<open>The sequence of calls that builds a filter block\<close>

fun add_blocks ::
  "('p \<Rightarrow> slice list \<Rightarrow> 32 word \<Rightarrow> slice \<Rightarrow> 'p \<times> slice) \<Rightarrow> 'p FilterBlockBuilder \<Rightarrow> (u64 \<times> slice list) list \<Rightarrow>
   'p FilterBlockBuilder option"
where
  "add_blocks create b [] = Some b"
| "add_blocks create b ((block_offset, keys) # blocks) =
     (case StartBlock create block_offset b of
        None \<Rightarrow> None
      | Some b \<Rightarrow> add_blocks create (foldl fb_AddKey b keys) blocks)"

section \<open>Invariant of the builder\<close>

lemma tmp_keys_starts [simp]: "tmp_keys (concat ks) (starts ks) = ks"
  by (rule nth_equalityI) (simp_all add: tmp_keys_def Let_def starts_end_nth piece_of_concat Suc_le_eq)

abbreviation filter_index :: "u64 \<Rightarrow> nat" where
  "filter_index off \<equiv> unat (off div kFilterBase)"

text \<open>The keys not yet in a filter are \<open>ks\<close>, the filters made so far \<open>fs\<close>.\<close>

definition fb_rep :: "slice list \<Rightarrow> slice list \<Rightarrow> 'p FilterBlockBuilder \<Rightarrow> bool" where
  "fb_rep ks fs b \<longleftrightarrow> fb_keys b = concat ks \<and> fb_start b = starts ks \<and> fb_result b = concat fs \<and>
     fb_filter_offsets b = map of_nat (starts fs)"

lemma fb_rep_new: "fb_rep [] [] (new_FilterBlockBuilder p)"
  by (simp add: fb_rep_def new_FilterBlockBuilder_def)

lemma fb_rep_AddKey: "fb_rep ks fs b \<Longrightarrow> fb_rep (ks @ [k]) fs (fb_AddKey b k)"
  by (simp add: fb_rep_def fb_AddKey_def)

lemma fb_rep_AddKeys: "fb_rep ks fs b \<Longrightarrow> fb_rep (ks @ keys) fs (foldl fb_AddKey b keys)"
  using fb_rep_AddKey by (induction keys arbitrary: ks b) fastforce+

lemma fb_policy_AddKeys [simp]: "fb_policy (foldl fb_AddKey b keys) = fb_policy b"
  by (induction keys arbitrary: b) (simp_all add: fb_AddKey_def)

text \<open>The bytes of a finished block, and reading the \<open>i\<close>-th filter back.\<close>

definition filter_block :: "slice list \<Rightarrow> slice" where
  "filter_block fs = concat fs @ fixed32_array (map of_nat (starts fs @ [length (concat fs)])) @ [11]"

lemma filter_block_reader:
  assumes "length (filter_block fs) < 2 ^ 32"
  shows "new_FilterBlockReader (filter_block fs) =
    \<lparr>fr_data = filter_block fs, fr_offset = length (concat fs), fr_num = length fs, fr_base_lg = 11\<rparr>"
proof -
  let ?fb = "filter_block fs"
  have len: "length ?fb = length (concat fs) + 4 * length fs + 5" by (simp add: filter_block_def)
  have small: "unat (of_nat (length (concat fs)) :: u32) = length (concat fs)"
    using assms len by (intro unat_of_nat_u32) simp
  have "DecodeFixed32 (drop (length (concat fs) + 4 * length fs) ?fb) =
      map of_nat (starts fs @ [length (concat fs)]) ! length fs"
    unfolding filter_block_def by (rule DecodeFixed32_nth_behind) simp_all
  then have "unat (DecodeFixed32 (drop (length ?fb - 5) ?fb)) = length (concat fs)"
    by (simp add: len small nth_append)
  moreover have "?fb ! (length ?fb - 1) = 11" by (simp add: filter_block_def nth_append)
  ultimately show ?thesis by (simp add: new_FilterBlockReader_def Let_def len)
qed

lemma filter_block_match:
  assumes "length (filter_block fs) < 2 ^ 32" "filter_index off < length fs"
  shows "fr_KeyMayMatch may_match q (new_FilterBlockReader (filter_block fs)) off key = Some (may_match q key (fs ! filter_index off))"
proof -
  let ?i = "filter_index off" and ?fb = "filter_block fs" and ?at = "\<lambda>i. length (concat (take i fs))"
  have i: "unat (drop_bit 11 off) = ?i" by (simp add: drop_bit_eq_div kFilterBase_def kFilterBaseLg_def)
  have nth: "DecodeFixed32 (drop (length (concat fs) + 4 * j) ?fb) = of_nat (?at j)" if "j \<le> length fs" for j
  proof -
    have "DecodeFixed32 (drop (length (concat fs) + 4 * j) ?fb) = map of_nat (starts fs @ [length (concat fs)]) ! j"
      unfolding filter_block_def using that by (intro DecodeFixed32_nth_behind) simp_all
    also have "\<dots> = of_nat ((starts fs @ [length (concat fs)]) ! j)" using that by (intro nth_map) simp
    finally show ?thesis by (simp only: starts_end_nth [OF that])
  qed
  have small: "unat (of_nat (?at j) :: u32) = ?at j" for j
    using assms(1) length_concat_take_le [of j fs] by (intro unat_of_nat_u32) (simp add: filter_block_def)
  have next_at: "?at (Suc ?i) = ?at ?i + length (fs ! ?i)" using assms(2) by (simp add: take_Suc_conv_app_nth)
  then have "(of_nat (?at (Suc ?i)) - of_nat (?at ?i) :: u32) = of_nat (length (fs ! ?i))" by simp
  moreover have "length (fs ! ?i) < 2 ^ 32"
    using assms(1) length_concat_take_le [of "Suc ?i" fs] next_at by (simp add: filter_block_def)
  ultimately have sub: "unat (of_nat (?at (Suc ?i)) - of_nat (?at ?i) :: u32) = length (fs ! ?i)"
    using unat_of_nat_u32 by simp
  have "?at (Suc ?i) \<le> length (concat fs)" by (rule length_concat_take_le)
  then have "take (length (fs ! ?i)) (drop (?at ?i) ?fb) = take (length (fs ! ?i)) (drop (?at ?i) (concat fs))"
    using next_at by (simp add: filter_block_def)
  also have "\<dots> = fs ! ?i" using piece_of_concat [OF assms(2)] next_at by simp
  finally have "take (unat (of_nat (?at (Suc ?i)) - of_nat (?at ?i) :: u32)) (drop (?at ?i) ?fb) = fs ! ?i" by (simp only: sub)
  moreover define start limit :: u32 where "start = of_nat (?at ?i)" and "limit = of_nat (?at (Suc ?i))"
  moreover have "unat start = ?at ?i" "unat limit = ?at (Suc ?i)" by (simp_all only: start_def limit_def small)
  ultimately have slice: "take (unat (limit - start)) (drop (unat start) ?fb) = fs ! ?i" "start \<le> limit" "unat limit \<le> length (concat fs)"
    using next_at length_concat_take_le [of "Suc ?i" fs] by (simp_all add: word_le_nat_alt)
  have "DecodeFixed32 (drop (length (concat fs) + ?i * 4) ?fb) = start" "DecodeFixed32 (drop (length (concat fs) + ?i * 4 + 4) ?fb) = limit"
    using nth [of ?i] nth [of "Suc ?i"] assms(2) by (simp_all add: start_def limit_def algebra_simps)
  then show ?thesis
    using slice assms(2) by (simp add: fr_KeyMayMatch_def filter_block_reader [OF assms(1)] i Let_def)
qed

section \<open>Filters hold the keys of their blocks\<close>

context filter_policy
begin

text \<open>Every key of the blocks \<open>bs\<close> is in the filter of its block, or waits for the filter made next.\<close>

definition fb_inv :: "(u64 \<times> slice list) list \<Rightarrow> slice list \<Rightarrow> slice list \<Rightarrow> 'p FilterBlockBuilder \<Rightarrow> bool" where
  "fb_inv bs ks fs b \<longleftrightarrow> fb_rep ks fs b \<and> policy_ok (fb_policy b) \<and>
     (\<forall>(off, keys) \<in> set bs. \<forall>key \<in> set keys.
        filter_index off < length fs \<and> (\<forall>q. policy_ok q \<longrightarrow> may_match q key (fs ! filter_index off)) \<or>
        filter_index off = length fs \<and> key \<in> set ks)"

lemma fb_inv_GenerateFilter:
  assumes "fb_inv bs ks fs b" "length ks < 2 ^ 31"
  shows "\<exists>f. fb_inv bs [] (fs @ [f]) (fb_GenerateFilter create b)"
proof -
  have rep: "fb_rep ks fs b" and ok: "policy_ok (fb_policy b)" using assms(1) by (simp_all add: fb_inv_def)
  obtain p f where f: "create (fb_policy b) ks (of_nat (length ks)) (concat fs) = (p, concat fs @ f)" "policy_ok p"
      "\<forall>q key. policy_ok q \<longrightarrow> key \<in> set ks \<longrightarrow> may_match q key f"
    using create_matches [OF ok assms(2)] by metis
  show ?thesis
  proof (cases "ks = []")
    case True
    then have "fb_inv bs [] (fs @ [[]]) (fb_GenerateFilter create b)"
      using assms(1) by (fastforce simp: fb_inv_def fb_rep_def fb_GenerateFilter_def nth_append)
    then show ?thesis by blast
  next
    case False
    then have "fb_rep [] (fs @ [f]) (fb_GenerateFilter create b)" "fb_policy (fb_GenerateFilter create b) = p"
      using rep f(1) by (simp_all add: fb_rep_def fb_GenerateFilter_def Let_def)
    then have "fb_inv bs [] (fs @ [f]) (fb_GenerateFilter create b)"
      using assms(1) f(2,3) by (fastforce simp: fb_inv_def nth_append)
    then show ?thesis by blast
  qed
qed

lemma fb_inv_length: "fb_inv bs ks fs b \<Longrightarrow> length (fb_filter_offsets b) = length fs"
  by (simp add: fb_inv_def fb_rep_def)

lemma fb_inv_start_block_loop:
  "fb_inv bs ks fs b \<Longrightarrow> length ks < 2 ^ 31 \<Longrightarrow> length fs \<le> unat i \<Longrightarrow>
   \<exists>ks' fs'. fb_inv bs ks' fs' (start_block_loop create i b) \<and> length fs' = unat i \<and> length ks' \<le> length ks"
proof (induction "unat i - length fs" arbitrary: ks fs b)
  case 0
  then show ?case using fb_inv_length [OF "0.prems"(1)] by (subst start_block_loop.simps) auto
next
  case (Suc n)
  obtain f where "fb_inv bs [] (fs @ [f]) (fb_GenerateFilter create b)" using fb_inv_GenerateFilter Suc.prems by blast
  moreover have "n = unat i - length (fs @ [f])" "length (fs @ [f]) \<le> unat i" using Suc.hyps(2) by simp_all
  ultimately obtain fs' where
      "fb_inv bs [] fs' (start_block_loop create i (fb_GenerateFilter create b))" "length fs' = unat i"
    using Suc.hyps(1) [of "fs @ [f]" "[]"] by auto
  moreover have "start_block_loop create i b = start_block_loop create i (fb_GenerateFilter create b)"
    using Suc.hyps(2) fb_inv_length [OF Suc.prems(1)] by (subst start_block_loop.simps) auto
  ultimately show ?case by (metis le0 list.size(3))
qed

lemma fb_inv_add_blocks:
  assumes "fb_inv bs ks fs b" "length ks + length (concat (map snd blocks)) < 2 ^ 31"
    "sorted (length fs # map (\<lambda>(off, keys). filter_index off) blocks)"
  shows "\<exists>ks' fs' b'. add_blocks create b blocks = Some b' \<and> fb_inv (bs @ blocks) ks' fs' b' \<and> length ks' < 2 ^ 31"
  using assms
proof (induction blocks arbitrary: bs ks fs b)
  case (Cons x blocks)
  obtain off keys where x: "x = (off, keys)" by (cases x)
  have le: "length fs \<le> filter_index off" using Cons.prems(3) by (simp add: x)
  obtain ks' fs' where loop: "fb_inv bs ks' fs' (start_block_loop create (off div kFilterBase) b)"
      "length fs' = filter_index off" "length ks' \<le> length ks"
    using fb_inv_start_block_loop [OF Cons.prems(1) _ le] Cons.prems(2) by auto
  let ?b = "foldl fb_AddKey (start_block_loop create (off div kFilterBase) b) keys"
  have "fb_inv (bs @ [x]) (ks' @ keys) fs' ?b"
    using loop(1,2) fb_rep_AddKeys by (fastforce simp: fb_inv_def x)
  from Cons.IH [OF this] obtain ks'' fs'' b' where
      "add_blocks create ?b blocks = Some b' \<and> fb_inv ((bs @ [x]) @ blocks) ks'' fs'' b' \<and> length ks'' < 2 ^ 31"
    using Cons.prems(2,3) loop(2,3) by (auto simp: x)
  moreover have "add_blocks create b (x # blocks) = add_blocks create ?b blocks"
    using le fb_inv_length [OF Cons.prems(1)] by (simp add: x StartBlock_def)
  ultimately show ?case by (metis append.assoc append_Cons append_Nil)
qed auto

lemma fb_inv_Finish:
  assumes "fb_inv bs ks fs b" "length ks < 2 ^ 31"
  shows "\<exists>fs'. fst (fb_Finish create b) = filter_block fs' \<and>
    (\<forall>(off, keys) \<in> set bs. \<forall>key \<in> set keys. filter_index off < length fs' \<and>
       (\<forall>q. policy_ok q \<longrightarrow> may_match q key (fs' ! filter_index off)))"
proof -
  define b' where "b' = (if fb_start b \<noteq> [] then fb_GenerateFilter create b else b)"
  have "fb_start b = [] \<longleftrightarrow> ks = []" using assms(1) by (auto simp: fb_inv_def fb_rep_def simp flip: length_0_conv)
  then obtain fs' where inv: "fb_inv bs [] fs' b'"
    using assms fb_inv_GenerateFilter [OF assms] by (auto simp: b'_def)
  have "fst (fb_Finish create b) = filter_block fs'"
    using inv by (simp add: fb_Finish_def b'_def [symmetric] Let_def filter_block_def fb_inv_def fb_rep_def
      foldl_PutFixed32 PutFixed32_def kFilterBaseLg_def)
  then show ?thesis using inv by (fastforce simp: fb_inv_def)
qed

lemma filter_block_matches:
  assumes "policy_ok p" "policy_ok q" "length (concat (map snd blocks)) < 2 ^ 31"
    "sorted (map (\<lambda>(off, keys). filter_index off) blocks)"
  shows "\<exists>b. add_blocks create (new_FilterBlockBuilder p) blocks = Some b \<and>
    (length (fst (fb_Finish create b)) < 2 ^ 32 \<longrightarrow> (\<forall>(off, keys) \<in> set blocks. \<forall>key \<in> set keys.
       fr_KeyMayMatch may_match q (new_FilterBlockReader (fst (fb_Finish create b))) off key = Some True))"
proof -
  have "fb_inv [] [] [] (new_FilterBlockBuilder p)"
    using assms(1) fb_rep_new by (simp add: fb_inv_def) (simp add: new_FilterBlockBuilder_def)
  from fb_inv_add_blocks [OF this, of blocks] obtain ks fs b where
      b: "add_blocks create (new_FilterBlockBuilder p) blocks = Some b" "fb_inv blocks ks fs b" "length ks < 2 ^ 31"
    using assms(3,4) by auto
  from fb_inv_Finish [OF b(2,3)] obtain fs' where fs': "fst (fb_Finish create b) = filter_block fs'"
      "\<forall>(off, keys) \<in> set blocks. \<forall>key \<in> set keys. filter_index off < length fs' \<and> may_match q key (fs' ! filter_index off)"
    using assms(2) by fastforce
  then show ?thesis using b(1) by (fastforce simp: filter_block_match)
qed

text \<open>A file-level filter is made from all keys that were added since the last one.\<close>

lemma ff_AddKeys: "ff_policy b = Some p \<Longrightarrow> ff_keys b = concat ks \<Longrightarrow> ff_key_offsets b = starts ks \<Longrightarrow>
  foldl ff_AddKey b keys = b\<lparr>ff_keys := concat (ks @ keys), ff_key_offsets := starts (ks @ keys)\<rparr>"
proof (induction keys arbitrary: b ks)
  case (Cons key keys)
  then show ?case using Cons.IH [of "ff_AddKey b key" "ks @ [key]"] by (simp add: ff_AddKey_def)
qed simp

lemma ff_GenerateFilter_matches:
  assumes "policy_ok p" "policy_ok q" "keys \<noteq> []" "length keys < 2 ^ 31"
  shows "\<exists>p' f. ff_GenerateFilter create (foldl ff_AddKey (new_FileLevelFilterBuilder (Some p)) keys) =
      (Some f, new_FileLevelFilterBuilder (Some p')) \<and> policy_ok p' \<and> (\<forall>key \<in> set keys. may_match q key f)"
proof -
  obtain p' f where f: "create p keys (of_nat (length keys)) [] = (p', f)" "policy_ok p'"
      "\<forall>q key. policy_ok q \<longrightarrow> key \<in> set keys \<longrightarrow> may_match q key f"
    using create_matches [OF assms(1,4), of "[]"] by auto
  have "foldl ff_AddKey (new_FileLevelFilterBuilder (Some p)) keys =
      \<lparr>ff_policy = Some p, ff_keys = concat keys, ff_key_offsets = starts keys\<rparr>"
    using ff_AddKeys [of "new_FileLevelFilterBuilder (Some p)" p "[]" keys] by (simp add: new_FileLevelFilterBuilder_def)
  then show ?thesis
    using f assms(2,3) by (auto simp: ff_GenerateFilter_def ff_Clear_def new_FileLevelFilterBuilder_def)
qed

end

section \<open>The size of a small block\<close>

lemma small_filter_block:
  assumes "add_blocks (Internal_CreateFilter bloom_CreateFilter) (new_FilterBlockBuilder p)
      [(0, [k]), (4096, [l])] = Some b" "bf_bits_per_key p = 10"
  shows "length (fst (fb_Finish (Internal_CreateFilter bloom_CreateFilter) b)) = 35"
  using assms
  by (auto simp: StartBlock_def start_block_loop.simps kFilterBase_def kFilterBaseLg_def fb_Finish_def Let_def
    fb_GenerateFilter_def fb_AddKey_def new_FilterBlockBuilder_def foldl_PutFixed32 PutFixed32_def
    Internal_CreateFilter_def case_prod_beta)

section \<open>Properties\<close>

text \<open>C9. Filters have no false negatives. The filter block of a table, built with the Bloom filter from the
  internal keys of its blocks in the order of their offsets, is read back with an answer that lets through
  every key at the offset of its block, also under any other sequence number and type and when the
  reading policy was made for another number of bits; a filter over all keys of a file matches each of
  them.\<close>

theorem filters_keep_keys:
  assumes "0 \<le> bpk" "bpk < 2 ^ 31" "0 \<le> bpk'" "bpk' < 2 ^ 31" "length (concat (map snd blocks)) < 2 ^ 31"
    "sorted (map (\<lambda>(off, keys). filter_index off) blocks)" "(off, keys) \<in> set blocks" "k0 \<in> set keys"
    "ExtractUserKey key = ExtractUserKey k0"
  shows "\<exists>p q b f p'. new_BloomFilterPolicy bpk = Some p \<and> new_BloomFilterPolicy bpk' = Some q \<and>
    add_blocks (Internal_CreateFilter bloom_CreateFilter) (new_FilterBlockBuilder p) blocks = Some b \<and>
    (length (fst (fb_Finish (Internal_CreateFilter bloom_CreateFilter) b)) < 2 ^ 32 \<longrightarrow>
       fr_KeyMayMatch (Internal_KeyMayMatch bloom_KeyMayMatch) q
         (new_FilterBlockReader (fst (fb_Finish (Internal_CreateFilter bloom_CreateFilter) b))) off key = Some True) \<and>
    ff_GenerateFilter (Internal_CreateFilter bloom_CreateFilter)
        (foldl ff_AddKey (new_FileLevelFilterBuilder (Some p)) (concat (map snd blocks))) =
      (Some f, new_FileLevelFilterBuilder (Some p')) \<and>
    Internal_KeyMayMatch bloom_KeyMayMatch q key f"
proof -
  obtain p q where pq: "new_BloomFilterPolicy bpk = Some p" "bloom_ok p" "new_BloomFilterPolicy bpk' = Some q" "bloom_ok q"
    using new_BloomFilterPolicy_ok assms(1-4) by metis
  have key: "Internal_KeyMayMatch may_match r key g = Internal_KeyMayMatch may_match r k0 g" for may_match r g
    by (simp add: Internal_KeyMayMatch_def assms(9))
  have key': "fr_KeyMayMatch (Internal_KeyMayMatch bloom_KeyMayMatch) q r off key =
      fr_KeyMayMatch (Internal_KeyMayMatch bloom_KeyMayMatch) q r off k0" for r
    by (simp add: fr_KeyMayMatch_def key)
  have mem: "k0 \<in> set (concat (map snd blocks))" using assms(7,8) by force
  then have "concat (map snd blocks) \<noteq> []" by force
  from internal_bloom.ff_GenerateFilter_matches [OF pq(2,4) this assms(5)]
    internal_bloom.filter_block_matches [OF pq(2,4) assms(5,6)]
  show ?thesis using pq(1,3) mem assms(7,8) by (fastforce simp: key key')
qed

theorem filters_keep_keys_witness:
  "\<exists>p b. new_BloomFilterPolicy 10 = Some p \<and>
    add_blocks (Internal_CreateFilter bloom_CreateFilter) (new_FilterBlockBuilder p)
      [(0, [ikey [97] 1 kTypeValue]), (4096, [ikey [98] 2 kTypeValue])] = Some b \<and>
    fr_KeyMayMatch (Internal_KeyMayMatch bloom_KeyMayMatch) p
      (new_FilterBlockReader (fst (fb_Finish (Internal_CreateFilter bloom_CreateFilter) b))) 4096 (ikey [98] 7 kTypeDeletion) = Some True"
proof -
  let ?bs = "[(0, [ikey [97] 1 kTypeValue]), (4096, [ikey [98] 2 kTypeValue])] :: (u64 \<times> slice list) list"
  let ?p = "\<lparr>bf_bits_per_key = 10, bf_k = 6, bf_byte_size = 0, bf_filter_count = 0\<rparr>"
  have p: "new_BloomFilterPolicy 10 = Some ?p" by (simp add: new_BloomFilterPolicy_def)
  have "length (fst (fb_Finish (Internal_CreateFilter bloom_CreateFilter) b)) < 2 ^ 32"
    if "add_blocks (Internal_CreateFilter bloom_CreateFilter) (new_FilterBlockBuilder ?p) ?bs = Some b" for b
    using that by (auto simp: small_filter_block)
  then show ?thesis
    using filters_keep_keys [of 10 10 ?bs 4096 "[ikey [98] 2 kTypeValue]" "ikey [98] 2 kTypeValue" "ikey [98] 7 kTypeDeletion"]
    by (auto simp: p kFilterBase_def kFilterBaseLg_def ExtractUserKey_def)
qed

end
