(* ===== verification/Spec2Isabelle.thy ===== *)
theory Spec2Isabelle
  imports Filename DbWrite_Runs DbRecovery FilterBlock
begin

text \<open>
  A verification library for PebblesDB, the key-value store under \<^verbatim>\<open>src/pebblesdb/src\<close>. All file names below
  are relative to that directory.

  \<^bold>\<open>The program.\<close> A client hands batches of writes to \<^verbatim>\<open>DBImpl::Write\<close> (\<^verbatim>\<open>db/db_impl.cc\<close>). A batch gets a range of
  sequence numbers, is appended to the write-ahead log (\<^verbatim>\<open>db/log_writer.cc\<close>) with a checksum per fragment, and is
  inserted into the memtable (\<^verbatim>\<open>db/memtable.cc\<close>), a skip list (\<^verbatim>\<open>db/skiplist.h\<close>) of internal keys
  (\<^verbatim>\<open>db/dbformat.cc\<close>). Writers run concurrently, each with its own node in a queue; a snapshot waits for the writers
  in front of it. A full memtable is replaced and written out to table files by a background thread, after which its
  log is deleted. Changes of the set of files and of the guards are recorded as version edits (\<^verbatim>\<open>db/version_edit.cc\<close>).
  After a crash \<^verbatim>\<open>DBImpl::RecoverLogFile\<close> reads the log back (\<^verbatim>\<open>db/log_reader.cc\<close>) and replays its batches.

  \<^bold>\<open>The theories.\<close> Each models the named files definition by definition, under the names the code has; a method that
  would clash with another or with a constant of HOL carries a prefix (\<open>mem_Get\<close>, \<open>batch_Put\<close>).

  \<^item> \<open>Prelude\<close>: the machine integers as words (\<open>u32\<close>, \<open>u64\<close>), bytes and slices as lists of 8-bit words, the fact
    collections, and the lemmas on lists, words and bit operations the components share.
  \<^item> \<open>Coding\<close> (\<^verbatim>\<open>util/coding.cc\<close>): fixed-width and variable-length integers, length-prefixed slices. The locale
    \<open>prefix_codec\<close> is the contract of a self-delimiting encoding, interpreted for the three encodings.
  \<^item> \<open>Crc_Tables\<close>, \<open>Crc32c\<close> (\<^verbatim>\<open>util/crc32c.cc\<close>): the eight lookup tables, the slicing loop with its alignment
    prologue, masking; equal to the bitwise CRC-32C. The locale \<open>checksum\<close> is what the log relies on.
  \<^item> \<open>Status\<close>, \<open>Comparator\<close>, \<open>Logging\<close>, \<open>Filename\<close> (\<^verbatim>\<open>util/status.cc\<close>, \<^verbatim>\<open>util/comparator.cc\<close>, \<^verbatim>\<open>util/logging.cc\<close>,
    \<^verbatim>\<open>db/filename.cc\<close>): results, the order of user keys with its separators (locales \<open>comparator\<close>, \<open>separator\<close>), printing
    and parsing of numbers, file names.
  \<^item> \<open>Hash\<close>, \<open>RandomGen\<close> (\<^verbatim>\<open>util/hash.cc\<close>, \<^verbatim>\<open>db/murmurhash3.cc\<close>, \<^verbatim>\<open>util/random.h\<close>): hash functions and the generator of
    node heights.
  \<^item> \<open>Log_Writer\<close>, \<open>Log_Reader\<close>, \<open>Log_Recovery\<close>: the write-ahead log. The destination and the sequential file are
    parameters; the properties use a flat file of bytes for both. \<open>Log_Recovery\<close> connects the two sides.
  \<^item> \<open>DbFormat\<close>: internal keys and their comparator, lookup keys. The locale \<open>user_comparator\<close> is what they need of the
    order of user keys, and a \<open>sublocale\<close> gives the order of internal keys from it.
  \<^item> \<open>VersionEdit\<close>: version edits, their encoding and decoding.
  \<^item> \<open>Skiplist\<close>, \<open>MemTable\<close>: the skip list with its hints, insertion and iterators, where an operation runs alone and
    its compare-and-swap meets no other writer; the memtable on top of it. The locale \<open>sl_keys\<close> is what the list needs of its keys; the memtable gets it by a
    \<open>sublocale\<close> for its encoded entries.
  \<^item> \<open>WriteBatch\<close> (\<^verbatim>\<open>db/write_batch.cc\<close>): batches as strings, the loop over their records, insertion into a memtable,
    and the guards a batch gives rise to.
  \<^item> \<open>DbWrite\<close>: the write path as a step relation \<open>db_step\<close>. A step is one critical section of one thread, so runs of
    \<open>db_reach\<close> are the interleavings of writers, snapshots and flushes. \<open>Writer_Queue\<close> has the lemmas on the doubly
    linked queue, \<open>DbWrite_Inv\<close> the invariant and its preservation, \<open>DbWrite_Safety\<close> the properties, \<open>DbWrite_Runs\<close>
    concrete runs that show what the path does not give.
  \<^item> \<open>DbRecovery\<close>: the replay of a log into memtables, their hand-over, sequence numbers and guards.
  \<^item> \<open>Bloom\<close>, \<open>FilterBlock\<close> (\<^verbatim>\<open>util/bloom.cc\<close>, \<^verbatim>\<open>table/filter_block.cc\<close>): Bloom filters, also over internal keys, and the
    filter blocks of tables and files. The locale \<open>filter_policy\<close> is the contract of a policy; filter blocks are
    verified over any policy that keeps it, and it is interpreted for the Bloom filter and for its use on internal
    keys. \<open>Fixed_Arrays\<close> has the lemmas on offset arrays.

  \<^bold>\<open>What is shown.\<close> The components keep their contracts: encodings are read back, also when other data follows;
  the checksum is the CRC it claims to be; the skip list is a sorted list and its searches find the least key not
  below the target; a memtable answers a lookup by the newest write visible at its sequence number. The log gives
  back what was written, whole and in order, from a file cut at any byte, and a batch cut at any byte is rejected.
  Reading a log ends on every content. Filters have no false negatives, and their probes stay in bounds. Over all
  interleavings of the write path's steps no assertion fails, the queue's pointers are consistent, an acknowledged
  write is readable and a writer with a ticket can finish. Across the components, replaying a log cut at any byte
  behind the acknowledged batches restores exactly their writes and those of some later batches.

  Some theorems show where the code falls short: a record that fills its blocks exactly hides the records behind it
  (\<open>log_hole_loses_record\<close>); a snapshot can change (\<open>snapshot_not_stable\<close>); an acknowledged and synced write can be
  in no file that recovery reads (\<open>acknowledged_write_in_no_file\<close>). The hypothesis \<open>no_holes\<close> of the recovery
  theorems excludes the first.

  \<^bold>\<open>Bounds.\<close> Offsets, lengths, sequence numbers and counts are words of the width they have in the code, and where
  wrapping around matters a hypothesis bounds them: log files below 4 GB (the writer masks offsets with a 32-bit constant),
  runs with fewer than \<open>2 ^ 55\<close> sequence numbers (sequence numbers have 56 bits). Loops that end by their data are
  \<open>fun\<close> or \<open>function\<close> with a termination proof. The loops of the log reader, of the skip list and of recovery are
  \<open>partial_function (option)\<close>; the properties state that they return \<open>Some\<close>. No definition uses fuel.

  \<^bold>\<open>Parameters.\<close> The files (through \<^verbatim>\<open>Env\<close>), what the uninitialised arrays of \<^verbatim>\<open>SkipList::Insert\<close> hold (\<open>prev0\<close>,
  \<open>obs0\<close>), the test for a full memtable and the status of writing a memtable out are arguments of the definitions.

  \<^bold>\<open>Granularity.\<close> Critical sections of different threads interleave freely. The insertion of a batch into the memtable
  is inside one of them in the code, so that writers do not meet in the skip list. What a writer does between two
  critical sections is one step of the model: the append of its batch to the log, which in the code runs without a
  lock; the interleavings inside it (the reservation of log space by compare-and-swap) are not explored.

  \<^bold>\<open>Not modelled.\<close> Of PebblesDB: the state of \<^verbatim>\<open>VersionSet\<close> and compactions (\<^verbatim>\<open>db/version_set.cc\<close>, the second half of
  \<^verbatim>\<open>db/db_impl.cc\<close>), which select files by sizes, timers and seek counts and whose result is in table files; data
  blocks, tables, their iterators and the block cache (\<^verbatim>\<open>table/\<close>, \<^verbatim>\<open>util/cache.cc\<close>, \<^verbatim>\<open>db/table_cache.cc\<close>); the arena
  (\<^verbatim>\<open>util/arena.cc\<close>), so that memory usage is a parameter; \<^verbatim>\<open>db/repair.cc\<close>, \<^verbatim>\<open>db/c.cc\<close> and the benchmarks and tools,
  which only call the rest; \<^verbatim>\<open>util/env_posix.cc\<close> and \<^verbatim>\<open>port/\<close>, which wrap the operating system. The repository also
  holds copies of RocksDB, SpeeDB, LIBSVM, the GAP benchmarks and the YCSB driver with
  LMDB bindings, together with the scripts that run them; these are independent programs and not part of the store.
\<close>

section \<open>Write-ahead log\<close>



text \<open>C17. The exception: after a record that spills over its block and whose rest fills whole
  blocks exactly, the writer leaves seven zero bytes, and the reader takes them for the end of
  the block. The next record is written successfully and yet not returned, with no report.\<close>

theorem log_hole_loses_record:
  assumes "log_hole 0 (length x)" "length x < 2 ^ 30" "length y + 14 < 32768"
  shows "\<exists>w r'. AddRecords flat_WriteAt (new_Writer []) [x, y] = (True, w) \<and>
    ReadRecords flat_Read flat_Skip (new_Reader (lw_dest w) rep c 0) [] [] = Some ([x], r') \<and> lr_reports r' = []"
  using AddRecords_hole [OF assms] ReadRecords_hole [OF assms(1,3), of rep c "[]" "[]"] by auto

theorem log_hole_loses_record_witness:
  "\<exists>w r'. AddRecords flat_WriteAt (new_Writer []) [replicate 65522 0, [1]] = (True, w) \<and>
    ReadRecords flat_Read flat_Skip (new_Reader (lw_dest w) True True 0) [] [] = Some ([replicate 65522 0], r') \<and>
    lr_reports r' = []"
  by (rule log_hole_loses_record) (simp_all add: log_hole_def log_room_def)

text \<open>C21. Reading a log ends, whatever the bytes of the file are and in whatever state the reader is: every
  call of \<^verbatim>\<open>ReadRecord\<close> returns, and the loop that calls it until it fails returns as well.\<close>

theorem log_reading_terminates:
  "(\<exists>x. ReadRecord flat_Read flat_Skip r rcd scratch = Some x) \<and> (\<exists>x. ReadRecords flat_Read flat_Skip r rcd scratch = Some x)"
  using ReadRecord_progress [of r rcd scratch] ReadRecords_returns [of r rcd scratch] by blast

section \<open>Recovery\<close>



end
